(* ===== verification/Sioxx_Prelude.thy ===== *)
theory Sioxx_Prelude
  imports
    Main
    "HOL-Library.Word"
    "HOL-Library.Char_ord"
    "HOL-Library.List_Lexorder" "HOL-Library.AList"
begin

text \<open>
  Shared vocabulary of the development: the parts of C++ and of its standard library that the
  sources rely on, and the lemmas about them that the component theories use.

  A \<^verbatim>\<open>std::string\<close> is a \<^typ>\<open>string\<close>; a character is one byte. \<^verbatim>\<open>npos\<close> is \<^const>\<open>None\<close>.
  An exception, and behaviour the C++ standard leaves undefined, is a value of \<open>cpp_exn\<close>.
  A callable (\<^verbatim>\<open>std::function\<close>) is an optional token: \<^const>\<open>None\<close> is the empty function.
\<close>

named_theorems str_simps \<open>evaluation of std::string searches on appended strings\<close>
named_theorems wf_intros \<open>introduction rules for the components' invariants\<close>

section \<open>Errors, callables, machine bounds\<close>

datatype cpp_exn =
    Invalid_argument string
  | Length_error string
  | Logic_error string
  | Runtime_error string
  | Type_error
  | Bad_alloc
  | Undefined_behaviour

type_synonym callback = nat

type_synonym frame = "string \<times> bool"

definition int_max :: int where
  "int_max = 2147483647"

section \<open>Bytes and characters\<close>

definition char_of_byte :: "8 word \<Rightarrow> char" where
  "char_of_byte b = char_of (unat b)"

definition byte_of_char :: "char \<Rightarrow> 8 word" where
  "byte_of_char c = word_of_nat (of_char c)"

definition isdigit :: "char \<Rightarrow> bool" where
  "isdigit c \<longleftrightarrow> CHR ''0'' \<le> c \<and> c \<le> CHR ''9''"

definition isalnum :: "char \<Rightarrow> bool" where
  "isalnum c \<longleftrightarrow> isdigit c \<or> (CHR ''A'' \<le> c \<and> c \<le> CHR ''Z'') \<or> (CHR ''a'' \<le> c \<and> c \<le> CHR ''z'')"

definition digit_val :: "char \<Rightarrow> int" where
  "digit_val c = of_char c - 48"

definition digit_char :: "nat \<Rightarrow> char" where
  "digit_char d = char_of (48 + d)"

section \<open>Searching and printing strings\<close>

primrec find_idx :: "('a \<Rightarrow> bool) \<Rightarrow> 'a list \<Rightarrow> nat option" where
  "find_idx P [] = None"
| "find_idx P (x # xs) = (if P x then Some 0 else map_option Suc (find_idx P xs))"

definition str_find :: "char \<Rightarrow> string \<Rightarrow> nat \<Rightarrow> nat option" where
  "str_find c s pos = map_option (\<lambda>i. pos + i) (find_idx ((=) c) (drop pos s))"

definition str_find_first_of :: "string \<Rightarrow> string \<Rightarrow> nat \<Rightarrow> nat option" where
  "str_find_first_of cs s pos = map_option (\<lambda>i. pos + i) (find_idx (\<lambda>c. c \<in> set cs) (drop pos s))"

definition str_rfind :: "char \<Rightarrow> string \<Rightarrow> nat option" where
  "str_rfind c s = map_option (\<lambda>i. length s - Suc i) (find_idx ((=) c) (rev s))"

primrec str_find_sub :: "string \<Rightarrow> string \<Rightarrow> nat option" where
  "str_find_sub pat [] = (if pat = [] then Some 0 else None)"
| "str_find_sub pat (c # s) =
     (if take (length pat) (c # s) = pat then Some 0 else map_option Suc (str_find_sub pat s))"

definition substr :: "string \<Rightarrow> nat \<Rightarrow> nat \<Rightarrow> string" where
  "substr s pos n = take n (drop pos s)"

fun to_string_nat :: "nat \<Rightarrow> string" where
  "to_string_nat n =
     (if n < 10 then [digit_char n] else to_string_nat (n div 10) @ [digit_char (n mod 10)])"

definition to_string :: "int \<Rightarrow> string" where
  "to_string i = (if i < 0 then CHR ''-'' # to_string_nat (nat (- i)) else to_string_nat (nat i))"

declare to_string_nat.simps [simp del]

definition dec_val :: "int \<Rightarrow> string \<Rightarrow> int" where
  "dec_val a s = foldl (\<lambda>r c. r * 10 + digit_val c) a s"

section \<open>Reachable states of a component\<close>

text \<open>
  A component's behaviour over time is a labelled step relation; \<open>reach init step\<close> are the
  states that some sequence of steps leads to from an initial state.
\<close>

inductive reach :: "('s \<Rightarrow> bool) \<Rightarrow> ('s \<Rightarrow> 'e \<Rightarrow> 's \<Rightarrow> bool) \<Rightarrow> 's \<Rightarrow> bool"
  for init step where
  reach_init: "init s \<Longrightarrow> reach init step s"
| reach_step: "reach init step s \<Longrightarrow> step s e t \<Longrightarrow> reach init step t"

section \<open>Associative containers\<close>

text \<open>
  A \<^verbatim>\<open>std::map\<close> whose iteration order is not observed is an association list with distinct keys:
  \<^verbatim>\<open>find\<close> is \<^const>\<open>map_of\<close>, \<^verbatim>\<open>m[k] = v\<close> is \<^const>\<open>AList.update\<close>, \<^verbatim>\<open>erase\<close> is
  \<^const>\<open>AList.delete\<close>, and \<^verbatim>\<open>emplace\<close> leaves an existing entry as it is.
\<close>

definition emplace :: "'k \<Rightarrow> 'v \<Rightarrow> ('k \<times> 'v) list \<Rightarrow> ('k \<times> 'v) list" where
  "emplace k v m = (if map_of m k = None then (k, v) # m else m)"

section \<open>Lemmas on bytes and digits\<close>

lemma byte_of_char_of_byte [simp]: "byte_of_char (char_of_byte b) = b"
  using unsigned_less [of b, where 'a = nat] by (simp add: byte_of_char_def char_of_byte_def)

lemma char_of_byte_of_char [simp]: "char_of_byte (byte_of_char c) = c"
  by (simp add: byte_of_char_def char_of_byte_def unat_of_nat)

lemma byte_char_comp [simp]:
  "byte_of_char \<circ> char_of_byte = id" "char_of_byte \<circ> byte_of_char = id"
  by (simp_all add: fun_eq_iff)

lemma isdigit_iff: "isdigit c \<longleftrightarrow> 48 \<le> (of_char c :: nat) \<and> (of_char c :: nat) \<le> 57"
  by (simp add: isdigit_def less_eq_char_def)

lemma of_char_digit_char: "d < 10 \<Longrightarrow> (of_char (digit_char d) :: nat) = 48 + d"
  by (simp add: digit_char_def)

lemma isdigit_digit_char [simp]: "d < 10 \<Longrightarrow> isdigit (digit_char d)"
  by (simp add: isdigit_iff of_char_digit_char)

lemma of_char_int: "(of_char c :: int) = int (of_char c)"
  by (metis of_nat_of_char)

lemma digit_val_digit_char [simp]: "d < 10 \<Longrightarrow> digit_val (digit_char d) = int d"
  by (simp add: digit_val_def of_char_int of_char_digit_char)

lemma digit_val_bounds: "isdigit c \<Longrightarrow> 0 \<le> digit_val c \<and> digit_val c \<le> 9"
  by (auto simp: isdigit_iff digit_val_def of_char_int)

section \<open>Lemmas on searching\<close>

lemma find_idx_None_iff [str_simps]: "find_idx P xs = None \<longleftrightarrow> (\<forall>x \<in> set xs. \<not> P x)"
  by (induction xs) auto

lemma find_idx_append [str_simps]:
  "\<forall>x \<in> set xs. \<not> P x \<Longrightarrow> find_idx P (xs @ ys) = map_option (\<lambda>i. length xs + i) (find_idx P ys)"
  by (cases "find_idx P ys"; induction xs) auto

lemma find_idx_hit [str_simps]:
  "\<forall>x \<in> set xs. \<not> P x \<Longrightarrow> P y \<Longrightarrow> find_idx P (xs @ y # ys) = Some (length xs)"
  by (simp add: find_idx_append)

lemma find_char_hit [str_simps]: "c \<notin> set xs \<Longrightarrow> find_idx ((=) c) (xs @ c # ys) = Some (length xs)"
  by (rule find_idx_hit) auto

lemma find_idx_Some_split:
  "find_idx P xs = Some i \<Longrightarrow>
     \<exists>us v ws. xs = us @ v # ws \<and> length us = i \<and> P v \<and> (\<forall>u \<in> set us. \<not> P u)"
proof (induction xs arbitrary: i)
  case Nil
  then show ?case by simp
next
  case (Cons x xs)
  show ?case
  proof (cases "P x")
    case True
    with Cons.prems show ?thesis by (intro exI [of _ "[]"]) auto
  next
    case False
    with Cons.prems obtain k where k: "find_idx P xs = Some k" and i: "i = Suc k" by auto
    from Cons.IH [OF k] obtain us v ws
      where "xs = us @ v # ws" "length us = k" "P v" "\<forall>u \<in> set us. \<not> P u" by blast
    with False i show ?thesis by (intro exI [of _ "x # us"] exI [of _ v] exI [of _ ws]) auto
  qed
qed

lemma find_idx_less: "find_idx P xs = Some i \<Longrightarrow> i < length xs"
  by (drule find_idx_Some_split) auto

lemma str_find_0 [str_simps]: "str_find c s 0 = find_idx ((=) c) s"
  by (simp add: str_find_def option.map_ident)

lemma str_find_sub_hit:
  assumes "c \<notin> set xs"
  shows "str_find_sub (c # pat) (xs @ (c # pat) @ ys) = Some (length xs)"
  using assms by (induction xs) auto

lemma str_find_sub_None: "c \<notin> set xs \<Longrightarrow> str_find_sub (c # pat) xs = None"
  by (induction xs) auto

lemma str_find_sub_Some_split:
  "str_find_sub pat s = Some i \<Longrightarrow> \<exists>us ws. s = us @ pat @ ws \<and> length us = i"
proof (induction s arbitrary: i)
  case Nil
  then show ?case by (auto split: if_splits)
next
  case (Cons c s)
  show ?case
  proof (cases "take (length pat) (c # s) = pat")
    case True
    with Cons.prems have "i = 0" by simp
    moreover from True have "c # s = [] @ pat @ drop (length pat) (c # s)"
      by (metis append_Nil append_take_drop_id)
    ultimately show ?thesis by (metis list.size(3))
  next
    case False
    with Cons.prems obtain k where k: "str_find_sub pat s = Some k" and i: "i = Suc k"
      by (auto simp del: take_Suc_Cons)
    from Cons.IH [OF k] obtain us ws where "s = us @ pat @ ws" "length us = k" by blast
    with i show ?thesis by (intro exI [of _ "c # us"] exI [of _ ws]) simp
  qed
qed

section \<open>Lemmas on decimal numbers\<close>

lemma to_string_nat_digits: "\<forall>c \<in> set (to_string_nat n). isdigit c"
proof (induction n rule: to_string_nat.induct)
  case (1 n)
  then show ?case by (subst to_string_nat.simps) auto
qed

lemma to_string_nat_nonempty [simp]: "to_string_nat n \<noteq> []"
  by (subst to_string_nat.simps) simp

lemma dec_val_snoc [simp]: "dec_val a (s @ [c]) = dec_val a s * 10 + digit_val c"
  by (simp add: dec_val_def)

lemma dec_val_Nil [simp]: "dec_val a [] = a"
  by (simp add: dec_val_def)

lemma dec_val_Cons [simp]: "dec_val a (c # s) = dec_val (a * 10 + digit_val c) s"
  by (simp add: dec_val_def)

lemma dec_val_to_string_nat [simp]: "dec_val 0 (to_string_nat n) = int n"
proof (induction n rule: to_string_nat.induct)
  case (1 n)
  show ?case
  proof (cases "n < 10")
    case True
    then show ?thesis by (subst to_string_nat.simps) simp
  next
    case False
    with 1 have IH: "dec_val 0 (to_string_nat (n div 10)) = int (n div 10)" by simp
    have "dec_val 0 (to_string_nat n) = int (n div 10) * 10 + int (n mod 10)"
      using False by (subst to_string_nat.simps) (simp add: IH)
    also have "\<dots> = int n" by presburger
    finally show ?thesis .
  qed
qed

lemma dec_val_ge:
  "\<forall>c \<in> set s. isdigit c \<Longrightarrow> 0 \<le> a \<Longrightarrow> a \<le> dec_val a s"
proof (induction s arbitrary: a)
  case Nil
  then show ?case by simp
next
  case (Cons c s)
  then have "0 \<le> digit_val c" by (simp add: digit_val_bounds)
  with Cons.prems have "a \<le> a * 10 + digit_val c" and "0 \<le> a * 10 + digit_val c" by simp_all
  with Cons show ?case by (metis dec_val_Cons list.set_intros(2) order_trans)
qed

lemma no_leading_digit:
  assumes "\<And>c r. rest = c # r \<Longrightarrow> \<not> isdigit c"
  shows "takeWhile isdigit rest = []" and "dropWhile isdigit rest = rest"
  using assms by (cases rest; simp)+

section \<open>Lemmas on lists\<close>

lemma upt_plus: "[a ..< a + (m + n)] = [a ..< a + m] @ [a + m ..< a + m + n]"
  using upt_add_eq_append [of a "a + m" n] by (simp add: add.assoc)

section \<open>Lemmas on associative containers\<close>

lemmas alist_simps = AList.update_conv' AList.delete_conv' AList.distinct_update AList.distinct_delete

lemma emplace_fresh: "map_of m k = None \<Longrightarrow> emplace k v m = (k, v) # m"
  by (simp add: emplace_def)

lemma set_delete: "set (AList.delete k m) = {kv \<in> set m. fst kv \<noteq> k}"
  by (auto simp: AList.delete_eq)

lemma delete_fresh: "map_of m k = None \<Longrightarrow> AList.delete k m = m"
  by (rule AList.delete_id) (auto simp: map_of_eq_None_iff)

lemma map_of_in_set: "distinct (map fst m) \<Longrightarrow> map_of m k = Some v \<longleftrightarrow> (k, v) \<in> set m"
  by (rule map_of_eq_Some_iff)

section \<open>Invariants of step relations\<close>

text \<open>
  The contract under which a predicate is an invariant; every component with a step relation
  interprets it, and its safety properties follow from \<open>reachable_inv\<close>.
\<close>

locale invariant =
  fixes init :: "'s \<Rightarrow> bool"
    and step :: "'s \<Rightarrow> 'e \<Rightarrow> 's \<Rightarrow> bool"
    and inv :: "'s \<Rightarrow> bool"
  assumes inv_init: "init s \<Longrightarrow> inv s"
    and inv_step: "inv s \<Longrightarrow> step s e t \<Longrightarrow> inv t"
begin

lemma reachable_inv: "reach init step s \<Longrightarrow> inv s"
  by (induction rule: reach.induct) (auto intro: inv_init inv_step)

lemma reachable_induct [consumes 1, case_names init step]:
  assumes "reach init step s"
    and "\<And>s. init s \<Longrightarrow> P s"
    and "\<And>s e t. reach init step s \<Longrightarrow> inv s \<Longrightarrow> inv t \<Longrightarrow> P s \<Longrightarrow> step s e t \<Longrightarrow> P t"
  shows "P s"
  using assms(1)
proof (induction rule: reach.induct)
  case (reach_init s)
  then show ?case by (rule assms(2))
next
  case (reach_step s e t)
  then show ?case by (meson assms(3) reach.reach_step reachable_inv)
qed

end

end
