(* ===== verification/Sioxx_Message.thy ===== *)
theory Sioxx_Message
  imports Sioxx_Prelude
begin

text \<open>
  The payload type (\<^verbatim>\<open>include/sioxx/message.hpp\<close>: \<^verbatim>\<open>json\<close> is \<^verbatim>\<open>nlohmann::json\<close>), the packet
  (\<^verbatim>\<open>include/sioxx/packet.hpp\<close>) and the parser interface (\<^verbatim>\<open>include/sioxx/parser.hpp\<close>).

  A JSON value keeps the alternatives of \<^verbatim>\<open>nlohmann::json::value_t\<close> apart: signed and unsigned
  integers and doubles are 64-bit words (a double as its bit pattern), a binary value is a byte
  vector with an optional subtype, and an object is the list of its members in the key order of
  the underlying \<^verbatim>\<open>std::map\<close>. The discarded value is the \<^const>\<open>None\<close> of the parsing functions.

  The serialisers of \<^verbatim>\<open>nlohmann::json\<close> are not part of the repository. They are the fields of
  the record \<open>json_lib\<close>, an argument of every definition that uses them.
\<close>

section \<open>Data\<close>

datatype json =
    JNull
  | JBool bool
  | JInt "64 word"
  | JUnsigned "64 word"
  | JFloat "64 word"
  | JString string
  | JBinary "8 word list" "64 word option"
  | JArray "json list"
  | JObject "(string \<times> json) list"

datatype packet_type =
    Connect
  | Disconnect
  | Event
  | Ack
  | Connect_error
  | Binary_event
  | Binary_ack
  | Unnamed int

text \<open>
  \<^verbatim>\<open>packet_type\<close> has the fixed underlying type \<^verbatim>\<open>int\<close>, so a cast can give it a value without
  an enumerator: \<^const>\<open>Unnamed\<close>.
\<close>

fun int_of_packet_type :: "packet_type \<Rightarrow> int" where
  "int_of_packet_type Connect = 0"
| "int_of_packet_type Disconnect = 1"
| "int_of_packet_type Event = 2"
| "int_of_packet_type Ack = 3"
| "int_of_packet_type Connect_error = 4"
| "int_of_packet_type Binary_event = 5"
| "int_of_packet_type Binary_ack = 6"
| "int_of_packet_type (Unnamed i) = i"

definition packet_type_of_int :: "int \<Rightarrow> packet_type" where
  "packet_type_of_int i =
     (if i = 0 then Connect else if i = 1 then Disconnect else if i = 2 then Event
      else if i = 3 then Ack else if i = 4 then Connect_error else if i = 5 then Binary_event
      else if i = 6 then Binary_ack else Unnamed i)"

fun is_named :: "packet_type \<Rightarrow> bool" where
  "is_named (Unnamed i) = False"
| "is_named _ = True"

record packet =
  pk_type :: packet_type
  pk_nsp :: string
  pk_id :: int
  pk_data :: json
  pk_attachments :: int

definition default_packet :: packet where
  "default_packet =
     \<lparr>pk_type = Event, pk_nsp = ''/'', pk_id = -1, pk_data = JNull, pk_attachments = 0\<rparr>"

record json_lib =
  lib_dump :: "json \<Rightarrow> string option"
  lib_parse :: "string \<Rightarrow> json option"
  lib_to_msgpack :: "json \<Rightarrow> string"
  lib_from_msgpack :: "string \<Rightarrow> json option"
  lib_to_cbor :: "json \<Rightarrow> string"
  lib_from_cbor :: "string \<Rightarrow> json option"
  lib_get_int :: "json \<Rightarrow> int option"

section \<open>Operations on values\<close>

definition is_null :: "json \<Rightarrow> bool" where
  "is_null v = (v = JNull)"

fun is_array :: "json \<Rightarrow> bool" where
  "is_array (JArray _) = True"
| "is_array _ = False"

fun is_object :: "json \<Rightarrow> bool" where
  "is_object (JObject _) = True"
| "is_object _ = False"

fun is_string :: "json \<Rightarrow> bool" where
  "is_string (JString _) = True"
| "is_string _ = False"

fun obj_find :: "json \<Rightarrow> string \<Rightarrow> json option" where
  "obj_find (JObject ms) k = map_of ms k"
| "obj_find _ k = None"

fun members_set :: "string \<Rightarrow> json \<Rightarrow> (string \<times> json) list \<Rightarrow> (string \<times> json) list" where
  "members_set k v [] = [(k, v)]"
| "members_set k v ((k', v') # ms) =
     (if k = k' then (k, v) # ms
      else if k < k' then (k, v) # (k', v') # ms
      else (k', v') # members_set k v ms)"

fun obj_set :: "json \<Rightarrow> string \<Rightarrow> json \<Rightarrow> json" where
  "obj_set (JObject ms) k v = JObject (members_set k v ms)"
| "obj_set j k v = j"

text \<open>
  \<^verbatim>\<open>j.value(key, default)\<close>: a type error unless \<open>j\<close> is an object; the default when the key is
  missing; otherwise the conversion of the member, which may fail.
\<close>

definition value_int :: "json_lib \<Rightarrow> json \<Rightarrow> string \<Rightarrow> int \<Rightarrow> cpp_exn + int" where
  "value_int lib j k d =
     (if is_object j
      then (case obj_find j k of
              None \<Rightarrow> Inr d
            | Some v \<Rightarrow> (case lib_get_int lib v of None \<Rightarrow> Inl Type_error | Some i \<Rightarrow> Inr i))
      else Inl Type_error)"

fun get_string :: "json \<Rightarrow> cpp_exn + string" where
  "get_string (JString s) = Inr s"
| "get_string _ = Inl Type_error"

definition value_string :: "json \<Rightarrow> string \<Rightarrow> string \<Rightarrow> cpp_exn + string" where
  "value_string j k d =
     (if is_object j
      then (case obj_find j k of None \<Rightarrow> Inr d | Some v \<Rightarrow> get_string v)
      else Inl Type_error)"

text \<open>
  The documented normal form of integers after a round trip through text, MessagePack or CBOR:
  non-negative integers come back as unsigned ones.
\<close>

fun num_norm :: "json \<Rightarrow> json" where
  "num_norm (JInt w) = (if 0 \<le> sint w then JUnsigned w else JInt w)"
| "num_norm (JArray vs) = JArray (map num_norm vs)"
| "num_norm (JObject ms) = JObject (map (\<lambda>m. (fst m, num_norm (snd m))) ms)"
| "num_norm v = v"

definition make_args :: "json list \<Rightarrow> json" where
  "make_args vs = JArray vs"

definition binary_message :: "8 word list \<Rightarrow> json" where
  "binary_message bytes = JBinary bytes None"

section \<open>Feeding frames to a decoder\<close>

text \<open>
  A decoder consumes one frame: \<^const>\<open>None\<close> is a failure outside the decoder's contract (an
  index out of range), otherwise the next state and the packet when one is complete.
\<close>

type_synonym 'st decoder = "'st \<Rightarrow> string \<Rightarrow> bool \<Rightarrow> ('st \<times> packet option) option"

fun decode_all :: "'st decoder \<Rightarrow> 'st \<Rightarrow> frame list \<Rightarrow> ('st \<times> packet list) option" where
  "decode_all dec st [] = Some (st, [])"
| "decode_all dec st ((pl, b) # fs) =
     (case dec st pl b of
        None \<Rightarrow> None
      | Some (st', out) \<Rightarrow>
          (case decode_all dec st' fs of
             None \<Rightarrow> None
           | Some (st'', ps) \<Rightarrow> Some (st'', (case out of None \<Rightarrow> ps | Some p \<Rightarrow> p # ps))))"

section \<open>Lemmas\<close>

lemma is_namedD:
  assumes "is_named t"
  shows "packet_type_of_int (int_of_packet_type t) = t"
    and "0 \<le> int_of_packet_type t" and "int_of_packet_type t \<le> 6"
  using assms by (cases t; simp add: packet_type_of_int_def)+

lemma int_of_packet_type_of [simp]: "int_of_packet_type (packet_type_of_int i) = i"
  by (simp add: packet_type_of_int_def)

lemma map_of_members_set: "map_of (members_set k v ms) = (map_of ms)(k \<mapsto> v)"
  by (induction k v ms rule: members_set.induct) (auto simp: fun_eq_iff)

lemma obj_find_obj_set [simp]:
  "is_object j \<Longrightarrow> obj_find (obj_set j k v) k' = (if k' = k then Some v else obj_find j k')"
  by (cases j) (auto simp: map_of_members_set)

lemma is_object_obj_set [simp]: "is_object (obj_set j k v) = is_object j"
  by (cases j) auto

lemma map_of_num_norm:
  "map_of (map (\<lambda>m. (fst m, num_norm (snd m))) ms) k = map_option num_norm (map_of ms k)"
  by (induction ms) auto

lemma obj_find_num_norm [simp]:
  "obj_find (num_norm j) k = map_option num_norm (obj_find j k)"
  by (cases j) (auto simp: map_of_num_norm)

lemma is_object_num_norm [simp]: "is_object (num_norm j) = is_object j"
  by (cases j) auto

lemma is_array_num_norm [simp]: "is_array (num_norm j) = is_array j"
  by (cases j) auto

lemma num_norm_null_iff [simp]: "num_norm j = JNull \<longleftrightarrow> j = JNull"
  by (cases j) auto

lemma decode_all_append:
  "decode_all dec st (fs @ gs) =
     (case decode_all dec st fs of
        None \<Rightarrow> None
      | Some (st', ps) \<Rightarrow>
          (case decode_all dec st' gs of None \<Rightarrow> None | Some (st'', qs) \<Rightarrow> Some (st'', ps @ qs)))"
  by (induction dec st fs rule: decode_all.induct) (auto split: option.splits)

section \<open>The parser interface\<close>

text \<open>
  What the Socket.IO layer relies on from a \<^verbatim>\<open>parser_base\<close>. \<open>ok p\<close> says which packets a parser
  can carry, and \<open>canon p\<close> how they arrive. A decoder never fails from a state satisfying its
  invariant, whatever the input; and the frames of one packet, fed to a decoder in such a state,
  deliver that packet and nothing else, leaving the decoder idle.
\<close>

locale parser_base =
  fixes encode :: "packet \<Rightarrow> cpp_exn + frame list"
    and decode :: "'st decoder"
    and fresh :: 'st
    and inv :: "'st \<Rightarrow> bool"
    and ok :: "packet \<Rightarrow> bool"
    and canon :: "packet \<Rightarrow> packet"
  assumes fresh_inv: "inv fresh"
    and decode_safe: "inv st \<Longrightarrow> \<exists>st' out. decode st pl b = Some (st', out) \<and> inv st'"
    and encode_ok: "ok p \<Longrightarrow> \<exists>fs. encode p = Inr fs"
    and roundtrip:
      "ok p \<Longrightarrow> encode p = Inr fs \<Longrightarrow> inv st \<Longrightarrow> decode_all decode st fs = Some (fresh, [canon p])"
begin

lemma decode_all_safe: "inv st \<Longrightarrow> \<exists>st' ps. decode_all decode st fs = Some (st', ps) \<and> inv st'"
proof (induction fs arbitrary: st)
  case Nil
  then show ?case by simp
next
  case (Cons f fs)
  obtain pl b where f: "f = (pl, b)" by (cases f)
  from decode_safe [OF Cons.prems, of pl b] obtain st1 out
    where dec: "decode st pl b = Some (st1, out)" and "inv st1" by blast
  from Cons.IH [OF \<open>inv st1\<close>] obtain st2 ps
    where "decode_all decode st1 fs = Some (st2, ps)" and "inv st2" by blast
  with f dec show ?case by auto
qed

lemma decode_stream:
  assumes "\<forall>p \<in> set ps. ok p" and "\<forall>p \<in> set ps. encode p = Inr (frames p)" and "inv st" and "ps \<noteq> []"
  shows "decode_all decode st (concat (map frames ps)) = Some (fresh, map canon ps)"
  using assms
proof (induction ps arbitrary: st)
  case Nil
  then show ?case by simp
next
  case (Cons p ps)
  have hd: "decode_all decode st (frames p) = Some (fresh, [canon p])"
    using Cons.prems by (intro roundtrip) auto
  show ?case
  proof (cases "ps = []")
    case True
    with hd show ?thesis by simp
  next
    case False
    with Cons have "decode_all decode fresh (concat (map frames ps)) = Some (fresh, map canon ps)"
      using fresh_inv by auto
    with hd show ?thesis by (simp add: decode_all_append)
  qed
qed

end

end
