(* ===== verification/Json_Parser.thy ===== *)
theory Json_Parser
  imports Sioxx_Message
begin

text \<open>
  The default text protocol (\<^verbatim>\<open>src/json_parser.cpp\<close>):
  \<^verbatim>\<open><packet type>[<# attachments>-][<namespace>,][<ack id>][JSON payload]\<close>,
  followed by one binary frame per attachment.

  Definitions follow the source function by function. The source walks the payload with an index
  \<^verbatim>\<open>i\<close>; here the text still to be read is passed on instead. The lemmas show that decoding
  never leaves its contract, what the placeholder check guarantees, and the round trip through
  the wire.
\<close>

section \<open>Definitions\<close>

definition placeholder :: "nat \<Rightarrow> json" where
  "placeholder index = JObject [(''_placeholder'', JBool True), (''num'', JUnsigned (of_nat index))]"

fun deconstruct_binary :: "json \<Rightarrow> string list \<Rightarrow> json \<times> string list"
  and deconstruct_elements :: "json list \<Rightarrow> string list \<Rightarrow> json list \<times> string list"
  and deconstruct_members ::
    "(string \<times> json) list \<Rightarrow> string list \<Rightarrow> (string \<times> json) list \<times> string list"
where
  "deconstruct_binary (JBinary bytes st) attachments =
     (placeholder (length attachments), attachments @ [map char_of_byte bytes])"
| "deconstruct_binary (JArray vs) attachments =
     (let r = deconstruct_elements vs attachments in (JArray (fst r), snd r))"
| "deconstruct_binary (JObject ms) attachments =
     (let r = deconstruct_members ms attachments in (JObject (fst r), snd r))"
| "deconstruct_binary v attachments = (v, attachments)"
| "deconstruct_elements [] attachments = ([], attachments)"
| "deconstruct_elements (v # vs) attachments =
     (let r = deconstruct_binary v attachments;
          rs = deconstruct_elements vs (snd r)
      in (fst r # fst rs, snd rs))"
| "deconstruct_members [] attachments = ([], attachments)"
| "deconstruct_members ((k, v) # ms) attachments =
     (let r = deconstruct_binary v attachments;
          rs = deconstruct_members ms (snd r)
      in ((k, fst r) # fst rs, snd rs))"

fun parse_digits :: "string \<Rightarrow> int \<Rightarrow> int option" where
  "parse_digits [] result = Some result"
| "parse_digits (c # s) result =
     (if \<not> isdigit c then None
      else if (int_max - digit_val c) div 10 < result then None
      else parse_digits s (result * 10 + digit_val c))"

definition parse_nonnegative_int :: "string \<Rightarrow> nat \<Rightarrow> nat \<Rightarrow> int option" where
  "parse_nonnegative_int value begin end =
     (if begin = end then None else parse_digits (substr value begin (end - begin)) 0)"

fun is_binary_placeholder :: "json \<Rightarrow> bool" where
  "is_binary_placeholder (JObject ms) =
     (case map_of ms ''_placeholder'' of Some (JBool b) \<Rightarrow> b | _ \<Rightarrow> False)"
| "is_binary_placeholder _ = False"

definition read_placeholder_index :: "json \<Rightarrow> 64 word option" where
  "read_placeholder_index v =
     (case obj_find v ''num'' of
        Some (JUnsigned w) \<Rightarrow> Some w
      | Some (JInt w) \<Rightarrow> (if sint w < 0 then None else Some w)
      | _ \<Rightarrow> None)"

fun collect_placeholder_indices :: "json \<Rightarrow> int \<Rightarrow> 64 word set \<Rightarrow> 64 word set option"
  and collect_elements :: "json list \<Rightarrow> int \<Rightarrow> 64 word set \<Rightarrow> 64 word set option"
  and collect_members :: "(string \<times> json) list \<Rightarrow> int \<Rightarrow> 64 word set \<Rightarrow> 64 word set option"
where
  "collect_placeholder_indices (JObject ms) attachment_count indices =
     (if is_binary_placeholder (JObject ms)
      then (case read_placeholder_index (JObject ms) of
              None \<Rightarrow> None
            | Some index \<Rightarrow>
                (if of_int attachment_count \<le> index then None
                 else if index \<in> indices then None
                 else Some (insert index indices)))
      else collect_members ms attachment_count indices)"
| "collect_placeholder_indices (JArray vs) attachment_count indices =
     collect_elements vs attachment_count indices"
| "collect_placeholder_indices v attachment_count indices = Some indices"
| "collect_elements [] attachment_count indices = Some indices"
| "collect_elements (v # vs) attachment_count indices =
     (case collect_placeholder_indices v attachment_count indices of
        None \<Rightarrow> None
      | Some indices' \<Rightarrow> collect_elements vs attachment_count indices')"
| "collect_members [] attachment_count indices = Some indices"
| "collect_members ((k, v) # ms) attachment_count indices =
     (case collect_placeholder_indices v attachment_count indices of
        None \<Rightarrow> None
      | Some indices' \<Rightarrow> collect_members ms attachment_count indices')"

definition has_valid_placeholders :: "json \<Rightarrow> int \<Rightarrow> bool" where
  "has_valid_placeholders d attachment_count =
     (case collect_placeholder_indices d attachment_count {} of
        None \<Rightarrow> False
      | Some indices \<Rightarrow> card indices = nat attachment_count)"

text \<open>
  \<^verbatim>\<open>value["num"].get<size_t>()\<close> and \<^verbatim>\<open>attachments[index]\<close> have preconditions in C++; where one
  does not hold, reconstruction has no result. Lemma \<open>reconstruct_valid\<close> shows that this never
  happens after the placeholder check.
\<close>

definition placeholder_attachment :: "json \<Rightarrow> string list \<Rightarrow> string option" where
  "placeholder_attachment v attachments =
     (let nth = (\<lambda>w. if unat w < length attachments then Some (attachments ! unat w) else None)
      in case obj_find v ''num'' of
           Some (JUnsigned w) \<Rightarrow> nth w
         | Some (JInt w) \<Rightarrow> nth w
         | _ \<Rightarrow> None)"

fun reconstruct_binary :: "json \<Rightarrow> string list \<Rightarrow> json option"
  and reconstruct_elements :: "json list \<Rightarrow> string list \<Rightarrow> json list option"
  and reconstruct_members ::
    "(string \<times> json) list \<Rightarrow> string list \<Rightarrow> (string \<times> json) list option"
where
  "reconstruct_binary (JObject ms) attachments =
     (if is_binary_placeholder (JObject ms)
      then (case placeholder_attachment (JObject ms) attachments of
              None \<Rightarrow> None
            | Some a \<Rightarrow> Some (JBinary (map byte_of_char a) None))
      else map_option JObject (reconstruct_members ms attachments))"
| "reconstruct_binary (JArray vs) attachments =
     map_option JArray (reconstruct_elements vs attachments)"
| "reconstruct_binary v attachments = Some v"
| "reconstruct_elements [] attachments = Some []"
| "reconstruct_elements (v # vs) attachments =
     (case reconstruct_binary v attachments of
        None \<Rightarrow> None
      | Some v' \<Rightarrow> map_option ((#) v') (reconstruct_elements vs attachments))"
| "reconstruct_members [] attachments = Some []"
| "reconstruct_members ((k, v) # ms) attachments =
     (case reconstruct_binary v attachments of
        None \<Rightarrow> None
      | Some v' \<Rightarrow> map_option ((#) (k, v')) (reconstruct_members ms attachments))"

definition may_carry_attachments :: "packet_type \<Rightarrow> bool" where
  "may_carry_attachments t = (t = Event \<or> t = Binary_event \<or> t = Ack \<or> t = Binary_ack)"

definition is_binary_type :: "packet_type \<Rightarrow> bool" where
  "is_binary_type t = (t = Binary_event \<or> t = Binary_ack)"

definition encoded_type :: "packet_type \<Rightarrow> string list \<Rightarrow> packet_type" where
  "encoded_type t attachments =
     (if attachments = []
      then (if t = Binary_event then Event else if t = Binary_ack then Ack else t)
      else (if t = Event then Binary_event else if t = Ack then Binary_ack else t))"

definition encode_header :: "packet_type \<Rightarrow> int \<Rightarrow> string \<Rightarrow> int \<Rightarrow> string" where
  "encode_header t attachment_count nsp ack_id =
     to_string (int_of_packet_type t)
     @ (if is_binary_type t then to_string attachment_count @ ''-'' else [])
     @ (if nsp \<noteq> [] \<and> nsp \<noteq> ''/'' then nsp @ '','' else [])
     @ (if 0 \<le> ack_id then to_string ack_id else [])"

definition json_parser_encode :: "json_lib \<Rightarrow> packet \<Rightarrow> cpp_exn + frame list" where
  "json_parser_encode lib p =
     (let (d, attachments) =
            (if may_carry_attachments (pk_type p) then deconstruct_binary (pk_data p) []
             else (pk_data p, []))
      in if int_max < int (length attachments)
         then Inl (Length_error ''too many Socket.IO binary attachments'')
         else
           let t = encoded_type (pk_type p) attachments;
               out = encode_header t (int (length attachments)) (pk_nsp p) (pk_id p)
           in case (if is_null d then Some [] else lib_dump lib d) of
                None \<Rightarrow> Inl Type_error
              | Some body \<Rightarrow> Inr ((out @ body, False) # map (\<lambda>a. (a, True)) attachments))"

record json_parser =
  pending_binary_packet :: "packet option"
  pending_attachments :: "string list"

definition json_parser_new :: json_parser where
  "json_parser_new = \<lparr>pending_binary_packet = None, pending_attachments = []\<rparr>"

definition decode_attachment_count :: "packet_type \<Rightarrow> string \<Rightarrow> (int \<times> string) option" where
  "decode_attachment_count t rest =
     (if is_binary_type t
      then (case str_find CHR ''-'' rest 0 of
              None \<Rightarrow> None
            | Some dash \<Rightarrow>
                (case parse_nonnegative_int rest 0 dash of
                   None \<Rightarrow> None
                 | Some n \<Rightarrow> (if n = 0 then None else Some (n, drop (dash + 1) rest))))
      else Some (0, rest))"

definition decode_nsp :: "string \<Rightarrow> string \<times> string" where
  "decode_nsp rest =
     (if rest \<noteq> [] \<and> hd rest = CHR ''/''
      then (case str_find CHR '','' rest 0 of
              None \<Rightarrow> (rest, [])
            | Some comma \<Rightarrow> (substr rest 0 comma, drop (comma + 1) rest))
      else (''/'', rest))"

definition decode_id :: "string \<Rightarrow> (int \<times> string) option" where
  "decode_id rest =
     (let digits = takeWhile isdigit rest
      in if digits \<noteq> []
         then map_option (\<lambda>i. (i, dropWhile isdigit rest))
                (parse_nonnegative_int rest 0 (length digits))
         else Some (-1, rest))"

definition decode_data :: "json_lib \<Rightarrow> string \<Rightarrow> json option" where
  "decode_data lib rest = (if rest \<noteq> [] then lib_parse lib rest else Some JNull)"

definition decode_text :: "json_lib \<Rightarrow> string \<Rightarrow> packet option" where
  "decode_text lib payload =
     (case payload of
        [] \<Rightarrow> None
      | c # rest \<Rightarrow>
          (if \<not> isdigit c then None
           else if digit_val c < 0 \<or> 6 < digit_val c then None
           else
             let t = packet_type_of_int (digit_val c)
             in case decode_attachment_count t rest of
                  None \<Rightarrow> None
                | Some (n, rest1) \<Rightarrow>
                    (case decode_nsp rest1 of
                       (nsp, rest2) \<Rightarrow>
                         (case decode_id rest2 of
                            None \<Rightarrow> None
                          | Some (i, rest3) \<Rightarrow>
                              (case decode_data lib rest3 of
                                 None \<Rightarrow> None
                               | Some d \<Rightarrow>
                                   Some \<lparr>pk_type = t, pk_nsp = nsp, pk_id = i, pk_data = d,
                                         pk_attachments = n\<rparr>)))))"

definition accept_text :: "json_parser \<Rightarrow> packet option \<Rightarrow> json_parser \<times> packet option" where
  "accept_text st decoded =
     (case decoded of
        None \<Rightarrow> (st, None)
      | Some p \<Rightarrow>
          (if is_binary_type (pk_type p)
           then (if has_valid_placeholders (pk_data p) (pk_attachments p)
                 then (st\<lparr>pending_binary_packet := Some p\<rparr>, None)
                 else (st, None))
           else (st, Some p)))"

definition json_parser_decode :: "json_lib \<Rightarrow> json_parser decoder" where
  "json_parser_decode lib st payload is_binary =
     (case pending_binary_packet st of
        Some p \<Rightarrow>
          (if is_binary
           then
             let attachments = pending_attachments st @ [payload]
             in if length attachments < nat (pk_attachments p)
                then Some (st\<lparr>pending_attachments := attachments\<rparr>, None)
                else
                  (case reconstruct_binary (pk_data p) attachments of
                     None \<Rightarrow> None
                   | Some d \<Rightarrow>
                       Some (st\<lparr>pending_binary_packet := None, pending_attachments := []\<rparr>,
                             Some (p\<lparr>pk_data := d\<rparr>)))
           else
             Some (accept_text (st\<lparr>pending_binary_packet := None, pending_attachments := []\<rparr>)
                     (decode_text lib payload)))
      | None \<Rightarrow>
          (if is_binary then Some (st, None)
           else Some (accept_text st (decode_text lib payload))))"

text \<open>
  Reference notions for the correctness statements: the indices a value's placeholders name, in
  traversal order (\<^const>\<open>None\<close> for a placeholder without a usable index), and the values that the
  text protocol can carry unchanged, that is, without application data that looks like a
  placeholder and without binary subtypes, which the wire format has no room for.
\<close>

fun placeholder_indices :: "json \<Rightarrow> 64 word option list" where
  "placeholder_indices (JObject ms) =
     (if is_binary_placeholder (JObject ms) then [read_placeholder_index (JObject ms)]
      else concat (map (\<lambda>m. placeholder_indices (snd m)) ms))"
| "placeholder_indices (JArray vs) = concat (map placeholder_indices vs)"
| "placeholder_indices v = []"

fun carries :: "json \<Rightarrow> bool" where
  "carries (JObject ms) =
     (\<not> is_binary_placeholder (JObject ms) \<and> list_all (\<lambda>m. carries (snd m)) ms)"
| "carries (JArray vs) = list_all carries vs"
| "carries (JBinary bytes st) = (st = None)"
| "carries v = True"

fun binary_leaves :: "json \<Rightarrow> string list" where
  "binary_leaves (JObject ms) = concat (map (\<lambda>m. binary_leaves (snd m)) ms)"
| "binary_leaves (JArray vs) = concat (map binary_leaves vs)"
| "binary_leaves (JBinary bytes st) = [map char_of_byte bytes]"
| "binary_leaves v = []"

definition wire_data :: "packet \<Rightarrow> json" where
  "wire_data p =
     (if may_carry_attachments (pk_type p) then fst (deconstruct_binary (pk_data p) [])
      else pk_data p)"

definition wire_attachments :: "packet \<Rightarrow> string list" where
  "wire_attachments p =
     (if may_carry_attachments (pk_type p) then binary_leaves (pk_data p) else [])"

definition wire_nsp :: "string \<Rightarrow> bool" where
  "wire_nsp nsp \<longleftrightarrow> nsp = [] \<or> (hd nsp = CHR ''/'' \<and> CHR '','' \<notin> set nsp)"

text \<open>
  The packets that survive the wire: a named type, a namespace that starts with a slash and has
  no comma, an acknowledgement id and an attachment count in the range of \<^verbatim>\<open>int\<close>, and a payload
  that the JSON library prints and reads back, its text not starting with a digit or a slash
  (arrays and objects start with a bracket).
\<close>

definition json_wire_ok :: "json_lib \<Rightarrow> packet \<Rightarrow> bool" where
  "json_wire_ok lib p \<longleftrightarrow>
     is_named (pk_type p) \<and> wire_nsp (pk_nsp p) \<and> pk_id p \<le> int_max
     \<and> int (length (wire_attachments p)) \<le> int_max
     \<and> (may_carry_attachments (pk_type p) \<longrightarrow> carries (pk_data p))
     \<and> (wire_data p = JNull
        \<or> (case lib_dump lib (wire_data p) of
             None \<Rightarrow> False
           | Some body \<Rightarrow>
               body \<noteq> [] \<and> \<not> isdigit (hd body) \<and> hd body \<noteq> CHR ''/''
               \<and> lib_parse lib body = Some (num_norm (wire_data p))))"

definition json_canon :: "packet \<Rightarrow> packet" where
  "json_canon p =
     \<lparr>pk_type = encoded_type (pk_type p) (wire_attachments p),
      pk_nsp = (if pk_nsp p = [] then ''/'' else pk_nsp p),
      pk_id = (if 0 \<le> pk_id p then pk_id p else -1),
      pk_data = num_norm (pk_data p),
      pk_attachments = int (length (wire_attachments p))\<rparr>"

definition json_parser_inv :: "json_parser \<Rightarrow> bool" where
  "json_parser_inv st =
     (case pending_binary_packet st of
        None \<Rightarrow> pending_attachments st = []
      | Some p \<Rightarrow>
          is_binary_type (pk_type p) \<and> 0 < pk_attachments p \<and> pk_attachments p \<le> int_max
          \<and> has_valid_placeholders (pk_data p) (pk_attachments p)
          \<and> length (pending_attachments st) < nat (pk_attachments p))"

definition fresh_indices :: "int \<Rightarrow> 64 word set \<Rightarrow> 64 word option list \<Rightarrow> bool" where
  "fresh_indices n S ws \<longleftrightarrow>
     None \<notin> set ws \<and> distinct ws \<and> (\<forall>w. Some w \<in> set ws \<longrightarrow> w < of_int n \<and> w \<notin> S)"

section \<open>Integers on the wire\<close>

lemma parse_digits_eq:
  "0 \<le> result \<Longrightarrow> result \<le> int_max \<Longrightarrow>
   parse_digits s result =
     (if (\<forall>c \<in> set s. isdigit c) \<and> dec_val result s \<le> int_max then Some (dec_val result s) else None)"
proof (induction s arbitrary: result)
  case Nil
  then show ?case by simp
next
  case (Cons c s)
  show ?case
  proof (cases "isdigit c")
    case False
    then show ?thesis by simp
  next
    case True
    let ?d = "digit_val c" and ?r = "result * 10 + digit_val c"
    from True have d: "0 \<le> ?d" "?d \<le> 9" by (simp_all add: digit_val_bounds)
    have guard: "(int_max - ?d) div 10 < result \<longleftrightarrow> int_max < ?r"
      using d Cons.prems by (auto simp: int_max_def)
    show ?thesis
    proof (cases "int_max < ?r")
      case True
      have "\<forall>c \<in> set s. isdigit c \<Longrightarrow> int_max < dec_val ?r s"
        using dec_val_ge [of s ?r] True by (simp add: int_max_def)
      with True guard show ?thesis by auto
    next
      case False
      with guard d Cons.prems Cons.IH [of ?r] \<open>isdigit c\<close> show ?thesis by simp
    qed
  qed
qed

lemma parse_nonnegative_int_digits:
  assumes "s \<noteq> []" and "\<forall>c \<in> set s. isdigit c" and "dec_val 0 s \<le> int_max"
  shows "parse_nonnegative_int (s @ rest) 0 (length s) = Some (dec_val 0 s)"
  using assms by (simp add: parse_nonnegative_int_def substr_def parse_digits_eq int_max_def)

lemma to_string_nonneg: "0 \<le> i \<Longrightarrow> to_string i = to_string_nat (nat i)"
  by (simp add: to_string_def)

lemma parse_to_string:
  "0 \<le> i \<Longrightarrow> i \<le> int_max \<Longrightarrow>
   parse_nonnegative_int (to_string i @ rest) 0 (length (to_string i)) = Some i"
  using parse_nonnegative_int_digits [of "to_string i" rest]
  by (simp add: to_string_nonneg to_string_nat_digits)

section \<open>What the placeholder check accepts\<close>

lemma the_image_iff: "None \<notin> A \<Longrightarrow> w \<in> the ` A \<longleftrightarrow> Some w \<in> A"
proof
  assume n: "None \<notin> A" and "w \<in> the ` A"
  then obtain x where "x \<in> A" "w = the x" by blast
  with n show "Some w \<in> A" by (cases x) auto
next
  assume "Some w \<in> A"
  then show "w \<in> the ` A" by force
qed

lemma fresh_indices_append:
  "fresh_indices n S (xs @ ys) \<longleftrightarrow>
     fresh_indices n S xs \<and> fresh_indices n (S \<union> the ` set xs) ys"
proof (cases "None \<in> set xs \<or> None \<in> set ys")
  case True
  then show ?thesis by (auto simp: fresh_indices_def)
next
  case False
  then have "set xs \<inter> set ys = {} \<longleftrightarrow> (\<forall>w. Some w \<in> set ys \<longrightarrow> Some w \<notin> set xs)"
    by (metis disjoint_iff option.exhaust)
  with False show ?thesis by (auto simp: fresh_indices_def the_image_iff)
qed

lemma collect_eq:
  "collect_placeholder_indices v n S =
     (let ws = placeholder_indices v
      in if fresh_indices n S ws then Some (S \<union> the ` set ws) else None)"
  "collect_elements vs n S =
     (let ws = concat (map placeholder_indices vs)
      in if fresh_indices n S ws then Some (S \<union> the ` set ws) else None)"
  "collect_members ms n S =
     (let ws = concat (map (\<lambda>m. placeholder_indices (snd m)) ms)
      in if fresh_indices n S ws then Some (S \<union> the ` set ws) else None)"
proof (induction v n S and vs n S and ms n S
    rule: collect_placeholder_indices_collect_elements_collect_members.induct)
  case (1 ms n S)
  then show ?case
    by (auto simp: Let_def fresh_indices_def not_le split: option.splits)
qed (auto simp: fresh_indices_append Let_def Un_assoc image_Un, auto simp: fresh_indices_def)

lemma word64_below:
  assumes "n \<le> 2 ^ 64"
  shows "{w :: 64 word. unat w < n} = word_of_nat ` {..<n}"
    and "inj_on (word_of_nat :: nat \<Rightarrow> 64 word) {..<n}"
proof -
  have unat: "unat (word_of_nat k :: 64 word) = k" if "k < n" for k
    using that assms by (simp add: unat_of_nat)
  show "{w :: 64 word. unat w < n} = word_of_nat ` {..<n}"
    using unat by (auto simp: image_iff) (metis lessThan_iff unsigned_word_eqI)
  show "inj_on (word_of_nat :: nat \<Rightarrow> 64 word) {..<n}"
    by (rule inj_on_inverseI [where g = unat]) (simp add: unat)
qed

lemma card_word64_below: "n \<le> 2 ^ 64 \<Longrightarrow> card {w :: 64 word. unat w < n} = n"
  by (simp add: word64_below card_image)

lemma below_count_iff:
  assumes "0 \<le> n" and "n \<le> int_max"
  shows "(w :: 64 word) < of_int n \<longleftrightarrow> unat w < nat n"
proof -
  have "unat (of_int n :: 64 word) = nat n"
    using assms by (simp add: int_max_def unsigned_of_int take_bit_int_eq_self)
  then show ?thesis by (simp add: word_less_nat_alt)
qed

lemma has_valid_placeholders_iff:
  assumes "0 \<le> n" and "n \<le> int_max"
  shows "has_valid_placeholders d n \<longleftrightarrow>
     (\<exists>ws. placeholder_indices d = map Some ws \<and> distinct ws \<and> set ws = {w. unat w < nat n})"
proof -
  let ?B = "{w :: 64 word. unat w < nat n}" and ?is = "placeholder_indices d"
  have B: "card ?B = nat n" using assms by (intro card_word64_below) (simp add: int_max_def)
  have fresh: "fresh_indices n {} ?is \<longleftrightarrow>
      (\<exists>ws. ?is = map Some ws \<and> distinct ws \<and> set ws \<subseteq> ?B)"
  proof
    assume f: "fresh_indices n {} ?is"
    then have "map (Some \<circ> the) ?is = ?is"
      by (intro map_idI) (metis comp_apply fresh_indices_def option.collapse)
    then have "?is = map Some (map the ?is)" by simp
    then obtain ws where ws: "?is = map Some ws" by blast
    with f have "distinct ws" and "set ws \<subseteq> ?B"
      by (auto simp: fresh_indices_def distinct_map below_count_iff [OF assms])
    with ws show "\<exists>ws. ?is = map Some ws \<and> distinct ws \<and> set ws \<subseteq> ?B" by blast
  next
    assume "\<exists>ws. ?is = map Some ws \<and> distinct ws \<and> set ws \<subseteq> ?B"
    then show "fresh_indices n {} ?is"
      by (auto simp: fresh_indices_def distinct_map below_count_iff [OF assms])
  qed
  have card: "card (the ` set (map Some ws)) = nat n \<longleftrightarrow> set ws = ?B"
    if "set ws \<subseteq> ?B" for ws
  proof -
    have "the ` set (map Some ws) = set ws" by (simp add: image_image)
    with B card_subset_eq [OF finite that] show ?thesis by metis
  qed
  show ?thesis
    unfolding has_valid_placeholders_def collect_eq Let_def
    using fresh card by fastforce
qed

section \<open>Decoding never leaves its contract\<close>

lemma placeholder_attachment_ok:
  assumes "read_placeholder_index v = Some w"
  shows "placeholder_attachment v attachments =
     (if unat w < length attachments then Some (attachments ! unat w) else None)"
  using assms
  by (auto simp: read_placeholder_index_def placeholder_attachment_def split: option.splits json.splits if_splits)

lemma reconstruct_defined:
  "\<forall>x \<in> set (placeholder_indices v). \<exists>w. x = Some w \<and> unat w < length attachments \<Longrightarrow>
     \<exists>v'. reconstruct_binary v attachments = Some v'"
  "\<forall>x \<in> set (concat (map placeholder_indices vs)). \<exists>w. x = Some w \<and> unat w < length attachments \<Longrightarrow>
     \<exists>vs'. reconstruct_elements vs attachments = Some vs'"
  "\<forall>x \<in> set (concat (map (\<lambda>m. placeholder_indices (snd m)) ms)).
       \<exists>w. x = Some w \<and> unat w < length attachments \<Longrightarrow>
     \<exists>ms'. reconstruct_members ms attachments = Some ms'"
proof (induction v attachments and vs attachments and ms attachments
    rule: reconstruct_binary_reconstruct_elements_reconstruct_members.induct)
  case (1 ms attachments)
  then show ?case
    by (cases "is_binary_placeholder (JObject ms)") (auto simp: placeholder_attachment_ok)
qed auto

lemma reconstruct_valid:
  assumes "has_valid_placeholders d n" and "0 \<le> n" and "n \<le> int_max"
    and "nat n \<le> length attachments"
  shows "\<exists>v. reconstruct_binary d attachments = Some v"
  using assms has_valid_placeholders_iff [of n d] by (intro reconstruct_defined) auto

lemma parse_nonnegative_int_bounds:
  "parse_nonnegative_int s b e = Some n \<Longrightarrow> 0 \<le> n \<and> n \<le> int_max"
  using dec_val_ge [of "substr s b (e - b)" 0]
  by (auto simp: parse_nonnegative_int_def parse_digits_eq int_max_def split: if_splits)

lemma decode_text_binary:
  assumes "decode_text lib payload = Some p" and "is_binary_type (pk_type p)"
  shows "0 < pk_attachments p \<and> pk_attachments p \<le> int_max"
  using assms
  by (auto simp: decode_text_def decode_attachment_count_def Let_def
      split: list.splits if_splits option.splits prod.splits dest!: parse_nonnegative_int_bounds)

lemma decode_text_attachments:
  assumes "decode_text lib payload = Some p" and "\<not> is_binary_type (pk_type p)"
  shows "pk_attachments p = 0"
  using assms
  by (auto simp: decode_text_def decode_attachment_count_def Let_def
      split: list.splits if_splits option.splits prod.splits)

lemma json_parser_new_inv [simp]: "json_parser_inv json_parser_new"
  by (simp add: json_parser_inv_def json_parser_new_def)

lemma accept_text_inv:
  assumes "pending_binary_packet st = None" and "pending_attachments st = []"
  shows "json_parser_inv (fst (accept_text st (decode_text lib payload)))"
  using assms decode_text_binary [of lib payload]
  by (auto simp: accept_text_def json_parser_inv_def split: option.splits)

lemma json_parser_decode_safe:
  assumes inv: "json_parser_inv st"
  shows "\<exists>st' out. json_parser_decode lib st payload is_binary = Some (st', out) \<and> json_parser_inv st'"
proof (cases "pending_binary_packet st")
  case None
  with inv have "json_parser_inv (fst (accept_text st (decode_text lib payload)))"
    by (intro accept_text_inv) (auto simp: json_parser_inv_def)
  with None inv show ?thesis
    by (auto simp: json_parser_decode_def split: prod.splits intro: prod.collapse [symmetric])
next
  case (Some p)
  let ?st = "st\<lparr>pending_binary_packet := None, pending_attachments := []\<rparr>"
  let ?as = "pending_attachments st @ [payload]"
  show ?thesis
  proof (cases is_binary)
    case False
    have "json_parser_inv (fst (accept_text ?st (decode_text lib payload)))"
      by (intro accept_text_inv) auto
    with Some False show ?thesis
      by (cases "accept_text ?st (decode_text lib payload)") (auto simp: json_parser_decode_def)
  next
    case True
    show ?thesis
    proof (cases "length ?as < nat (pk_attachments p)")
      case True
      with Some inv \<open>is_binary\<close> show ?thesis
        by (auto simp: json_parser_decode_def json_parser_inv_def)
    next
      case False
      with Some inv obtain v where "reconstruct_binary (pk_data p) ?as = Some v"
        using reconstruct_valid [of "pk_data p" "pk_attachments p" ?as]
        by (auto simp: json_parser_inv_def)
      with Some False \<open>is_binary\<close> show ?thesis
        by (auto simp: json_parser_decode_def json_parser_inv_def)
    qed
  qed
qed

section \<open>Taking a value apart and putting it together\<close>

lemma deconstruct_attachments:
  "snd (deconstruct_binary v attachments) = attachments @ binary_leaves v"
  "snd (deconstruct_elements vs attachments) = attachments @ concat (map binary_leaves vs)"
  "snd (deconstruct_members ms attachments) =
     attachments @ concat (map (\<lambda>m. binary_leaves (snd m)) ms)"
  by (induction v attachments and vs attachments and ms attachments
      rule: deconstruct_binary_deconstruct_elements_deconstruct_members.induct)
    (auto simp: Let_def split: prod.splits)

lemma deconstruct_bool_iff: "fst (deconstruct_binary v attachments) = JBool b \<longleftrightarrow> v = JBool b"
  by (cases v) (auto simp: placeholder_def Let_def split: prod.splits)

lemma map_of_deconstruct_members:
  "map_of (fst (deconstruct_members ms attachments)) k = Some (JBool b)
     \<longleftrightarrow> map_of ms k = Some (JBool b)"
proof (induction ms arbitrary: attachments)
  case Nil
  then show ?case by simp
next
  case (Cons m ms)
  then show ?case
    using deconstruct_bool_iff [of "snd m" attachments b]
    by (cases m) (auto simp: Let_def case_prod_beta)
qed

lemma is_binary_placeholder_iff:
  "is_binary_placeholder (JObject ms) \<longleftrightarrow> map_of ms ''_placeholder'' = Some (JBool True)"
  by (auto split: option.splits json.splits)

lemma is_binary_placeholder_deconstruct:
  "is_binary_placeholder (JObject (fst (deconstruct_members ms attachments)))
     \<longleftrightarrow> is_binary_placeholder (JObject ms)"
  by (simp only: is_binary_placeholder_iff map_of_deconstruct_members)

lemma num_norm_bool_iff: "num_norm v = JBool b \<longleftrightarrow> v = JBool b"
  by (cases v) auto

lemma is_binary_placeholder_num_norm [simp]:
  "is_binary_placeholder (JObject (map (\<lambda>m. (fst m, num_norm (snd m))) ms))
     \<longleftrightarrow> is_binary_placeholder (JObject ms)"
  by (auto simp: is_binary_placeholder_iff map_of_num_norm num_norm_bool_iff
      simp del: is_binary_placeholder.simps)

lemma placeholder_facts:
  "is_binary_placeholder (placeholder n)"
  "num_norm (placeholder n) = placeholder n"
  "read_placeholder_index (placeholder n) = Some (of_nat n)"
  "placeholder_indices (placeholder n) = [Some (of_nat n)]"
  by (simp_all add: placeholder_def read_placeholder_index_def)

lemma reconstruct_placeholder:
  assumes "n < length attachments" and "n < 2 ^ 64"
  shows "reconstruct_binary (placeholder n) attachments =
     Some (JBinary (map byte_of_char (attachments ! n)) None)"
proof -
  have "unat (of_nat n :: 64 word) = n" using assms by (simp add: unat_of_nat)
  with assms show ?thesis
    using placeholder_attachment_ok [OF placeholder_facts(3), of n attachments] placeholder_facts(1) [of n]
    by (simp add: placeholder_def)
qed

lemma reconstruct_deconstruct:
  "carries v \<Longrightarrow> length attachments + length (binary_leaves v) < 2 ^ 64 \<Longrightarrow>
     reconstruct_binary (num_norm (fst (deconstruct_binary v attachments)))
       (attachments @ binary_leaves v @ extra) = Some (num_norm v)"
  "list_all carries vs \<Longrightarrow>
     length attachments + length (concat (map binary_leaves vs)) < 2 ^ 64 \<Longrightarrow>
     reconstruct_elements (map num_norm (fst (deconstruct_elements vs attachments)))
       (attachments @ concat (map binary_leaves vs) @ extra) = Some (map num_norm vs)"
  "list_all (\<lambda>m. carries (snd m)) ms \<Longrightarrow>
     length attachments + length (concat (map (\<lambda>m. binary_leaves (snd m)) ms)) < 2 ^ 64 \<Longrightarrow>
     reconstruct_members (map (\<lambda>m. (fst m, num_norm (snd m))) (fst (deconstruct_members ms attachments)))
       (attachments @ concat (map (\<lambda>m. binary_leaves (snd m)) ms) @ extra)
       = Some (map (\<lambda>m. (fst m, num_norm (snd m))) ms)"
proof (induction v attachments and vs attachments and ms attachments arbitrary: extra and extra and extra
    rule: deconstruct_binary_deconstruct_elements_deconstruct_members.induct)
  case (1 bytes st attachments)
  then show ?case by (simp add: placeholder_facts reconstruct_placeholder)
next
  case (3 ms attachments)
  then show ?case
    by (simp add: Let_def case_prod_beta is_binary_placeholder_deconstruct
        del: is_binary_placeholder.simps)
qed (auto simp: Let_def case_prod_beta deconstruct_attachments)

lemma placeholder_indices_deconstruct:
  "carries v \<Longrightarrow>
     placeholder_indices (num_norm (fst (deconstruct_binary v attachments))) =
     map (\<lambda>i. Some (of_nat i)) [length attachments ..< length attachments + length (binary_leaves v)]"
  "list_all carries vs \<Longrightarrow>
     concat (map placeholder_indices (map num_norm (fst (deconstruct_elements vs attachments)))) =
     map (\<lambda>i. Some (of_nat i))
       [length attachments ..< length attachments + length (concat (map binary_leaves vs))]"
  "list_all (\<lambda>m. carries (snd m)) ms \<Longrightarrow>
     concat (map (\<lambda>m. placeholder_indices (num_norm (snd m))) (fst (deconstruct_members ms attachments))) =
     map (\<lambda>i. Some (of_nat i))
       [length attachments ..<
          length attachments + length (concat (map (\<lambda>m. binary_leaves (snd m)) ms))]"
proof (induction v attachments and vs attachments and ms attachments
    rule: deconstruct_binary_deconstruct_elements_deconstruct_members.induct)
  case (1 bytes st attachments)
  then show ?case by (simp add: placeholder_facts)
next
  case (3 ms attachments)
  then show ?case
    by (simp add: Let_def comp_def is_binary_placeholder_deconstruct del: is_binary_placeholder.simps)
qed (auto simp: Let_def deconstruct_attachments comp_def upt_plus)

lemma wire_data_valid:
  assumes "carries (pk_data p)" and "may_carry_attachments (pk_type p)"
    and "int (length (wire_attachments p)) \<le> int_max"
  shows "has_valid_placeholders (num_norm (wire_data p)) (int (length (wire_attachments p)))"
proof -
  let ?n = "length (binary_leaves (pk_data p))"
  have n: "?n \<le> 2 ^ 64" using assms by (simp add: wire_attachments_def int_max_def)
  let ?ws = "map of_nat [0 ..< ?n] :: 64 word list"
  have "placeholder_indices (num_norm (wire_data p)) = map Some ?ws"
    using placeholder_indices_deconstruct(1) [OF assms(1), of "[]"] assms(2)
    by (simp add: wire_data_def comp_def)
  moreover have "distinct ?ws"
    using word64_below(2) [OF n] by (simp add: distinct_map atLeast0LessThan)
  moreover have "set ?ws = {w. unat w < ?n}"
    using word64_below(1) [OF n] by (simp add: atLeast0LessThan)
  ultimately have "\<exists>ws. placeholder_indices (num_norm (wire_data p)) = map Some ws
      \<and> distinct ws \<and> set ws = {w. unat w < nat (int ?n)}"
    by (metis nat_int)
  with assms(2,3) show ?thesis
    by (simp add: wire_attachments_def has_valid_placeholders_iff)
qed

section \<open>The header\<close>

lemma decode_id_wire:
  assumes "ack_id \<le> int_max" and "\<And>c r. body = c # r \<Longrightarrow> \<not> isdigit c"
  shows "decode_id ((if 0 \<le> ack_id then to_string ack_id else []) @ body) =
     Some (if 0 \<le> ack_id then ack_id else -1, body)"
proof (cases "0 \<le> ack_id")
  case True
  have digits: "\<forall>c \<in> set (to_string ack_id). isdigit c" and "to_string ack_id \<noteq> []"
    using True by (simp_all add: to_string_nonneg to_string_nat_digits)
  with True assms show ?thesis
    by (simp add: decode_id_def no_leading_digit parse_to_string)
next
  case False
  with assms show ?thesis by (cases body) (auto simp: decode_id_def)
qed

lemma decode_nsp_wire:
  assumes "wire_nsp nsp" and "\<And>c r. rest = c # r \<Longrightarrow> c \<noteq> CHR ''/''"
  shows "decode_nsp ((if nsp \<noteq> [] \<and> nsp \<noteq> ''/'' then nsp @ '','' else []) @ rest) =
     (if nsp = [] then ''/'' else nsp, rest)"
proof (cases "nsp \<noteq> [] \<and> nsp \<noteq> ''/''")
  case True
  with assms have "hd nsp = CHR ''/''" and "\<forall>c \<in> set nsp. CHR '','' \<noteq> c"
    by (auto simp: wire_nsp_def)
  with True show ?thesis
    by (simp add: decode_nsp_def str_find_0 find_idx_hit substr_def)
next
  case False
  with assms show ?thesis by (cases rest) (auto simp: decode_nsp_def)
qed

lemma decode_attachment_count_wire:
  assumes "is_binary_type t \<Longrightarrow> 0 < n" and "n \<le> int_max" and "\<not> is_binary_type t \<Longrightarrow> n = 0"
  shows "decode_attachment_count t ((if is_binary_type t then to_string n @ ''-'' else []) @ rest) =
     Some (n, rest)"
proof (cases "is_binary_type t")
  case True
  have "\<forall>c \<in> set (to_string n). CHR ''-'' \<noteq> c"
    using True assms to_string_nat_digits by (fastforce simp: to_string_nonneg isdigit_def)
  then have "str_find CHR ''-'' (to_string n @ ''-'' @ rest) 0 = Some (length (to_string n))"
    by (simp add: str_find_0 find_idx_hit)
  with True assms show ?thesis
    by (simp add: decode_attachment_count_def parse_to_string)
next
  case False
  with assms show ?thesis by (simp add: decode_attachment_count_def)
qed

lemma to_string_digit: "0 \<le> i \<Longrightarrow> i \<le> 9 \<Longrightarrow> to_string i = [digit_char (nat i)]"
  by (simp add: to_string_nonneg to_string_nat.simps [of "nat i"])

lemma decode_text_header:
  assumes t: "is_named t"
    and n: "is_binary_type t \<Longrightarrow> 0 < n" "n \<le> int_max" "\<not> is_binary_type t \<Longrightarrow> n = 0"
    and nsp: "wire_nsp nsp" and ack_id: "ack_id \<le> int_max"
    and body: "body \<noteq> [] \<Longrightarrow> \<not> isdigit (hd body) \<and> hd body \<noteq> CHR ''/'' \<and> lib_parse lib body = Some d"
      "body = [] \<Longrightarrow> d = JNull"
  shows "decode_text lib (encode_header t n nsp ack_id @ body) =
     Some \<lparr>pk_type = t, pk_nsp = (if nsp = [] then ''/'' else nsp),
           pk_id = (if 0 \<le> ack_id then ack_id else -1), pk_data = d, pk_attachments = n\<rparr>"
proof -
  let ?c = "digit_char (nat (int_of_packet_type t))"
  let ?id = "if 0 \<le> ack_id then to_string ack_id else []"
  have c: "to_string (int_of_packet_type t) = [?c]" "isdigit ?c" "digit_val ?c = int_of_packet_type t"
    using is_namedD [OF t] by (simp_all add: to_string_digit)
  have nodigit: "\<And>c r. body = c # r \<Longrightarrow> \<not> isdigit c" using body by auto
  have noslash: "\<And>c r. ?id @ body = c # r \<Longrightarrow> c \<noteq> CHR ''/''"
  proof -
    fix c r assume eq: "?id @ body = c # r"
    show "c \<noteq> CHR ''/''"
    proof (cases "0 \<le> ack_id")
      case True
      with eq have "c \<in> set (to_string ack_id)"
        by (cases "to_string ack_id") (auto simp: to_string_nonneg)
      with True have "isdigit c" using to_string_nat_digits by (auto simp: to_string_nonneg)
      then show ?thesis by (auto simp: isdigit_def)
    next
      case False
      with eq body show ?thesis by auto
    qed
  qed
  have d: "decode_data lib body = Some d" using body by (auto simp: decode_data_def)
  show ?thesis
    unfolding encode_header_def decode_text_def append_assoc c(1)
    using is_namedD [OF t] c(2,3) d
    by (simp add: Let_def decode_attachment_count_wire [OF n] decode_nsp_wire [OF nsp noslash]
        decode_id_wire [OF ack_id nodigit] del: if_split)
qed

section \<open>The round trip\<close>

lemma json_parser_idle: "json_parser_inv st \<Longrightarrow> pending_binary_packet st = None \<Longrightarrow> st = json_parser_new"
  by (simp add: json_parser_inv_def json_parser_new_def)

lemma json_parser_decode_text:
  assumes "json_parser_inv st"
  shows "json_parser_decode lib st pl False = Some (accept_text json_parser_new (decode_text lib pl))"
proof (cases "pending_binary_packet st")
  case None
  with assms json_parser_idle show ?thesis
    by (auto simp: json_parser_decode_def json_parser_new_def)
next
  case (Some p)
  have "st\<lparr>pending_binary_packet := None, pending_attachments := []\<rparr> = json_parser_new"
    by (simp add: json_parser_new_def)
  with Some show ?thesis by (simp add: json_parser_decode_def)
qed

lemma json_parser_decode_attachment:
  "json_parser_decode lib \<lparr>pending_binary_packet = Some q, pending_attachments = xs\<rparr> y True =
     (if Suc (length xs) < nat (pk_attachments q)
      then Some (\<lparr>pending_binary_packet = Some q, pending_attachments = xs @ [y]\<rparr>, None)
      else map_option (\<lambda>d. (json_parser_new, Some (q\<lparr>pk_data := d\<rparr>)))
             (reconstruct_binary (pk_data q) (xs @ [y])))"
  by (simp add: json_parser_decode_def json_parser_new_def split: option.splits)

lemma json_parser_feed:
  assumes "ys \<noteq> []" and "length xs + length ys = nat (pk_attachments q)"
    and "reconstruct_binary (pk_data q) (xs @ ys) = Some d"
  shows "decode_all (json_parser_decode lib)
       \<lparr>pending_binary_packet = Some q, pending_attachments = xs\<rparr> (map (\<lambda>a. (a, True)) ys)
     = Some (json_parser_new, [q\<lparr>pk_data := d\<rparr>])"
  using assms
proof (induction ys arbitrary: xs)
  case Nil
  then show ?case by simp
next
  case (Cons y ys)
  show ?case
  proof (cases "ys = []")
    case True
    with Cons.prems show ?thesis by (simp add: json_parser_decode_attachment)
  next
    case False
    with Cons.prems have "Suc (length xs) < nat (pk_attachments q)" by (cases ys) auto
    with False Cons.IH [of "xs @ [y]"] Cons.prems show ?thesis
      by (simp add: json_parser_decode_attachment)
  qed
qed

lemma encoded_type_binary:
  "is_binary_type (encoded_type t attachments) \<longleftrightarrow> attachments \<noteq> [] \<and> may_carry_attachments t"
  by (auto simp: encoded_type_def is_binary_type_def may_carry_attachments_def)

lemma json_parser_encode_ok:
  assumes "json_wire_ok lib p"
  obtains body where
    "json_parser_encode lib p =
       Inr ((encode_header (encoded_type (pk_type p) (wire_attachments p))
               (int (length (wire_attachments p))) (pk_nsp p) (pk_id p) @ body, False)
            # map (\<lambda>a. (a, True)) (wire_attachments p))"
    and "body \<noteq> [] \<Longrightarrow> \<not> isdigit (hd body) \<and> hd body \<noteq> CHR ''/''
           \<and> lib_parse lib body = Some (num_norm (wire_data p))"
    and "body = [] \<Longrightarrow> num_norm (wire_data p) = JNull"
proof -
  let ?r = "if may_carry_attachments (pk_type p) then deconstruct_binary (pk_data p) [] else (pk_data p, [])"
  have r: "?r = (wire_data p, wire_attachments p)"
    using deconstruct_attachments(1) [of "pk_data p" "[]"]
    by (simp add: wire_data_def wire_attachments_def prod_eq_iff)
  show thesis
  proof (cases "wire_data p = JNull")
    case True
    with r assms show ?thesis
      by (intro that [of "[]"]) (simp_all add: json_parser_encode_def is_null_def json_wire_ok_def)
  next
    case False
    with assms obtain body where "lib_dump lib (wire_data p) = Some body" "body \<noteq> []"
      "\<not> isdigit (hd body)" "hd body \<noteq> CHR ''/''" "lib_parse lib body = Some (num_norm (wire_data p))"
      by (auto simp: json_wire_ok_def split: option.splits)
    with False r assms show ?thesis
      by (intro that [of body]) (simp_all add: json_parser_encode_def is_null_def json_wire_ok_def)
  qed
qed

lemma deconstruct_no_leaves:
  "binary_leaves v = [] \<Longrightarrow> fst (deconstruct_binary v attachments) = v"
  "concat (map binary_leaves vs) = [] \<Longrightarrow> fst (deconstruct_elements vs attachments) = vs"
  "concat (map (\<lambda>m. binary_leaves (snd m)) ms) = [] \<Longrightarrow> fst (deconstruct_members ms attachments) = ms"
  by (induction v attachments and vs attachments and ms attachments
      rule: deconstruct_binary_deconstruct_elements_deconstruct_members.induct)
    (auto simp: Let_def)

lemma wire_data_no_attachments: "wire_attachments p = [] \<Longrightarrow> wire_data p = pk_data p"
  by (auto simp: wire_attachments_def wire_data_def deconstruct_no_leaves split: if_splits)

lemma json_decode_header:
  assumes ok: "json_wire_ok lib p"
    and body: "body \<noteq> [] \<Longrightarrow> \<not> isdigit (hd body) \<and> hd body \<noteq> CHR ''/''
           \<and> lib_parse lib body = Some (num_norm (wire_data p))"
      "body = [] \<Longrightarrow> num_norm (wire_data p) = JNull"
  shows "decode_text lib
       (encode_header (encoded_type (pk_type p) (wire_attachments p))
          (int (length (wire_attachments p))) (pk_nsp p) (pk_id p) @ body)
     = Some ((json_canon p)\<lparr>pk_data := num_norm (wire_data p)\<rparr>)"
proof -
  let ?t = "encoded_type (pk_type p) (wire_attachments p)"
  have t: "is_named ?t" using ok by (auto simp: json_wire_ok_def encoded_type_def)
  have n: "is_binary_type ?t \<Longrightarrow> 0 < int (length (wire_attachments p))"
      "int (length (wire_attachments p)) \<le> int_max"
      "\<not> is_binary_type ?t \<Longrightarrow> int (length (wire_attachments p)) = 0"
    using ok by (auto simp: json_wire_ok_def encoded_type_binary wire_attachments_def)
  show ?thesis
    using decode_text_header [OF t n, of "pk_nsp p" "pk_id p" body lib "num_norm (wire_data p)"] body ok
    by (simp add: json_canon_def json_wire_ok_def)
qed

lemma json_parser_roundtrip:
  assumes ok: "json_wire_ok lib p" and enc: "json_parser_encode lib p = Inr fs"
    and inv: "json_parser_inv st"
  shows "decode_all (json_parser_decode lib) st fs = Some (json_parser_new, [json_canon p])"
proof -
  let ?q = "(json_canon p)\<lparr>pk_data := num_norm (wire_data p)\<rparr>"
  obtain line where fs: "fs = (line, False) # map (\<lambda>a. (a, True)) (wire_attachments p)"
    and dec: "decode_text lib line = Some ?q"
    using json_parser_encode_ok [OF ok] json_decode_header [OF ok] enc
    by (metis sum.inject(2))
  show ?thesis
  proof (cases "wire_attachments p = []")
    case True
    have "pk_data (json_canon p) = num_norm (wire_data p)"
      using True by (simp add: json_canon_def wire_data_no_attachments)
    with True have q: "?q = json_canon p" "\<not> is_binary_type (pk_type ?q)"
      by (simp_all add: json_canon_def encoded_type_binary)
    with True fs dec inv show ?thesis
      by (simp add: json_parser_decode_text accept_text_def)
  next
    case False
    then have carry: "may_carry_attachments (pk_type p)"
      by (auto simp: wire_attachments_def split: if_splits)
    with False have "is_binary_type (pk_type ?q)"
      by (simp add: json_canon_def encoded_type_binary)
    moreover have "has_valid_placeholders (pk_data ?q) (pk_attachments ?q)"
      using carry ok wire_data_valid by (simp add: json_canon_def json_wire_ok_def)
    ultimately have step: "json_parser_decode lib st line False =
        Some (\<lparr>pending_binary_packet = Some ?q, pending_attachments = []\<rparr>, None)"
      using dec inv by (simp add: json_parser_decode_text accept_text_def json_parser_new_def)
    have "reconstruct_binary (pk_data ?q) (wire_attachments p) = Some (num_norm (pk_data p))"
      using carry ok reconstruct_deconstruct(1) [of "pk_data p" "[]" "[]"]
      by (simp add: json_wire_ok_def wire_data_def wire_attachments_def int_max_def)
    with json_parser_feed [OF False, of "[]" ?q]
    have "decode_all (json_parser_decode lib)
        \<lparr>pending_binary_packet = Some ?q, pending_attachments = []\<rparr>
        (map (\<lambda>a. (a, True)) (wire_attachments p)) = Some (json_parser_new, [json_canon p])"
      by (simp add: json_canon_def)
    with step fs show ?thesis by simp
  qed
qed

interpretation json: parser_base "json_parser_encode lib" "json_parser_decode lib"
  json_parser_new json_parser_inv "json_wire_ok lib" json_canon for lib
proof
  show "json_parser_inv json_parser_new" by simp
next
  fix st pl b
  assume "json_parser_inv st"
  then show "\<exists>st' out. json_parser_decode lib st pl b = Some (st', out) \<and> json_parser_inv st'"
    by (rule json_parser_decode_safe)
next
  fix p
  assume "json_wire_ok lib p"
  then show "\<exists>fs. json_parser_encode lib p = Inr fs" by (metis json_parser_encode_ok)
next
  fix p fs st
  assume "json_wire_ok lib p" "json_parser_encode lib p = Inr fs" "json_parser_inv st"
  then show "decode_all (json_parser_decode lib) st fs = Some (json_parser_new, [json_canon p])"
    by (rule json_parser_roundtrip)
qed

section \<open>Properties\<close>

text \<open>
  C3. Any sequence of packets that the text protocol can carry, encoded one after the other, is
  decoded to exactly that sequence, binary values nested anywhere in the payload included: each
  packet arrives once, in order, with its type adjusted to whether it has attachments, and the
  parser is idle afterwards. This holds from every state the parser can be in, so an interrupted
  binary packet does not disturb the packets after it.
\<close>

theorem json_stream_roundtrip:
  assumes "\<forall>p \<in> set ps. json_wire_ok lib p" and "json_parser_inv st" and "ps \<noteq> []"
  shows "\<exists>fss. map (json_parser_encode lib) ps = map Inr fss
     \<and> decode_all (json_parser_decode lib) st (concat fss) = Some (json_parser_new, map json_canon ps)"
proof -
  let ?frames = "\<lambda>p. projr (json_parser_encode lib p)"
  have enc: "\<forall>p \<in> set ps. json_parser_encode lib p = Inr (?frames p)"
    using assms(1) json.encode_ok by (metis sum.sel(2))
  then have "map (json_parser_encode lib) ps = map Inr (map ?frames ps)" by simp
  moreover have "decode_all (json_parser_decode lib) st (concat (map ?frames ps)) =
      Some (json_parser_new, map json_canon ps)"
    using assms enc by (intro json.decode_stream) auto
  ultimately show ?thesis by blast
qed

definition witness_lib :: json_lib where
  "witness_lib =
     \<lparr>lib_dump = (\<lambda>v. if v = JArray [JString ''m'', placeholder 0]
                     then Some ''[\"m\",{\"_placeholder\":true,\"num\":0}]'' else None),
      lib_parse = (\<lambda>s. if s = ''[\"m\",{\"_placeholder\":true,\"num\":0}]''
                      then Some (JArray [JString ''m'', placeholder 0]) else None),
      lib_to_msgpack = (\<lambda>v. []), lib_from_msgpack = (\<lambda>s. None),
      lib_to_cbor = (\<lambda>v. []), lib_from_cbor = (\<lambda>s. None), lib_get_int = (\<lambda>v. None)\<rparr>"

definition witness_packet :: packet where
  "witness_packet =
     \<lparr>pk_type = Event, pk_nsp = ''/chat'', pk_id = 7,
      pk_data = JArray [JString ''m'', JBinary [1, 255] None], pk_attachments = 0\<rparr>"

theorem json_stream_roundtrip_witness:
  "\<exists>fss. map (json_parser_encode witness_lib) [witness_packet, witness_packet] = map Inr fss
     \<and> decode_all (json_parser_decode witness_lib) json_parser_new (concat fss) =
         Some (json_parser_new, map json_canon [witness_packet, witness_packet])"
proof (rule json_stream_roundtrip)
  show "\<forall>p \<in> set [witness_packet, witness_packet]. json_wire_ok witness_lib p"
    by (simp add: json_wire_ok_def witness_lib_def witness_packet_def wire_data_def wire_attachments_def
        may_carry_attachments_def wire_nsp_def int_max_def placeholder_def isdigit_def)
qed simp_all

text \<open>
  C8. Whatever frames a peer sends, text or binary, in any order, a fresh parser consumes all of
  them without leaving its contract: no attachment index out of range, no conversion of a
  placeholder that is not a number. Between frames it holds at most one incomplete binary packet,
  with fewer attachments than the packet announced.
\<close>

theorem json_decode_never_fails:
  "\<exists>st ps. decode_all (json_parser_decode lib) json_parser_new fs = Some (st, ps)
     \<and> (case pending_binary_packet st of
          None \<Rightarrow> pending_attachments st = []
        | Some p \<Rightarrow> is_binary_type (pk_type p)
            \<and> int (length (pending_attachments st)) < pk_attachments p \<and> pk_attachments p \<le> int_max)"
proof -
  from json.decode_all_safe [OF json.fresh_inv] obtain st ps
    where "decode_all (json_parser_decode lib) json_parser_new fs = Some (st, ps)"
      and "json_parser_inv st" by blast
  then show ?thesis by (auto simp: json_parser_inv_def split: option.splits)
qed

text \<open>
  C19. The placeholder check accepts a binary packet exactly when its placeholders name the
  announced attachments \<open>0, \<dots>, n - 1\<close>, each once: none is missing, none is used twice and none
  is out of range.
\<close>

theorem has_valid_placeholders_exact:
  assumes "0 \<le> n" and "n \<le> int_max"
  shows "has_valid_placeholders d n \<longleftrightarrow>
     (\<exists>ws. placeholder_indices d = map Some ws \<and> distinct ws \<and> set ws = {w. unat w < nat n})"
  by (rule has_valid_placeholders_iff [OF assms])

theorem has_valid_placeholders_exact_witness:
  "has_valid_placeholders (JArray [placeholder 1, placeholder 0]) 2
   \<and> (\<exists>ws. placeholder_indices (JArray [placeholder 1, placeholder 0]) = map Some ws
         \<and> distinct ws \<and> set ws = {w. unat w < nat 2})"
proof -
  have "has_valid_placeholders (JArray [placeholder 1, placeholder 0]) 2"
    by (simp add: has_valid_placeholders_def placeholder_def read_placeholder_index_def word_le_nat_alt)
  then show ?thesis
    using has_valid_placeholders_exact [of 2 "JArray [placeholder 1, placeholder 0]"]
    by (simp add: int_max_def)
qed

text \<open>
  The integer reader used for attachment counts and acknowledgement ids is exact: it accepts a
  non-empty run of digits if and only if its decimal value fits into \<^verbatim>\<open>int\<close>, and then returns that
  value; its overflow guard neither lets a value wrap around nor rejects one that fits.
\<close>

theorem parse_nonnegative_int_exact:
  "parse_nonnegative_int s b e =
     (if b \<noteq> e \<and> (\<forall>c \<in> set (substr s b (e - b)). isdigit c) \<and> dec_val 0 (substr s b (e - b)) \<le> int_max
      then Some (dec_val 0 (substr s b (e - b))) else None)"
  by (simp add: parse_nonnegative_int_def parse_digits_eq int_max_def)

theorem parse_nonnegative_int_exact_witness:
  "parse_nonnegative_int ''2147483647-'' 0 10 = Some int_max
   \<and> parse_nonnegative_int ''2147483648-'' 0 10 = None"
  by (simp add: parse_nonnegative_int_exact substr_def isdigit_def int_max_def digit_val_def)

end
