(* ===== verification/Object_Parsers.thy ===== *)
theory Object_Parsers
  imports Sioxx_Message
begin

text \<open>
  The parsers that carry a packet as one self-describing object in one binary frame: the
  MessagePack parser (\<^verbatim>\<open>src/msgpack_parser.cpp\<close>) and the CBOR parser of the example client
  (\<^verbatim>\<open>examples/basic_client/cbor_parser.hpp\<close>). Neither keeps state between frames. Both satisfy the
  parser interface; an exception while decoding rejects the frame.
\<close>

section \<open>Definitions\<close>

definition packet_object :: "packet \<Rightarrow> json" where
  "packet_object p =
     (let obj = obj_set (JObject []) ''type'' (JInt (of_int (int_of_packet_type (pk_type p))));
          obj = obj_set obj ''nsp'' (JString (pk_nsp p));
          obj = (if 0 \<le> pk_id p then obj_set obj ''id'' (JInt (of_int (pk_id p))) else obj)
      in if is_null (pk_data p) then obj else obj_set obj ''data'' (pk_data p))"

definition packet_of_object :: "json_lib \<Rightarrow> json \<Rightarrow> cpp_exn + packet" where
  "packet_of_object lib obj =
     (case value_int lib obj ''type'' 0 of
        Inl e \<Rightarrow> Inl e
      | Inr t \<Rightarrow>
          (case value_string obj ''nsp'' ''/'' of
             Inl e \<Rightarrow> Inl e
           | Inr nsp \<Rightarrow>
               (case (case obj_find obj ''id'' of
                        None \<Rightarrow> Inr (- 1)
                      | Some v \<Rightarrow>
                          (if is_null v then Inr (- 1)
                           else (case lib_get_int lib v of None \<Rightarrow> Inl Type_error | Some i \<Rightarrow> Inr i))) of
                  Inl e \<Rightarrow> Inl e
                | Inr i \<Rightarrow>
                    Inr \<lparr>pk_type = packet_type_of_int t, pk_nsp = nsp, pk_id = i,
                         pk_data = (case obj_find obj ''data'' of None \<Rightarrow> JNull | Some d \<Rightarrow> d),
                         pk_attachments = 0\<rparr>)))"

definition msgpack_parser_encode :: "json_lib \<Rightarrow> packet \<Rightarrow> cpp_exn + frame list" where
  "msgpack_parser_encode lib p = Inr [(lib_to_msgpack lib (packet_object p), True)]"

definition msgpack_parser_decode :: "json_lib \<Rightarrow> unit decoder" where
  "msgpack_parser_decode lib st payload is_binary =
     (if \<not> is_binary then Some (st, None)
      else
        (case lib_from_msgpack lib payload of
           None \<Rightarrow> Some (st, None)
         | Some obj \<Rightarrow>
             (case packet_of_object lib obj of
                Inl e \<Rightarrow> Some (st, None)
              | Inr p \<Rightarrow> Some (st, Some p))))"

definition cbor_parser_encode :: "json_lib \<Rightarrow> packet \<Rightarrow> cpp_exn + frame list" where
  "cbor_parser_encode lib p = Inr [(lib_to_cbor lib (packet_object p), True)]"

definition cbor_parser_decode :: "json_lib \<Rightarrow> unit decoder" where
  "cbor_parser_decode lib st payload is_binary =
     (if \<not> is_binary then Some (st, None)
      else
        (case lib_from_cbor lib payload of
           None \<Rightarrow> Some (st, None)
         | Some obj \<Rightarrow>
             (if \<not> is_object obj then Some (st, None)
              else
                (case packet_of_object lib obj of
                   Inl e \<Rightarrow> Some (st, None)
                 | Inr p \<Rightarrow> Some (st, Some p)))))"

text \<open>
  The packets an object parser can carry: the library's integer conversion reads back the type
  and the acknowledgement id, and the serialiser reads back its own output up to the sign of
  integers.
\<close>

definition ints_ok :: "json_lib \<Rightarrow> packet \<Rightarrow> bool" where
  "ints_ok lib p \<longleftrightarrow>
     lib_get_int lib (num_norm (JInt (of_int (int_of_packet_type (pk_type p))))) =
       Some (int_of_packet_type (pk_type p))
     \<and> (0 \<le> pk_id p \<longrightarrow> lib_get_int lib (num_norm (JInt (of_int (pk_id p)))) = Some (pk_id p))"

definition msgpack_wire_ok :: "json_lib \<Rightarrow> packet \<Rightarrow> bool" where
  "msgpack_wire_ok lib p \<longleftrightarrow>
     ints_ok lib p
     \<and> lib_from_msgpack lib (lib_to_msgpack lib (packet_object p)) = Some (num_norm (packet_object p))"

definition cbor_wire_ok :: "json_lib \<Rightarrow> packet \<Rightarrow> bool" where
  "cbor_wire_ok lib p \<longleftrightarrow>
     ints_ok lib p
     \<and> lib_from_cbor lib (lib_to_cbor lib (packet_object p)) = Some (num_norm (packet_object p))"

definition object_canon :: "packet \<Rightarrow> packet" where
  "object_canon p =
     \<lparr>pk_type = packet_type_of_int (int_of_packet_type (pk_type p)), pk_nsp = pk_nsp p,
      pk_id = (if 0 \<le> pk_id p then pk_id p else -1), pk_data = num_norm (pk_data p),
      pk_attachments = 0\<rparr>"

definition msgpack_witness_lib :: json_lib where
  "msgpack_witness_lib =
     \<lparr>lib_dump = (\<lambda>v. None), lib_parse = (\<lambda>s. None),
      lib_to_msgpack = (\<lambda>v. if obj_find v ''id'' = None then ''a'' else ''b''),
      lib_from_msgpack =
        (\<lambda>s. if s = ''a'' then Some (JObject [(''nsp'', JString ''/chat''), (''type'', JUnsigned 0)])
             else Some (JObject [(''data'', JArray [JString ''m'', JBinary [1] None]),
                                 (''id'', JUnsigned 3), (''nsp'', JString ''/''),
                                 (''type'', JUnsigned 2)])),
      lib_to_cbor = (\<lambda>v. []), lib_from_cbor = (\<lambda>s. None),
      lib_get_int = (\<lambda>v. case v of JUnsigned w \<Rightarrow> Some (sint w) | JInt w \<Rightarrow> Some (sint w) | _ \<Rightarrow> None)\<rparr>"

section \<open>Lemmas\<close>

lemma is_object_packet_object [simp]: "is_object (packet_object p)"
  by (simp add: packet_object_def Let_def)

lemma packet_object_fields:
  "obj_find (packet_object p) ''type'' = Some (JInt (of_int (int_of_packet_type (pk_type p))))"
  "obj_find (packet_object p) ''nsp'' = Some (JString (pk_nsp p))"
  "obj_find (packet_object p) ''id'' = (if 0 \<le> pk_id p then Some (JInt (of_int (pk_id p))) else None)"
  "obj_find (packet_object p) ''data'' = (if pk_data p = JNull then None else Some (pk_data p))"
  by (simp_all add: packet_object_def Let_def is_null_def)

lemma packet_of_packet_object:
  assumes "ints_ok lib p"
  shows "packet_of_object lib (num_norm (packet_object p)) = Inr (object_canon p)"
  using assms
  by (auto simp: packet_of_object_def value_int_def value_string_def packet_object_fields ints_ok_def
      object_canon_def is_null_def simp del: num_norm.simps(1))

interpretation msgpack: parser_base "msgpack_parser_encode lib" "msgpack_parser_decode lib"
  "()" "\<lambda>_. True" "msgpack_wire_ok lib" object_canon for lib
  by unfold_locales
    (auto simp: msgpack_parser_encode_def msgpack_parser_decode_def msgpack_wire_ok_def
      packet_of_packet_object split: option.splits sum.splits)

interpretation cbor: parser_base "cbor_parser_encode lib" "cbor_parser_decode lib"
  "()" "\<lambda>_. True" "cbor_wire_ok lib" object_canon for lib
  by unfold_locales
    (auto simp: cbor_parser_encode_def cbor_parser_decode_def cbor_wire_ok_def
      packet_of_packet_object split: option.splits sum.splits)

text \<open>
  The object test the CBOR parser makes first rejects exactly what the MessagePack parser's
  exception handler rejects.
\<close>

lemma object_parsers_agree:
  assumes "lib_from_cbor lib payload = lib_from_msgpack lib payload"
  shows "cbor_parser_decode lib st payload b = msgpack_parser_decode lib st payload b"
proof -
  have "\<not> is_object obj \<Longrightarrow> packet_of_object lib obj = Inl Type_error" for obj
    by (simp add: packet_of_object_def value_int_def)
  with assms show ?thesis
    by (auto simp: cbor_parser_decode_def msgpack_parser_decode_def split: option.splits)
qed

section \<open>Properties\<close>

text \<open>
  A sequence of packets encoded with the MessagePack parser is decoded to exactly that
  sequence: type, namespace, acknowledgement id and payload (binary values included) of every
  packet, in order, provided the MessagePack library reads back what it wrote.
\<close>

theorem msgpack_stream_roundtrip:
  assumes "\<forall>p \<in> set ps. msgpack_wire_ok lib p" and "ps \<noteq> []"
  shows "\<exists>fss. map (msgpack_parser_encode lib) ps = map Inr fss
     \<and> decode_all (msgpack_parser_decode lib) () (concat fss) = Some ((), map object_canon ps)"
proof -
  let ?frames = "\<lambda>p. [(lib_to_msgpack lib (packet_object p), True)]"
  have "decode_all (msgpack_parser_decode lib) () (concat (map ?frames ps)) = Some ((), map object_canon ps)"
    using assms by (intro msgpack.decode_stream) (auto simp: msgpack_parser_encode_def)
  moreover have "map (msgpack_parser_encode lib) ps = map Inr (map ?frames ps)"
    by (simp add: msgpack_parser_encode_def)
  ultimately show ?thesis by blast
qed

theorem msgpack_stream_roundtrip_witness:
  "\<exists>fss. map (msgpack_parser_encode msgpack_witness_lib)
       [default_packet\<lparr>pk_type := Connect, pk_nsp := ''/chat''\<rparr>,
        default_packet\<lparr>pk_id := 3, pk_data := JArray [JString ''m'', JBinary [1] None]\<rparr>] = map Inr fss
     \<and> decode_all (msgpack_parser_decode msgpack_witness_lib) () (concat fss) =
       Some ((), map object_canon
         [default_packet\<lparr>pk_type := Connect, pk_nsp := ''/chat''\<rparr>,
          default_packet\<lparr>pk_id := 3, pk_data := JArray [JString ''m'', JBinary [1] None]\<rparr>])"
  by (rule msgpack_stream_roundtrip)
    (simp_all add: msgpack_wire_ok_def ints_ok_def msgpack_witness_lib_def packet_object_def
      default_packet_def is_null_def Let_def)

end
