(* ===== verification/Ack_Scheduler.thy ===== *)
theory Ack_Scheduler
  imports Sioxx_Prelude
begin

text \<open>
  The deadline worker of a socket (\<^verbatim>\<open>src/ack_scheduler.hpp\<close>): a map from acknowledgement ids to
  deadlines, the same entries as an ordered set, and one worker thread that sleeps until the
  earliest deadline. Each operation is the section it executes with the mutex held. The worker's
  place in its loop is part of the state: running with the mutex, waiting on the condition
  variable (forever or until a time), calling \<^verbatim>\<open>expire\<close> without the mutex, or exited.

  A \<^verbatim>\<open>time_point\<close> is an integer number of clock ticks. Memory exhaustion, which the code guards
  against in \<^verbatim>\<open>add\<close>, is an argument of the operation: one flag per allocation.
\<close>

section \<open>Definitions\<close>

type_synonym time = int

datatype deadline = Deadline (due: time) (ack: int)

instantiation deadline :: linorder
begin

fun less_eq_deadline :: "deadline \<Rightarrow> deadline \<Rightarrow> bool" where
  "less_eq_deadline (Deadline t i) (Deadline u j) \<longleftrightarrow> t < u \<or> (t = u \<and> i \<le> j)"

fun less_deadline :: "deadline \<Rightarrow> deadline \<Rightarrow> bool" where
  "less_deadline (Deadline t i) (Deadline u j) \<longleftrightarrow> t < u \<or> (t = u \<and> i < j)"

instance
proof
  fix x y z :: deadline
  show "(x < y) = (x \<le> y \<and> \<not> y \<le> x)" by (cases x; cases y) auto
  show "x \<le> x" by (cases x) auto
  show "x \<le> y \<Longrightarrow> y \<le> z \<Longrightarrow> x \<le> z" by (cases x; cases y; cases z) auto
  show "x \<le> y \<Longrightarrow> y \<le> x \<Longrightarrow> x = y" by (cases x; cases y) auto
  show "x \<le> y \<or> y \<le> x" by (cases x; cases y) auto
qed

end

datatype worker_state =
    Running
  | Waiting "time option"
  | Expiring int
  | Exited

record ack_scheduler =
  deadlines :: "(int \<times> time) list"
  ordered :: "deadline list"
  stopped :: bool
  worker :: worker_state

definition ack_scheduler_new :: ack_scheduler where
  "ack_scheduler_new = \<lparr>deadlines = [], ordered = [], stopped = False, worker = Running\<rparr>"

definition notify_one :: "ack_scheduler \<Rightarrow> ack_scheduler" where
  "notify_one s = (case worker s of Waiting _ \<Rightarrow> s\<lparr>worker := Running\<rparr> | _ \<Rightarrow> s)"

definition scheduler_add ::
  "bool \<Rightarrow> bool \<Rightarrow> int \<Rightarrow> time \<Rightarrow> ack_scheduler \<Rightarrow> cpp_exn option \<times> ack_scheduler" where
  "scheduler_add mem1 mem2 i deadline s =
     (if \<not> mem1 then (Some Bad_alloc, s)
      else
        let s1 = s\<lparr>deadlines := emplace i deadline (deadlines s)\<rparr>
        in if \<not> mem2 then (Some Bad_alloc, s1\<lparr>deadlines := AList.delete i (deadlines s1)\<rparr>)
           else (None, notify_one (s1\<lparr>ordered := insort_insert (Deadline deadline i) (ordered s1)\<rparr>)))"

definition scheduler_expired :: "int \<Rightarrow> time \<Rightarrow> ack_scheduler \<Rightarrow> bool" where
  "scheduler_expired i now s =
     (case map_of (deadlines s) i of None \<Rightarrow> True | Some t \<Rightarrow> t \<le> now)"

definition scheduler_remove :: "int \<Rightarrow> time \<Rightarrow> ack_scheduler \<Rightarrow> bool \<times> ack_scheduler" where
  "scheduler_remove i now s =
     (case map_of (deadlines s) i of
        None \<Rightarrow> (True, s)
      | Some t \<Rightarrow>
          (t \<le> now,
           notify_one (s\<lparr>ordered := remove1 (Deadline t i) (ordered s),
                         deadlines := AList.delete i (deadlines s)\<rparr>)))"

definition scheduler_clear :: "ack_scheduler \<Rightarrow> ack_scheduler" where
  "scheduler_clear s = notify_one (s\<lparr>deadlines := [], ordered := []\<rparr>)"

definition scheduler_stop :: "ack_scheduler \<Rightarrow> ack_scheduler" where
  "scheduler_stop s = s\<lparr>stopped := True\<rparr>"

text \<open>
  One turn of the worker's loop, from the test of \<^verbatim>\<open>stopped\<close> to the point where the mutex is given
  up: by waiting, by calling \<^verbatim>\<open>expire\<close>, or by leaving the loop. Reading \<^verbatim>\<open>*ordered.begin()\<close> of an
  empty set is undefined behaviour.
\<close>

definition worker_turn :: "time \<Rightarrow> ack_scheduler \<Rightarrow> cpp_exn + ack_scheduler" where
  "worker_turn now s =
     (if stopped s then Inr (s\<lparr>worker := Exited\<rparr>)
      else if deadlines s = [] then Inr (s\<lparr>worker := Waiting None\<rparr>)
      else
        (case ordered s of
           [] \<Rightarrow> Inl Undefined_behaviour
         | d # rest \<Rightarrow>
             (if now < due d then Inr (s\<lparr>worker := Waiting (Some (due d))\<rparr>)
              else Inr (s\<lparr>ordered := rest, deadlines := AList.delete (ack d) (deadlines s),
                          worker := Expiring (ack d)\<rparr>))))"

definition worker_wake :: "ack_scheduler \<Rightarrow> ack_scheduler" where
  "worker_wake s = s\<lparr>worker := Running\<rparr>"

text \<open>
  The loop as it runs undisturbed at one instant: the ids passed to \<^verbatim>\<open>expire\<close>, in order, until the
  worker waits or exits. The fuel bounds the number of turns.
\<close>

fun worker_loop :: "nat \<Rightarrow> time \<Rightarrow> ack_scheduler \<Rightarrow> (cpp_exn + int list \<times> ack_scheduler) option" where
  "worker_loop 0 now s = None"
| "worker_loop (Suc n) now s =
     (case worker_turn now s of
        Inl e \<Rightarrow> Some (Inl e)
      | Inr s' \<Rightarrow>
          (case worker s' of
             Expiring i \<Rightarrow>
               map_option (\<lambda>r. case r of Inl e \<Rightarrow> Inl e | Inr (ids, s'') \<Rightarrow> Inr (i # ids, s''))
                 (worker_loop n now (worker_wake s'))
           | _ \<Rightarrow> Some (Inr ([], s'))))"

text \<open>
  The part of a turn that claims an id for \<^verbatim>\<open>expire\<close>, with the worker back at the head of its loop.
\<close>

definition worker_claim :: "time \<Rightarrow> ack_scheduler \<Rightarrow> (int \<times> ack_scheduler) option" where
  "worker_claim now s =
     (case worker_turn now s of
        Inl e \<Rightarrow> None
      | Inr s' \<Rightarrow> (case worker s' of Expiring i \<Rightarrow> Some (i, worker_wake s') | _ \<Rightarrow> None))"

text \<open>
  The scheduler in its environment. The clock never goes back; any thread may call an operation
  at any time (ids handed to \<^verbatim>\<open>add\<close> are not in use, which \<^verbatim>\<open>socket\<close> guarantees); the condition
  variable may wake the worker spuriously; the destructor sets the flag and notifies in two steps.
\<close>

datatype dtor_phase = Alive | Stopping | Notified

record scheduler_system =
  now :: time
  sched :: ack_scheduler
  dtor :: dtor_phase

datatype scheduler_event =
    Tick time
  | Add bool bool int time
  | Remove int
  | Clear
  | Stop
  | Notify
  | Wake
  | Turn
  | Return

inductive scheduler_init :: "scheduler_system \<Rightarrow> bool" where
  "scheduler_init \<lparr>now = t, sched = ack_scheduler_new, dtor = Alive\<rparr>"

inductive scheduler_step :: "scheduler_system \<Rightarrow> scheduler_event \<Rightarrow> scheduler_system \<Rightarrow> bool" where
  tick: "0 \<le> d \<Longrightarrow> scheduler_step s (Tick d) (s\<lparr>now := now s + d\<rparr>)"
| add: "dtor s = Alive \<Longrightarrow> map_of (deadlines (sched s)) i = None \<Longrightarrow>
     scheduler_step s (Add m1 m2 i t) (s\<lparr>sched := snd (scheduler_add m1 m2 i t (sched s))\<rparr>)"
| remove: "dtor s = Alive \<Longrightarrow>
     scheduler_step s (Remove i) (s\<lparr>sched := snd (scheduler_remove i (now s) (sched s))\<rparr>)"
| clear: "dtor s = Alive \<Longrightarrow> scheduler_step s Clear (s\<lparr>sched := scheduler_clear (sched s)\<rparr>)"
| stop: "dtor s = Alive \<Longrightarrow>
     scheduler_step s Stop (s\<lparr>sched := scheduler_stop (sched s), dtor := Stopping\<rparr>)"
| notify: "dtor s = Stopping \<Longrightarrow>
     scheduler_step s Notify (s\<lparr>sched := notify_one (sched s), dtor := Notified\<rparr>)"
| wake: "worker (sched s) = Waiting w \<Longrightarrow>
     scheduler_step s Wake (s\<lparr>sched := worker_wake (sched s)\<rparr>)"
| turn: "worker (sched s) = Running \<Longrightarrow> worker_turn (now s) (sched s) = Inr s' \<Longrightarrow>
     scheduler_step s Turn (s\<lparr>sched := s'\<rparr>)"
| return: "worker (sched s) = Expiring i \<Longrightarrow>
     scheduler_step s Return (s\<lparr>sched := worker_wake (sched s)\<rparr>)"

text \<open>
  The data invariant: keys are unique and the ordered set holds exactly the entries of the map.
\<close>

definition scheduler_wf :: "ack_scheduler \<Rightarrow> bool" where
  "scheduler_wf s \<longleftrightarrow> distinct (map fst (deadlines s)) \<and> sorted (ordered s) \<and> distinct (ordered s) \<and>
     set (ordered s) = (\<lambda>(i, t). Deadline t i) ` set (deadlines s)"

text \<open>
  No wake-up is lost: a worker that waits without limit has nothing to wait for, and a worker that
  waits for a time waits for the earliest deadline.
\<close>

definition sleeps_right :: "ack_scheduler \<Rightarrow> bool" where
  "sleeps_right s =
     (case worker s of
        Waiting None \<Rightarrow> deadlines s = []
      | Waiting (Some t) \<Rightarrow> ordered s \<noteq> [] \<and> due (hd (ordered s)) = t
      | _ \<Rightarrow> True)"

definition scheduler_inv :: "scheduler_system \<Rightarrow> bool" where
  "scheduler_inv s \<longleftrightarrow> scheduler_wf (sched s) \<and> sleeps_right (sched s) \<and>
     (stopped (sched s) \<longleftrightarrow> dtor s \<noteq> Alive) \<and>
     (dtor s = Notified \<longrightarrow> (\<forall>w. worker (sched s) \<noteq> Waiting w))"

section \<open>The data invariant\<close>

lemma notify_one_simps [simp]:
  "deadlines (notify_one s) = deadlines s" "ordered (notify_one s) = ordered s"
  "stopped (notify_one s) = stopped s" "worker (notify_one s) \<noteq> Waiting w"
  "scheduler_wf (notify_one s) = scheduler_wf s"
  by (simp_all add: notify_one_def scheduler_wf_def split: worker_state.split)

lemma worker_wake_simps [simp]:
  "deadlines (worker_wake s) = deadlines s" "ordered (worker_wake s) = ordered s"
  "stopped (worker_wake s) = stopped s" "worker (worker_wake s) = Running"
  "scheduler_wf (worker_wake s) = scheduler_wf s"
  by (simp_all add: worker_wake_def scheduler_wf_def)

lemma wf_worker [simp]: "scheduler_wf (s\<lparr>worker := w\<rparr>) = scheduler_wf s"
  by (simp add: scheduler_wf_def)

lemma sleeps_right_awake: "(\<And>w. worker s \<noteq> Waiting w) \<Longrightarrow> sleeps_right s"
  by (auto simp: sleeps_right_def split: worker_state.split)

lemma ordered_iff:
  "scheduler_wf s \<Longrightarrow> Deadline t i \<in> set (ordered s) \<longleftrightarrow> map_of (deadlines s) i = Some t"
  by (auto simp: scheduler_wf_def map_of_in_set)

lemma wf_empty: "scheduler_wf s \<Longrightarrow> ordered s = [] \<longleftrightarrow> deadlines s = []"
  by (auto simp: scheduler_wf_def)

lemma wf_new [wf_intros]: "scheduler_wf ack_scheduler_new"
  by (simp add: scheduler_wf_def ack_scheduler_new_def)

lemma wf_add [wf_intros]:
  assumes "scheduler_wf s" and "map_of (deadlines s) i = None"
  shows "scheduler_wf (snd (scheduler_add m1 m2 i t s))"
proof -
  have "i \<notin> fst ` set (deadlines s)" using assms(2) by (simp add: map_of_eq_None_iff)
  then show ?thesis
    using assms
    by (auto simp: scheduler_add_def scheduler_wf_def emplace_fresh delete_fresh Let_def
        set_insort_insert sorted_insort_insert distinct_insort_insert)
qed

lemma wf_delete:
  assumes "scheduler_wf s" and "map_of (deadlines s) i = Some t" and "\<sigma> = remove1 (Deadline t i) (ordered s)"
  shows "scheduler_wf (s\<lparr>ordered := \<sigma>, deadlines := AList.delete i (deadlines s)\<rparr>)"
proof -
  have "(i, u) \<in> set (deadlines s) \<longleftrightarrow> t = u" for u
    using assms(1) by (simp add: scheduler_wf_def map_of_in_set [symmetric] assms(2))
  then have "{kv \<in> set (deadlines s). fst kv \<noteq> i} = set (deadlines s) - {(i, t)}" by auto
  moreover have "inj (\<lambda>(i, t). Deadline t i)" by (auto simp: inj_def)
  ultimately have "(\<lambda>(i, t). Deadline t i) ` {kv \<in> set (deadlines s). fst kv \<noteq> i} =
      (\<lambda>(i, t). Deadline t i) ` set (deadlines s) - {Deadline t i}"
    by (simp add: image_set_diff)
  then show ?thesis
    using assms by (simp add: scheduler_wf_def set_delete alist_simps sorted_remove1)
qed

lemma wf_remove [wf_intros]: "scheduler_wf s \<Longrightarrow> scheduler_wf (snd (scheduler_remove i t s))"
  by (auto simp: scheduler_remove_def intro!: wf_delete split: option.split)

lemma wf_clear [wf_intros]: "scheduler_wf (scheduler_clear s)"
  by (simp add: scheduler_clear_def) (simp add: scheduler_wf_def)

lemma wf_stop [wf_intros]: "scheduler_wf s \<Longrightarrow> scheduler_wf (scheduler_stop s)"
  by (simp add: scheduler_stop_def scheduler_wf_def)

section \<open>The worker\<close>

lemma earliest:
  assumes "scheduler_wf s" and "ordered s = d # rest"
  shows "map_of (deadlines s) (ack d) = Some (due d)"
    and "map_of (deadlines s) j = Some u \<Longrightarrow> due d \<le> u"
proof -
  show "map_of (deadlines s) (ack d) = Some (due d)"
    using ordered_iff [OF assms(1), of "due d" "ack d"] assms(2) by simp
  assume "map_of (deadlines s) j = Some u"
  then have "Deadline u j \<in> set (d # rest)" using ordered_iff [OF assms(1)] assms(2) by simp
  then have "d \<le> Deadline u j" using assms by (auto simp: scheduler_wf_def)
  then show "due d \<le> u" by (cases d) auto
qed

lemma worker_turn_cases:
  assumes "scheduler_wf s"
  obtains (stopped) "stopped s" "worker_turn t s = Inr (s\<lparr>worker := Exited\<rparr>)"
  | (idle) "\<not> stopped s" "deadlines s = []" "worker_turn t s = Inr (s\<lparr>worker := Waiting None\<rparr>)"
  | (early) d rest where "\<not> stopped s" "ordered s = d # rest" "t < due d"
      "worker_turn t s = Inr (s\<lparr>worker := Waiting (Some (due d))\<rparr>)"
  | (claim) d rest where "\<not> stopped s" "ordered s = d # rest" "due d \<le> t"
      "worker_turn t s = Inr (s\<lparr>ordered := rest, deadlines := AList.delete (ack d) (deadlines s),
         worker := Expiring (ack d)\<rparr>)"
proof (cases "ordered s")
  case Nil
  then have "deadlines s = []" using wf_empty [OF assms] by simp
  then show ?thesis using that(1,2) by (cases "stopped s") (auto simp: worker_turn_def)
next
  case (Cons d rest)
  then have "deadlines s \<noteq> []" using wf_empty [OF assms] by auto
  with Cons show ?thesis
    using that(1,3,4) by (cases "stopped s"; cases "t < due d") (auto simp: worker_turn_def)
qed

lemma wf_claim:
  assumes "scheduler_wf s" and "ordered s = d # rest"
  shows "scheduler_wf (s\<lparr>ordered := rest, deadlines := AList.delete (ack d) (deadlines s)\<rparr>)"
  using wf_delete [OF assms(1) earliest(1) [OF assms], of rest] assms(2) by simp

lemma worker_turn_wf:
  assumes "scheduler_wf s" and "worker_turn t s = Inr s'"
  shows "scheduler_wf s' \<and> sleeps_right s' \<and> stopped s' = stopped s \<and> (stopped s \<longrightarrow> worker s' = Exited)"
  using assms(1)
proof (cases rule: worker_turn_cases [where t = t])
  case (early d rest)
  with assms show ?thesis by (auto simp: sleeps_right_def)
next
  case (claim d rest)
  have "scheduler_wf (s\<lparr>ordered := rest, deadlines := AList.delete (ack d) (deadlines s)\<rparr>)"
    by (rule wf_claim [OF assms(1) claim(2)])
  then have "scheduler_wf s'" using claim(4) assms(2) by (simp add: scheduler_wf_def)
  with claim assms(2) show ?thesis by (auto simp: sleeps_right_def)
qed (use assms in \<open>auto simp: sleeps_right_def\<close>)

lemma worker_turn_defined: "scheduler_wf s \<Longrightarrow> worker_turn t s \<noteq> Inl e"
  by (erule worker_turn_cases [of _ t]) auto

section \<open>Reachable states\<close>

lemma scheduler_inv_init: "scheduler_init s \<Longrightarrow> scheduler_inv s"
  by (auto simp: scheduler_init.simps scheduler_inv_def wf_new)
    (simp_all add: ack_scheduler_new_def sleeps_right_def)

lemma scheduler_add_frame:
  "stopped (snd (scheduler_add m1 m2 i t s)) = stopped s"
  by (simp add: scheduler_add_def Let_def)

lemma sleeps_right_add:
  assumes "sleeps_right s" and "map_of (deadlines s) i = None"
  shows "sleeps_right (snd (scheduler_add m1 m2 i t s))"
  using assms
  by (auto simp: scheduler_add_def Let_def emplace_fresh delete_fresh intro: sleeps_right_awake)

lemma scheduler_remove_frame:
  "stopped (snd (scheduler_remove i t s)) = stopped s"
  "sleeps_right s \<Longrightarrow> sleeps_right (snd (scheduler_remove i t s))"
  by (auto simp: scheduler_remove_def intro: sleeps_right_awake split: option.split)

lemma scheduler_clear_frame:
  "stopped (scheduler_clear s) = stopped s" "sleeps_right (scheduler_clear s)"
  by (auto simp: scheduler_clear_def intro: sleeps_right_awake)

lemma scheduler_stop_frame:
  "stopped (scheduler_stop s)" "sleeps_right (scheduler_stop s) = sleeps_right s"
  by (simp_all add: scheduler_stop_def sleeps_right_def split: worker_state.split option.split)

lemmas scheduler_frames = scheduler_add_frame scheduler_remove_frame scheduler_clear_frame
  scheduler_stop_frame

lemma scheduler_inv_step:
  assumes "scheduler_inv s" and "scheduler_step s e t"
  shows "scheduler_inv t"
  using assms(2)
proof (cases rule: scheduler_step.cases)
  case (turn s')
  then show ?thesis
    using worker_turn_wf [of "sched s" "now s" s'] assms(1) by (auto simp: scheduler_inv_def)
qed (use assms(1) in \<open>auto simp: scheduler_inv_def scheduler_frames
    sleeps_right_add wf_intros intro: sleeps_right_awake\<close>)

interpretation scheduler_sys: invariant scheduler_init scheduler_step scheduler_inv
  by unfold_locales (auto intro: scheduler_inv_init scheduler_inv_step)

section \<open>Interface: a queue of deadlines\<close>

text \<open>
  What the socket relies on: the deadlines are a finite map, and claiming yields the earliest
  deadline that has passed, if there is one, and removes it.
\<close>

fun drain :: "nat \<Rightarrow> ('s \<Rightarrow> (int \<times> 's) option) \<Rightarrow> 's \<Rightarrow> (int list \<times> 's) option" where
  "drain 0 claim s = None"
| "drain (Suc n) claim s =
     (case claim s of
        None \<Rightarrow> Some ([], s)
      | Some (i, s') \<Rightarrow> map_option (apfst ((#) i)) (drain n claim s'))"

locale deadline_queue =
  fixes inv :: "'s \<Rightarrow> bool"
    and lookup :: "'s \<Rightarrow> int \<Rightarrow> time option"
    and add :: "int \<Rightarrow> time \<Rightarrow> 's \<Rightarrow> 's"
    and remove :: "int \<Rightarrow> 's \<Rightarrow> 's"
    and claim :: "time \<Rightarrow> 's \<Rightarrow> (int \<times> 's) option"
  assumes finite_lookup: "inv s \<Longrightarrow> finite (dom (lookup s))"
    and inv_add: "inv s \<Longrightarrow> lookup s i = None \<Longrightarrow> inv (add i d s)"
    and lookup_add: "inv s \<Longrightarrow> lookup s i = None \<Longrightarrow> lookup (add i d s) = (lookup s)(i \<mapsto> d)"
    and inv_remove: "inv s \<Longrightarrow> inv (remove i s)"
    and lookup_remove: "inv s \<Longrightarrow> lookup (remove i s) = (lookup s)(i := None)"
    and claim_None: "inv s \<Longrightarrow> claim t s = None \<Longrightarrow> lookup s i = Some d \<Longrightarrow> t < d"
    and claim_Some: "inv s \<Longrightarrow> claim t s = Some (i, s') \<Longrightarrow>
      inv s' \<and> lookup s' = (lookup s)(i := None) \<and>
      (\<exists>d. lookup s i = Some d \<and> d \<le> t \<and> (\<forall>j e. lookup s j = Some e \<longrightarrow> d \<le> e))"
begin

lemma removed_not_claimed:
  assumes "inv s" and "claim t (remove i s) = Some (j, s')"
  shows "j \<noteq> i"
  using claim_Some [OF inv_remove [OF assms(1)] assms(2)] lookup_remove [OF assms(1)] by auto

lemma claimed_not_again:
  assumes "inv s" and "claim t s = Some (i, s')" and "claim u s' = Some (j, s'')"
  shows "j \<noteq> i"
proof -
  have "inv s'" and l: "lookup s' = (lookup s)(i := None)" using claim_Some [OF assms(1,2)] by auto
  with claim_Some [OF _ assms(3)] show ?thesis by auto
qed

lemma claim_iff_due:
  assumes "inv s"
  shows "(\<exists>i s'. claim t s = Some (i, s')) \<longleftrightarrow> (\<exists>i d. lookup s i = Some d \<and> d \<le> t)"
  using claim_None [OF assms, of t] claim_Some [OF assms, of t]
  by (metis not_le not_None_eq old.prod.exhaust)

lemma drain_exact:
  assumes "inv s" and "card (dom (lookup s)) < n"
  shows "\<exists>ids s'. drain n (claim t) s = Some (ids, s') \<and> inv s' \<and> claim t s' = None \<and> distinct ids \<and>
     set ids = {i. \<exists>d. lookup s i = Some d \<and> d \<le> t} \<and>
     sorted (map (\<lambda>i. the (lookup s i)) ids) \<and> lookup s' = lookup s |` (- set ids)"
  using assms
proof (induction n arbitrary: s)
  case (Suc n)
  show ?case
  proof (cases "claim t s")
    case None
    then have "{i. \<exists>d. lookup s i = Some d \<and> d \<le> t} = {}"
      using claim_None [OF Suc.prems(1) None] by fastforce
    with None Suc.prems show ?thesis by (simp add: restrict_map_def)
  next
    case (Some r)
    obtain i s1 where r: "r = (i, s1)" by (cases r)
    from claim_Some [OF Suc.prems(1) Some [unfolded r]] obtain d where
      s1: "inv s1" "lookup s1 = (lookup s)(i := None)" and d: "lookup s i = Some d" "d \<le> t"
      and least: "\<forall>j e. lookup s j = Some e \<longrightarrow> d \<le> e" by auto
    have "card (dom (lookup s1)) < n"
    proof -
      have "card (dom (lookup s) - {i}) < card (dom (lookup s))"
        using d(1) by (intro card_Diff1_less finite_lookup [OF Suc.prems(1)]) auto
      with Suc.prems(2) s1(2) show ?thesis by simp
    qed
    from Suc.IH [OF s1(1) this] obtain ids s' where IH: "drain n (claim t) s1 = Some (ids, s')" "inv s'"
      "claim t s' = None" "distinct ids" "set ids = {i. \<exists>d. lookup s1 i = Some d \<and> d \<le> t}"
      "sorted (map (\<lambda>i. the (lookup s1 i)) ids)" "lookup s' = lookup s1 |` (- set ids)" by auto
    have new: "i \<notin> set ids" using IH(5) s1(2) by simp
    have "sorted (map (\<lambda>i. the (lookup s i)) (i # ids))"
    proof -
      have "map (\<lambda>i. the (lookup s i)) ids = map (\<lambda>i. the (lookup s1 i)) ids"
        using new s1(2) by (auto intro!: map_cong)
      with IH(6) have "sorted (map (\<lambda>i. the (lookup s i)) ids)" by (simp only:)
      moreover have "d \<le> the (lookup s j)" if "j \<in> set ids" for j
        using that IH(5) s1(2) least by (auto split: if_splits)
      ultimately show ?thesis using d(1) by simp
    qed
    moreover have "set (i # ids) = {i. \<exists>d. lookup s i = Some d \<and> d \<le> t}"
      using IH(5) s1(2) d by auto
    moreover have "lookup s' = lookup s |` (- set (i # ids))"
      using IH(7) s1(2) by (auto simp: restrict_map_def fun_eq_iff)
    moreover have "drain (Suc n) (claim t) s = Some (i # ids, s')" using Some r IH(1) by simp
    ultimately show ?thesis using IH(2,3,4) new by auto
  qed
qed simp

end

definition live_wf :: "ack_scheduler \<Rightarrow> bool" where
  "live_wf s \<longleftrightarrow> scheduler_wf s \<and> \<not> stopped s"

lemma live_wf_frame: "live_wf s \<Longrightarrow> live_wf (s\<lparr>worker := w\<rparr>)"
  by (simp add: live_wf_def)

lemma worker_claim_Some:
  assumes "live_wf s" and "worker_claim t s = Some (i, s')"
  obtains d rest where "ordered s = d # rest" "due d \<le> t" "i = ack d"
    "s' = s\<lparr>ordered := rest, deadlines := AList.delete (ack d) (deadlines s), worker := Running\<rparr>"
proof -
  have "scheduler_wf s" using assms(1) by (simp add: live_wf_def)
  then show ?thesis
    using assms(2) that
    by (cases rule: worker_turn_cases [where t = t]) (auto simp: worker_claim_def worker_wake_def)
qed

lemma worker_claim_None:
  assumes "live_wf s" and "worker_claim t s = None" and "map_of (deadlines s) i = Some d"
  shows "t < d"
proof -
  have wf: "scheduler_wf s" using assms(1) by (simp add: live_wf_def)
  then show ?thesis
  proof (cases rule: worker_turn_cases [where t = t])
    case (early e rest)
    then show ?thesis using earliest(2) [OF wf early(2) assms(3)] by simp
  qed (use assms in \<open>auto simp: worker_claim_def live_wf_def\<close>)
qed

interpretation acks: deadline_queue live_wf "\<lambda>s. map_of (deadlines s)"
  "\<lambda>i d s. snd (scheduler_add True True i d s)" "\<lambda>i s. snd (scheduler_remove i t s)" worker_claim for t
proof unfold_locales
  fix s i d u s'
  assume wf: "live_wf s"
  show "finite (dom (map_of (deadlines s)))" by (rule finite_dom_map_of)
  show "live_wf (snd (scheduler_add True True i d s))" if "map_of (deadlines s) i = None"
    using wf that wf_add [of s i True True d] by (simp add: live_wf_def scheduler_frames)
  show "map_of (deadlines (snd (scheduler_add True True i d s))) = (map_of (deadlines s))(i \<mapsto> d)"
    if "map_of (deadlines s) i = None"
    using that by (simp add: scheduler_add_def emplace_fresh Let_def)
  show "live_wf (snd (scheduler_remove i t s))"
    using wf by (simp add: live_wf_def scheduler_frames wf_remove)
  show "map_of (deadlines (snd (scheduler_remove i t s))) = (map_of (deadlines s))(i := None)"
    by (auto simp: scheduler_remove_def alist_simps split: option.split)
  show "u < d" if "worker_claim u s = None" "map_of (deadlines s) i = Some d"
    by (rule worker_claim_None [OF wf that])
  assume "worker_claim u s = Some (i, s')"
  then obtain e rest where c: "ordered s = e # rest" "due e \<le> u" "i = ack e"
    "s' = s\<lparr>ordered := rest, deadlines := AList.delete (ack e) (deadlines s), worker := Running\<rparr>"
    by (rule worker_claim_Some [OF wf])
  have "scheduler_wf s" using wf by (simp add: live_wf_def)
  from wf_claim [OF this c(1)] earliest [OF this c(1)] c wf
  show "live_wf s' \<and> map_of (deadlines s') = (map_of (deadlines s))(i := None) \<and>
      (\<exists>d. map_of (deadlines s) i = Some d \<and> d \<le> u \<and> (\<forall>j e. map_of (deadlines s) j = Some e \<longrightarrow> d \<le> e))"
    by (auto simp: live_wf_def scheduler_wf_def alist_simps)
qed

lemma worker_loop_drain:
  assumes "live_wf s" and "drain n (worker_claim t) s = Some (ids, s')"
  shows "\<exists>s''. worker_loop n t s = Some (Inr (ids, s'')) \<and> worker_turn t s' = Inr s''"
  using assms
proof (induction n arbitrary: s ids)
  case (Suc n)
  have wf: "scheduler_wf s" using Suc.prems(1) by (simp add: live_wf_def)
  then show ?case
  proof (cases rule: worker_turn_cases [where t = t])
    case (claim d rest)
    let ?s = "s\<lparr>ordered := rest, deadlines := AList.delete (ack d) (deadlines s), worker := Running\<rparr>"
    have c: "worker_claim t s = Some (ack d, ?s)" using claim by (simp add: worker_claim_def worker_wake_def)
    then have "live_wf ?s" using acks.claim_Some [OF Suc.prems(1)] by blast
    moreover obtain ids' where "drain n (worker_claim t) ?s = Some (ids', s')" "ids = ack d # ids'"
      using Suc.prems(2) c by auto
    ultimately obtain s'' where "worker_loop n t ?s = Some (Inr (ids', s''))" "worker_turn t s' = Inr s''"
      using Suc.IH by blast
    with claim \<open>ids = ack d # ids'\<close> show ?thesis by (simp add: worker_wake_def)
  qed (use Suc.prems in \<open>auto simp: worker_claim_def live_wf_def\<close>)
qed simp

section \<open>Properties\<close>

text \<open>
  C14. However threads interleave additions, removals, clearing, destruction, spurious wake-ups and
  the passing of time, the ordered set always holds exactly the registered deadlines in order, the
  worker never reads an empty set, and no wake-up is lost: a waiting worker waits for nothing
  later than the earliest deadline, and once the destructor has notified it the worker is awake,
  so that joining it terminates.
\<close>

theorem scheduler_never_oversleeps:
  "reach scheduler_init scheduler_step s \<Longrightarrow>
     scheduler_wf (sched s) \<and>
     (\<forall>t e. worker_turn t (sched s) \<noteq> Inl e) \<and>
     (\<forall>w i d. worker (sched s) = Waiting w \<longrightarrow> map_of (deadlines (sched s)) i = Some d \<longrightarrow>
        (\<exists>t. w = Some t \<and> t \<le> d)) \<and>
     (dtor s = Notified \<longrightarrow> (\<forall>w. worker (sched s) \<noteq> Waiting w))"
proof -
  assume "reach scheduler_init scheduler_step s"
  then have inv: "scheduler_inv s" by (rule scheduler_sys.reachable_inv)
  then have wf: "scheduler_wf (sched s)" by (simp add: scheduler_inv_def)
  have "\<exists>t. w = Some t \<and> t \<le> d"
    if "worker (sched s) = Waiting w" and d: "map_of (deadlines (sched s)) i = Some d" for w i d
    using that(1) inv earliest(2) [OF wf _ d]
    by (cases w; cases "ordered (sched s)") (use d in \<open>auto simp: scheduler_inv_def sleeps_right_def\<close>)
  with inv wf show ?thesis by (auto simp: scheduler_inv_def worker_turn_defined)
qed

theorem scheduler_never_oversleeps_witness:
  "reach scheduler_init scheduler_step \<lparr>now = 5, sched = ack_scheduler_new, dtor = Alive\<rparr> \<and>
   scheduler_wf (sched \<lparr>now = 5, sched = ack_scheduler_new, dtor = Alive\<rparr>)"
proof -
  have "reach scheduler_init scheduler_step \<lparr>now = 5, sched = ack_scheduler_new, dtor = Alive\<rparr>"
    by (intro reach_init) (rule scheduler_init.intros)
  with scheduler_never_oversleeps [OF this] show ?thesis by blast
qed

text \<open>
  C15. When the worker of a live scheduler runs at time \<open>t\<close>, it finishes within one turn per
  registered deadline plus one, and calls \<^verbatim>\<open>expire\<close> exactly for the acknowledgements whose deadline has
  passed, each once and in the order of their deadlines; the others stay registered.
\<close>

theorem worker_expires_exactly_due:
  assumes "scheduler_wf s" and "\<not> stopped s" and "length (deadlines s) < n"
  shows "\<exists>ids s'. worker_loop n t s = Some (Inr (ids, s')) \<and> distinct ids \<and>
     set ids = {i. \<exists>d. map_of (deadlines s) i = Some d \<and> d \<le> t} \<and>
     sorted (map (\<lambda>i. the (map_of (deadlines s) i)) ids) \<and>
     map_of (deadlines s') = map_of (deadlines s) |` (- set ids) \<and>
     (worker s' = Waiting None \<or> (\<exists>u > t. worker s' = Waiting (Some u)))"
proof -
  have live: "live_wf s" using assms(1,2) by (simp add: live_wf_def)
  have "card (dom (map_of (deadlines s))) < n"
    using assms(1,3) distinct_card [of "map fst (deadlines s)"]
    by (simp add: scheduler_wf_def dom_map_of_conv_image_fst)
  from acks.drain_exact [OF live this, of t] obtain ids s' where
    d: "drain n (worker_claim t) s = Some (ids, s')" "live_wf s'" "worker_claim t s' = None" and
    r: "distinct ids" "set ids = {i. \<exists>d. map_of (deadlines s) i = Some d \<and> d \<le> t}"
      "sorted (map (\<lambda>i. the (map_of (deadlines s) i)) ids)"
      "map_of (deadlines s') = map_of (deadlines s) |` (- set ids)" by blast
  from worker_loop_drain [OF live d(1)] obtain s'' where
    l: "worker_loop n t s = Some (Inr (ids, s''))" "worker_turn t s' = Inr s''" by blast
  have "scheduler_wf s'" using d(2) by (simp add: live_wf_def)
  then have "deadlines s'' = deadlines s' \<and> (worker s'' = Waiting None \<or> (\<exists>u > t. worker s'' = Waiting (Some u)))"
    using d(2,3) l(2)
    by (cases rule: worker_turn_cases [where t = t]) (auto simp: worker_claim_def live_wf_def)
  with l r show ?thesis by (intro exI [of _ ids] exI [of _ s'']) auto
qed

theorem worker_expires_exactly_due_witness:
  "\<exists>ids s'. worker_loop 4 20 \<lparr>deadlines = [(7, 30), (8, 10), (9, 15)],
       ordered = [Deadline 10 8, Deadline 15 9, Deadline 30 7], stopped = False, worker = Running\<rparr> =
       Some (Inr (ids, s')) \<and> distinct ids \<and> set ids = {8, 9}"
proof -
  let ?s = "\<lparr>deadlines = [(7, 30), (8, 10), (9, 15)],
       ordered = [Deadline 10 8, Deadline 15 9, Deadline 30 7], stopped = False, worker = Running\<rparr>"
  have "scheduler_wf ?s" by (auto simp: scheduler_wf_def)
  from worker_expires_exactly_due [OF this, of 4 20] obtain ids s' where
    "worker_loop 4 20 ?s = Some (Inr (ids, s'))" "distinct ids"
    "set ids = {i. \<exists>d. map_of (deadlines ?s) i = Some d \<and> d \<le> 20}" by auto
  moreover have "{i. \<exists>d. map_of (deadlines ?s) i = Some d \<and> d \<le> 20} = {8, 9}"
    by (auto split: if_splits)
  ultimately show ?thesis by blast
qed

end
