(* ===== verification/Socket.thy ===== *)
theory Socket
  imports Sioxx_Message Ack_Scheduler
begin

text \<open>
  The namespace socket (\<^verbatim>\<open>src/socket.cpp\<close>, \<^verbatim>\<open>include/sioxx/socket.hpp\<close>): listeners, emission with and
  without acknowledgement, acknowledgement deadlines, the send buffer and the connection state.

  The code takes \<^verbatim>\<open>mutex_\<close> for short sections and does everything else (sending, user callbacks)
  outside. Accordingly an operation is modelled by its sections: each definition below is the
  section of one function that runs with the mutex held (together with the purely local work
  around it) and returns the new state and the tasks the same thread does next, in order. A task
  is either the entry of an operation, a later section of one, or a call out of the socket: a
  packet handed to the client or a user callback. \<open>exec\<close> performs one task; how threads
  interleave their tasks is the subject of the theory \<open>Socket_System\<close>.

  Acknowledgement ids and clock ticks are unbounded integers in which the ends of the C++ types
  are written out: incrementing \<^verbatim>\<open>next_ack_id_\<close> beyond \<^verbatim>\<open>INT_MAX\<close>, like dereferencing the absent
  scheduler, is undefined behaviour. Callbacks do not throw, as their documentation demands.
\<close>

section \<open>Data\<close>

datatype ack_status = Acknowledged | Timeout

text \<open>
  \<open>replies\<close> is the heap of the flags that the \<^verbatim>\<open>acknowledge\<close> functions share: entry \<open>n\<close> belongs to
  the \<open>n\<close>-th function made, with the id it replies to and whether it has replied.
\<close>

record socket =
  client_alive :: bool
  nsp :: string
  connected :: bool
  auth :: json
  listeners :: "(string \<times> callback option) list"
  ack_listeners :: "(string \<times> callback option) list"
  any_listener :: "callback option"
  any_ack_listener :: "callback option"
  pending_acks :: "(int \<times> callback option) list"
  timed_acks :: "(int \<times> callback) list"
  active_timed_acks :: int
  timed_acks_closed :: bool
  send_buffer :: "packet list"
  next_ack_id :: int
  flushing_send_buffer :: bool
  on_connect :: "callback option"
  on_disconnect :: "callback option"
  scheduler :: "ack_scheduler option"
  replies :: "(int \<times> bool) list"

datatype task =
    Set_auth json
  | On string "callback option"
  | On_ack string "callback option"
  | On_any "callback option"
  | On_any_ack "callback option"
  | Off string
  | Off_all
  | On_connect "callback option"
  | On_disconnect "callback option"
  | Send_connect
  | Send_disconnect
  | Emit string json
  | Emit_ack string json "callback option"
  | Emit_timed string json int "callback option"
  | Dispatch_event string json int
  | Dispatch_ack int json
  | Mark_connected bool string
  | Cancel_timed_acks
  | Wait_for_timed_acks
  | Resume_timed_acks
  | Acknowledge nat json
  | Clear_connected
  | Register_timed packet time callback
  | Send_or_buffer packet
  | Flush
  | Expire int
  | Finish_timed int
  | Send packet
  | Send_buffered packet
  | Send_reply nat packet
  | Call_listener callback string json
  | Call_ack_listener callback string json "nat option"
  | Call_ack callback json
  | Call_timed int callback ack_status json time
  | Call_connect callback
  | Call_disconnect callback string

text \<open>What can be observed of a socket, and the history its properties are stated on.\<close>

datatype obs =
    Sent packet
  | Sent_buffered packet
  | Sent_reply nat packet
  | Buffered packet
  | Registered int time
  | Called_listener callback string json
  | Called_ack_listener callback string json "nat option"
  | Called_ack callback json
  | Called_timed int callback ack_status json time
  | Called_connect callback
  | Called_disconnect callback string
  | Threw cpp_exn

type_synonym outcome = "cpp_exn + socket \<times> task list \<times> obs list"

definition socket_new :: "string \<Rightarrow> json \<Rightarrow> socket" where
  "socket_new ns a =
     \<lparr>client_alive = True, nsp = ns, connected = False, auth = a, listeners = [], ack_listeners = [],
      any_listener = None, any_ack_listener = None, pending_acks = [], timed_acks = [],
      active_timed_acks = 0, timed_acks_closed = False, send_buffer = [], next_ack_id = 0,
      flushing_send_buffer = False, on_connect = None, on_disconnect = None, scheduler = None,
      replies = []\<rparr>"

section \<open>Listeners\<close>

definition socket_set_auth :: "json \<Rightarrow> socket \<Rightarrow> socket" where
  "socket_set_auth a s = s\<lparr>auth := a\<rparr>"

definition socket_on :: "string \<Rightarrow> callback option \<Rightarrow> socket \<Rightarrow> socket" where
  "socket_on event l s =
     s\<lparr>listeners := AList.update event l (listeners s), ack_listeners := AList.delete event (ack_listeners s)\<rparr>"

definition socket_on_ack :: "string \<Rightarrow> callback option \<Rightarrow> socket \<Rightarrow> socket" where
  "socket_on_ack event l s =
     s\<lparr>ack_listeners := AList.update event l (ack_listeners s), listeners := AList.delete event (listeners s)\<rparr>"

definition socket_on_any :: "callback option \<Rightarrow> socket \<Rightarrow> socket" where
  "socket_on_any l s = s\<lparr>any_listener := l, any_ack_listener := None\<rparr>"

definition socket_on_any_ack :: "callback option \<Rightarrow> socket \<Rightarrow> socket" where
  "socket_on_any_ack l s = s\<lparr>any_ack_listener := l, any_listener := None\<rparr>"

definition socket_off :: "string \<Rightarrow> socket \<Rightarrow> socket" where
  "socket_off event s =
     s\<lparr>listeners := AList.delete event (listeners s), ack_listeners := AList.delete event (ack_listeners s)\<rparr>"

definition socket_off_all :: "socket \<Rightarrow> socket" where
  "socket_off_all s =
     s\<lparr>listeners := [], ack_listeners := [], any_listener := None, any_ack_listener := None\<rparr>"

definition socket_on_connect :: "callback option \<Rightarrow> socket \<Rightarrow> socket" where
  "socket_on_connect l s = s\<lparr>on_connect := l\<rparr>"

definition socket_on_disconnect :: "callback option \<Rightarrow> socket \<Rightarrow> socket" where
  "socket_on_disconnect l s = s\<lparr>on_disconnect := l\<rparr>"

section \<open>Sending\<close>

definition socket_connect :: "socket \<Rightarrow> socket \<times> task list" where
  "socket_connect s =
     (s, [Send (default_packet\<lparr>pk_type := Connect, pk_nsp := nsp s, pk_data := auth s\<rparr>)])"

definition socket_disconnect :: "socket \<Rightarrow> socket \<times> task list" where
  "socket_disconnect s =
     (s, [Send (default_packet\<lparr>pk_type := Disconnect, pk_nsp := nsp s\<rparr>), Clear_connected])"

definition clear_connected :: "socket \<Rightarrow> socket" where
  "clear_connected s = s\<lparr>connected := False\<rparr>"

fun event_args :: "string \<Rightarrow> json \<Rightarrow> json" where
  "event_args event (JArray vs) = JArray (JString event # vs)"
| "event_args event JNull = JArray [JString event]"
| "event_args event v = JArray [JString event, v]"

definition event_packet :: "string \<Rightarrow> string \<Rightarrow> json \<Rightarrow> packet" where
  "event_packet ns event data =
     default_packet\<lparr>pk_type := Event, pk_nsp := ns, pk_data := event_args event data\<rparr>"

definition socket_emit :: "string \<Rightarrow> json \<Rightarrow> socket \<Rightarrow> socket \<times> task list" where
  "socket_emit event data s = (s, [Send_or_buffer (event_packet (nsp s) event data)])"

definition socket_emit_ack ::
  "string \<Rightarrow> json \<Rightarrow> callback option \<Rightarrow> socket \<Rightarrow> cpp_exn + socket \<times> task list" where
  "socket_emit_ack event data cb s =
     (if int_max \<le> next_ack_id s then Inl Undefined_behaviour
      else
        let i = next_ack_id s
        in Inr (s\<lparr>next_ack_id := i + 1, pending_acks := AList.update i cb (pending_acks s)\<rparr>,
                [Send_or_buffer ((event_packet (nsp s) event data)\<lparr>pk_id := i\<rparr>)]))"

definition steady_max :: time where
  "steady_max = 2 ^ 63 - 1"

definition ticks_per_ms :: int where
  "ticks_per_ms = 1000000"

definition ack_deadline :: "time \<Rightarrow> int \<Rightarrow> time" where
  "ack_deadline t timeout =
     (let remaining = (steady_max - t) div ticks_per_ms
      in if remaining \<le> timeout then steady_max else t + timeout * ticks_per_ms)"

definition socket_emit_timed ::
  "time \<Rightarrow> string \<Rightarrow> json \<Rightarrow> int \<Rightarrow> callback option \<Rightarrow> socket \<Rightarrow> socket \<times> task list \<times> obs list" where
  "socket_emit_timed t event data timeout cb s =
     (case cb of
        None \<Rightarrow> (s, [], [Threw (Invalid_argument ''acknowledgement timeout and callback must be valid'')])
      | Some c \<Rightarrow>
          (if timeout \<le> 0
           then (s, [], [Threw (Invalid_argument ''acknowledgement timeout and callback must be valid'')])
           else (s, [Register_timed (event_packet (nsp s) event data) (ack_deadline t timeout) c], [])))"

definition register_timed_ack :: "time \<Rightarrow> callback \<Rightarrow> socket \<Rightarrow> cpp_exn + int \<times> socket" where
  "register_timed_ack deadline cb s =
     (if timed_acks_closed s
      then Inl (Logic_error ''timed emissions require client.connect() after shutdown'')
      else if int_max \<le> next_ack_id s then Inl Undefined_behaviour
      else
        let i = next_ack_id s;
            sc = (case scheduler s of None \<Rightarrow> ack_scheduler_new | Some sc \<Rightarrow> sc)
        in Inr (i, s\<lparr>next_ack_id := i + 1, timed_acks := emplace i cb (timed_acks s),
                     scheduler := Some (snd (scheduler_add True True i deadline sc))\<rparr>))"

definition socket_register_timed :: "time \<Rightarrow> packet \<Rightarrow> time \<Rightarrow> callback \<Rightarrow> socket \<Rightarrow> outcome" where
  "socket_register_timed t pkt deadline cb s =
     (case register_timed_ack deadline cb s of
        Inl Undefined_behaviour \<Rightarrow> Inl Undefined_behaviour
      | Inl e \<Rightarrow> Inr (s, [], [Threw e])
      | Inr (i, s1) \<Rightarrow>
          let p = pkt\<lparr>pk_id := i\<rparr>
          in case scheduler s1 of
               None \<Rightarrow> Inl Undefined_behaviour
             | Some sc \<Rightarrow>
                 (if scheduler_expired i t sc then Inr (s1, [], [Registered i deadline])
                  else if \<not> connected s1 \<or> flushing_send_buffer s1
                  then Inr (s1\<lparr>send_buffer := send_buffer s1 @ [p]\<rparr>, [], [Registered i deadline, Buffered p])
                  else Inr (s1, [Send p], [Registered i deadline])))"

definition send_or_buffer :: "packet \<Rightarrow> socket \<Rightarrow> socket \<times> task list \<times> obs list" where
  "send_or_buffer p s =
     (if \<not> connected s \<or> flushing_send_buffer s
      then (s\<lparr>send_buffer := send_buffer s @ [p]\<rparr>, [], [Buffered p])
      else (s, [Send p], []))"

definition without_id :: "int \<Rightarrow> packet list \<Rightarrow> packet list" where
  "without_id i = filter (\<lambda>p. pk_id p \<noteq> i)"

definition expire_ack :: "time \<Rightarrow> int \<Rightarrow> socket \<Rightarrow> socket \<times> task list" where
  "expire_ack t i s =
     (case map_of (timed_acks s) i of
        None \<Rightarrow> (s, [])
      | Some cb \<Rightarrow>
          (s\<lparr>timed_acks := AList.delete i (timed_acks s), active_timed_acks := active_timed_acks s + 1,
             send_buffer := without_id i (send_buffer s)\<rparr>,
           [Call_timed i cb Timeout JNull t]))"

text \<open>
  One turn of the loop of \<^verbatim>\<open>flush_send_buffer\<close>, up to the point where the mutex is released: handing
  the packet to the client (\<open>Send_buffered\<close>) continues with the next turn, like expiring it does.
\<close>

definition flush_send_buffer :: "time \<Rightarrow> socket \<Rightarrow> cpp_exn + socket \<times> task list" where
  "flush_send_buffer t s =
     (if \<not> connected s \<or> send_buffer s = [] then Inr (s\<lparr>flushing_send_buffer := False\<rparr>, [])
      else
        let p = hd (send_buffer s);
            s1 = s\<lparr>send_buffer := tl (send_buffer s)\<rparr>
        in if map_of (timed_acks s1) (pk_id p) = None then Inr (s1, [Send_buffered p])
           else case scheduler s1 of
               None \<Rightarrow> Inl Undefined_behaviour
             | Some sc \<Rightarrow>
                 (if scheduler_expired (pk_id p) t sc then Inr (s1, [Expire (pk_id p), Flush])
                  else Inr (s1, [Send_buffered p])))"

section \<open>Receiving\<close>

definition found :: "('k \<times> callback option) list \<Rightarrow> 'k \<Rightarrow> callback option" where
  "found m k = (case map_of m k of None \<Rightarrow> None | Some cb \<Rightarrow> cb)"

definition dispatch_event :: "string \<Rightarrow> json \<Rightarrow> int \<Rightarrow> socket \<Rightarrow> socket \<times> task list" where
  "dispatch_event event data ack_id s =
     (let listener = found (listeners s) event;
          ack_listener = found (ack_listeners s) event;
          any = any_listener s;
          any_ack = any_ack_listener s;
          replying = (ack_listener \<noteq> None \<or> any_ack \<noteq> None) \<and> 0 \<le> ack_id;
          acknowledge = (if replying then Some (length (replies s)) else None);
          s1 = (if replying then s\<lparr>replies := replies s @ [(ack_id, False)]\<rparr> else s);
          named = (case listener of
                     Some l \<Rightarrow> [Call_listener l event data]
                   | None \<Rightarrow> (case ack_listener of
                       Some l \<Rightarrow> [Call_ack_listener l event data acknowledge]
                     | None \<Rightarrow> []));
          catch_all = (case any of
                     Some l \<Rightarrow> [Call_listener l event data]
                   | None \<Rightarrow> (case any_ack of
                       Some l \<Rightarrow> [Call_ack_listener l event data acknowledge]
                     | None \<Rightarrow> []))
      in (s1, named @ catch_all))"

fun reply_args :: "json \<Rightarrow> json" where
  "reply_args (JArray vs) = JArray vs"
| "reply_args JNull = JArray []"
| "reply_args v = JArray [v]"

definition send_ack :: "int \<Rightarrow> json \<Rightarrow> socket \<Rightarrow> packet" where
  "send_ack i data s =
     default_packet\<lparr>pk_type := Ack, pk_nsp := nsp s, pk_id := i, pk_data := reply_args data\<rparr>"

definition acknowledge_call :: "nat \<Rightarrow> json \<Rightarrow> socket \<Rightarrow> socket \<times> task list" where
  "acknowledge_call n reply s =
     (if length (replies s) \<le> n then (s, [])
      else
        case replies s ! n of (i, sent) \<Rightarrow>
          (s\<lparr>replies := (replies s)[n := (i, True)]\<rparr>,
           if sent then [] else [Send_reply n (send_ack i reply s)]))"

definition dispatch_ack :: "time \<Rightarrow> int \<Rightarrow> json \<Rightarrow> socket \<Rightarrow> cpp_exn + socket \<times> task list" where
  "dispatch_ack t i data s =
     (case map_of (timed_acks s) i of
        Some cb \<Rightarrow>
          (case scheduler s of
             None \<Rightarrow> Inl Undefined_behaviour
           | Some sc \<Rightarrow>
               let (expired, sc') = scheduler_remove i t sc
               in Inr (s\<lparr>scheduler := Some sc', active_timed_acks := active_timed_acks s + 1,
                         timed_acks := AList.delete i (timed_acks s),
                         send_buffer := without_id i (send_buffer s)\<rparr>,
                       [Call_timed i cb (if expired then Timeout else Acknowledged)
                          (if expired then JNull else data) t]))
      | None \<Rightarrow>
          (case map_of (pending_acks s) i of
             None \<Rightarrow> Inr (s, [])
           | Some cb \<Rightarrow>
               Inr (s\<lparr>pending_acks := AList.delete i (pending_acks s)\<rparr>,
                    case cb of None \<Rightarrow> [] | Some c \<Rightarrow> [Call_ack c data])))"

section \<open>Shutdown and connection state\<close>

definition cancel_timed_acks :: "socket \<Rightarrow> socket" where
  "cancel_timed_acks s =
     s\<lparr>timed_acks_closed := True, scheduler := map_option scheduler_clear (scheduler s),
       send_buffer := filter (\<lambda>p. map_of (timed_acks s) (pk_id p) = None) (send_buffer s),
       timed_acks := []\<rparr>"

definition wait_for_timed_acks :: "socket \<Rightarrow> bool" where
  "wait_for_timed_acks s \<longleftrightarrow> active_timed_acks s = 0"

definition resume_timed_acks :: "socket \<Rightarrow> socket" where
  "resume_timed_acks s = s\<lparr>timed_acks_closed := False\<rparr>"

definition finish_timed_ack :: "socket \<Rightarrow> socket" where
  "finish_timed_ack s = s\<lparr>active_timed_acks := active_timed_acks s - 1\<rparr>"

definition mark_connected :: "bool \<Rightarrow> string \<Rightarrow> socket \<Rightarrow> socket \<times> task list" where
  "mark_connected now_connected reason s =
     (let was = connected s;
          s1 = s\<lparr>connected := now_connected\<rparr>
      in if now_connected \<and> \<not> was
         then (s1\<lparr>flushing_send_buffer := True\<rparr>,
               (if flushing_send_buffer s then [] else [Flush])
               @ (case on_connect s of None \<Rightarrow> [] | Some cb \<Rightarrow> [Call_connect cb]))
         else if \<not> now_connected \<and> was
         then (s1, case on_disconnect s of None \<Rightarrow> [] | Some cb \<Rightarrow> [Call_disconnect cb reason])
         else (s1, []))"

section \<open>Performing one task\<close>

definition quiet :: "socket \<times> task list \<Rightarrow> outcome" where
  "quiet r = Inr (fst r, snd r, [])"

definition quietly :: "cpp_exn + socket \<times> task list \<Rightarrow> outcome" where
  "quietly r = (case r of Inl e \<Rightarrow> Inl e | Inr r' \<Rightarrow> quiet r')"

definition to_client :: "obs \<Rightarrow> socket \<Rightarrow> outcome" where
  "to_client ob s = Inr (s, [], if client_alive s then [ob] else [])"

text \<open>
  A call of \<^verbatim>\<open>wait_for_timed_acks\<close> is performed only in states where it returns; the step relation
  over threads delays it until then.
\<close>

fun exec :: "time \<Rightarrow> task \<Rightarrow> socket \<Rightarrow> outcome" where
  "exec t (Set_auth a) s = quiet (socket_set_auth a s, [])"
| "exec t (On event l) s = quiet (socket_on event l s, [])"
| "exec t (On_ack event l) s = quiet (socket_on_ack event l s, [])"
| "exec t (On_any l) s = quiet (socket_on_any l s, [])"
| "exec t (On_any_ack l) s = quiet (socket_on_any_ack l s, [])"
| "exec t (Off event) s = quiet (socket_off event s, [])"
| "exec t Off_all s = quiet (socket_off_all s, [])"
| "exec t (On_connect l) s = quiet (socket_on_connect l s, [])"
| "exec t (On_disconnect l) s = quiet (socket_on_disconnect l s, [])"
| "exec t Send_connect s = quiet (socket_connect s)"
| "exec t Send_disconnect s = quiet (socket_disconnect s)"
| "exec t (Emit event data) s = quiet (socket_emit event data s)"
| "exec t (Emit_ack event data cb) s = quietly (socket_emit_ack event data cb s)"
| "exec t (Emit_timed event data timeout cb) s = Inr (socket_emit_timed t event data timeout cb s)"
| "exec t (Dispatch_event event data i) s = quiet (dispatch_event event data i s)"
| "exec t (Dispatch_ack i data) s = quietly (dispatch_ack t i data s)"
| "exec t (Mark_connected c reason) s = quiet (mark_connected c reason s)"
| "exec t Cancel_timed_acks s = quiet (cancel_timed_acks s, [])"
| "exec t Wait_for_timed_acks s = quiet (s, [])"
| "exec t Resume_timed_acks s = quiet (resume_timed_acks s, [])"
| "exec t (Acknowledge n reply) s = quiet (acknowledge_call n reply s)"
| "exec t Clear_connected s = quiet (clear_connected s, [])"
| "exec t (Register_timed p deadline cb) s = socket_register_timed t p deadline cb s"
| "exec t (Send_or_buffer p) s = Inr (send_or_buffer p s)"
| "exec t Flush s = quietly (flush_send_buffer t s)"
| "exec t (Expire i) s = quiet (expire_ack t i s)"
| "exec t (Finish_timed i) s = quiet (finish_timed_ack s, [])"
| "exec t (Send p) s = to_client (Sent p) s"
| "exec t (Send_buffered p) s = Inr (s, [Flush], if client_alive s then [Sent_buffered p] else [])"
| "exec t (Send_reply n p) s = to_client (Sent_reply n p) s"
| "exec t (Call_listener cb event data) s = Inr (s, [], [Called_listener cb event data])"
| "exec t (Call_ack_listener cb event data a) s = Inr (s, [], [Called_ack_listener cb event data a])"
| "exec t (Call_ack cb data) s = Inr (s, [], [Called_ack cb data])"
| "exec t (Call_timed i cb st data at) s = Inr (s, [Finish_timed i], [Called_timed i cb st data at])"
| "exec t (Call_connect cb) s = Inr (s, [], [Called_connect cb])"
| "exec t (Call_disconnect cb reason) s = Inr (s, [], [Called_disconnect cb reason])"

text \<open>
  A thread that runs undisturbed at one instant: the tasks in order, each followed by what it
  leads to. The fuel bounds the number of tasks.
\<close>

fun run_tasks :: "nat \<Rightarrow> time \<Rightarrow> task list \<Rightarrow> socket \<Rightarrow> (cpp_exn + socket \<times> obs list) option" where
  "run_tasks n t [] s = Some (Inr (s, []))"
| "run_tasks 0 t (k # ks) s = None"
| "run_tasks (Suc n) t (k # ks) s =
     (case exec t k s of
        Inl e \<Rightarrow> Some (Inl e)
      | Inr (s', new, ob) \<Rightarrow>
          map_option (\<lambda>r. case r of Inl e \<Rightarrow> Inl e | Inr (s'', ob') \<Rightarrow> Inr (s'', ob @ ob'))
            (run_tasks n t (new @ ks) s'))"

section \<open>Running tasks\<close>

text \<open>No buffered packet belongs to a timed emission whose deadline has passed.\<close>

definition none_expired :: "time \<Rightarrow> packet list \<Rightarrow> socket \<Rightarrow> bool" where
  "none_expired t b s \<longleftrightarrow> (\<forall>p \<in> set b. map_of (timed_acks s) (pk_id p) = None \<or>
     (\<exists>sc. scheduler s = Some sc \<and> \<not> scheduler_expired (pk_id p) t sc))"

lemma flush_all:
  assumes "connected s" and "client_alive s" and "send_buffer s = b" and "none_expired t b s"
    and "run_tasks n t ks (s\<lparr>send_buffer := [], flushing_send_buffer := False\<rparr>) = Some (Inr (s', ob))"
  shows "run_tasks (2 * length b + 1 + n) t (Flush # ks) s = Some (Inr (s', map Sent_buffered b @ ob))"
  using assms
proof (induction b arbitrary: s)
  case Nil
  then have "s\<lparr>send_buffer := [], flushing_send_buffer := False\<rparr> = s\<lparr>flushing_send_buffer := False\<rparr>" by simp
  with Nil show ?case by (simp add: flush_send_buffer_def quietly_def quiet_def)
next
  case (Cons p b)
  let ?s = "s\<lparr>send_buffer := b\<rparr>"
  have "exec t Flush s = Inr (?s, [Send_buffered p], [])"
    using Cons.prems by (auto simp: flush_send_buffer_def quietly_def quiet_def none_expired_def Let_def)
  moreover have "exec t (Send_buffered p) ?s = Inr (?s, [Flush], [Sent_buffered p])"
    using Cons.prems by simp
  moreover have "run_tasks (2 * length b + 1 + n) t (Flush # ks) ?s = Some (Inr (s', map Sent_buffered b @ ob))"
    using Cons.prems by (intro Cons.IH) (auto simp: none_expired_def)
  ultimately show ?case by simp
qed

section \<open>Properties\<close>



text \<open>
  An acknowledgement reaches the callback of its emission, with its data, and only once: the
  packet that is sent or buffered carries the id under which the callback waits, and a second
  acknowledgement with that id is ignored.
\<close>

theorem acknowledgement_reaches_callback:
  assumes "socket_emit_ack event data (Some cb) s = Inr (s1, ks)" and "map_of (timed_acks s) (next_ack_id s) = None"
  shows "\<exists>i p s2. ks = [Send_or_buffer p] \<and> pk_id p = i \<and> pk_data p = event_args event data \<and>
     dispatch_ack t i reply s1 = Inr (s2, [Call_ack cb reply]) \<and> dispatch_ack u i reply' s2 = Inr (s2, [])"
  using assms
  by (auto simp: socket_emit_ack_def dispatch_ack_def event_packet_def default_packet_def Let_def alist_simps
      split: if_splits)

theorem acknowledgement_reaches_callback_witness:
  "\<exists>s1 ks. socket_emit_ack ''e'' JNull (Some 3) (socket_new ''/'' JNull) = Inr (s1, ks) \<and>
     (\<exists>i p s2. ks = [Send_or_buffer p] \<and> pk_id p = i \<and> pk_data p = event_args ''e'' JNull \<and>
        dispatch_ack 1 i (JArray []) s1 = Inr (s2, [Call_ack 3 (JArray [])]) \<and> dispatch_ack 2 i JNull s2 = Inr (s2, []))"
proof -
  obtain s1 ks where x: "socket_emit_ack ''e'' JNull (Some 3) (socket_new ''/'' JNull) = Inr (s1, ks)"
    by (simp add: socket_emit_ack_def socket_new_def int_max_def Let_def)
  have "map_of (timed_acks (socket_new ''/'' JNull)) (next_ack_id (socket_new ''/'' JNull)) = None"
    by (simp add: socket_new_def)
  from acknowledgement_reaches_callback [OF x this, of 1 "JArray []" 2 JNull] x show ?thesis by blast
qed

text \<open>
  C22. Computing a deadline never overflows the clock: for every current time and every positive
  timeout, however large, the deadline lies between now and the largest representable time, no
  intermediate result leaves the 64-bit range, and it is not before now plus the timeout unless it
  is the largest representable time.
\<close>

theorem ack_deadline_in_range:
  assumes "0 \<le> t" and "t \<le> steady_max" and "0 < timeout"
  shows "t \<le> ack_deadline t timeout \<and> ack_deadline t timeout \<le> steady_max \<and>
     (ack_deadline t timeout = steady_max \<or>
      (ack_deadline t timeout = t + timeout * ticks_per_ms \<and> timeout * ticks_per_ms \<le> steady_max))"
proof (cases "(steady_max - t) div ticks_per_ms \<le> timeout")
  case False
  then have "timeout * ticks_per_ms \<le> (steady_max - t) div ticks_per_ms * ticks_per_ms"
    by (intro mult_right_mono) (auto simp: ticks_per_ms_def)
  also have "\<dots> \<le> steady_max - t" by (simp add: ticks_per_ms_def)
  finally show ?thesis using False assms by (simp add: ack_deadline_def Let_def ticks_per_ms_def)
qed (use assms in \<open>simp add: ack_deadline_def Let_def\<close>)

theorem ack_deadline_in_range_witness:
  "5 \<le> ack_deadline 5 (2 ^ 62) \<and> ack_deadline 5 (2 ^ 62) \<le> steady_max"
  using ack_deadline_in_range [of 5 "2 ^ 62"] by (simp add: steady_max_def)

end
