(* ===== verification/Url.thy ===== *)
theory Url
  imports Sioxx_Prelude
begin

text \<open>
  URL handling: splitting a WebSocket URL (\<^verbatim>\<open>src/url_parse.cpp\<close>) and building the Engine.IO
  endpoint from the address the application passes to \<^verbatim>\<open>client::connect\<close> and the options
  (\<^verbatim>\<open>src/engineio_url.cpp\<close>). A \<^verbatim>\<open>std::map\<close> of query parameters is the list of its entries in key
  order.
\<close>

section \<open>Definitions\<close>

record url_parts =
  url_scheme :: string
  url_host :: string
  url_port :: string
  url_target :: string
  url_tls :: bool

definition authority_colon :: "string \<Rightarrow> nat option" where
  "authority_colon authority =
     (case str_rfind CHR '':'' authority of
        None \<Rightarrow> None
      | Some colon \<Rightarrow>
          (case str_find CHR '']'' authority 0 of
             None \<Rightarrow> Some colon
           | Some bracket \<Rightarrow>
               (if bracket < colon then str_find CHR '':'' authority bracket else Some colon)))"

definition parse_ws_url :: "string \<Rightarrow> cpp_exn + url_parts" where
  "parse_ws_url url =
     (case str_find_sub ''://'' url of
        None \<Rightarrow> Inl (Invalid_argument (''sioxx: invalid url, missing scheme: '' @ url))
      | Some scheme_end \<Rightarrow>
          (let scheme = substr url 0 scheme_end;
               tls = (scheme = ''wss'' \<or> scheme = ''https'');
               host_start = scheme_end + 3;
               path_start = str_find CHR ''/'' url host_start;
               authority =
                 (case path_start of
                    None \<Rightarrow> drop host_start url
                  | Some path \<Rightarrow> substr url host_start (path - host_start));
               target = (case path_start of None \<Rightarrow> ''/'' | Some path \<Rightarrow> drop path url)
           in Inr (case authority_colon authority of
                Some colon \<Rightarrow>
                  \<lparr>url_scheme = scheme, url_host = substr authority 0 colon,
                   url_port = drop (colon + 1) authority, url_target = target, url_tls = tls\<rparr>
              | None \<Rightarrow>
                  \<lparr>url_scheme = scheme, url_host = authority,
                   url_port = (if tls then ''443'' else ''80''), url_target = target, url_tls = tls\<rparr>)))"

definition hex_digit :: "nat \<Rightarrow> char" where
  "hex_digit d = (if d < 10 then char_of (48 + d) else char_of (55 + d))"

definition is_unreserved :: "char \<Rightarrow> bool" where
  "is_unreserved ch \<longleftrightarrow> isalnum ch \<or> ch = CHR ''-'' \<or> ch = CHR ''.'' \<or> ch = CHR ''_'' \<or> ch = CHR ''~''"

definition encode_char :: "char \<Rightarrow> string" where
  "encode_char ch =
     (if is_unreserved ch then [ch]
      else [CHR ''%'', hex_digit (of_char ch div 16), hex_digit (of_char ch mod 16)])"

definition encode_query_component :: "string \<Rightarrow> string" where
  "encode_query_component value = concat (map encode_char value)"

definition is_reserved_key :: "string \<Rightarrow> bool" where
  "is_reserved_key key \<longleftrightarrow> key = ''EIO'' \<or> key = ''transport'' \<or> key = ''sid''"

fun append_query :: "string \<Rightarrow> (string \<times> string) list \<Rightarrow> cpp_exn + string" where
  "append_query base [] = Inr base"
| "append_query base ((key, value) # query) =
     (if is_reserved_key key
      then Inl (Invalid_argument (''sioxx: reserved Engine.IO query parameter: '' @ key))
      else append_query
             (base @ ''&'' @ encode_query_component key @ ''='' @ encode_query_component value) query)"

definition websocket_url :: "string \<Rightarrow> string" where
  "websocket_url uri =
     (let scheme = (case str_find_sub ''://'' uri of None \<Rightarrow> [] | Some scheme_end \<Rightarrow> substr uri 0 scheme_end)
      in if scheme = ''http'' then ''ws'' @ drop 4 uri
         else if scheme = ''https'' then ''wss'' @ drop 5 uri
         else if scheme \<noteq> ''ws'' \<and> scheme \<noteq> ''wss'' then ''ws://'' @ uri
         else uri)"

definition url_base :: "string \<Rightarrow> string" where
  "url_base url =
     (let authority_start = (case str_find_sub ''://'' url of None \<Rightarrow> 2 | Some i \<Rightarrow> i + 3);
          path_start = str_find CHR ''/'' url authority_start;
          query_start = str_find CHR ''?'' url authority_start;
          authority_end =
            min (case path_start of None \<Rightarrow> length url | Some i \<Rightarrow> i)
                (case query_start of None \<Rightarrow> length url | Some i \<Rightarrow> i)
      in substr url 0 authority_end)"

definition normalized_path :: "string \<Rightarrow> string" where
  "normalized_path path =
     (let p = (if path = [] then ''/socket.io/'' else path);
          p = (if hd p \<noteq> CHR ''/'' then CHR ''/'' # p else p)
      in if last p \<noteq> CHR ''/'' then p @ ''/'' else p)"

definition build_engineio_url ::
  "string \<Rightarrow> string \<Rightarrow> (string \<times> string) list \<Rightarrow> string \<Rightarrow> cpp_exn + string" where
  "build_engineio_url uri path query transport =
     append_query
       (url_base (websocket_url uri) @ normalized_path path
        @ ''?EIO=4&transport='' @ encode_query_component transport)
       query"

text \<open>
  Reference notions: a decoder for percent-encoded components, the WebSocket scheme that stands
  for each accepted scheme, and the query string of a parameter list.
\<close>

definition ws_scheme :: "string \<Rightarrow> string" where
  "ws_scheme s = (if s = ''http'' then ''ws'' else if s = ''https'' then ''wss'' else s)"

definition query_string :: "(string \<times> string) list \<Rightarrow> string" where
  "query_string query =
     concat (map (\<lambda>(k, v). ''&'' @ encode_query_component k @ ''='' @ encode_query_component v) query)"

definition hex_val :: "char \<Rightarrow> nat" where
  "hex_val c = (if isdigit c then of_char c - 48 else of_char c - 55)"

fun percent_decode :: "string \<Rightarrow> string" where
  "percent_decode [] = []"
| "percent_decode [c] = [c]"
| "percent_decode [c, d] = [c, d]"
| "percent_decode (c # d # e # s) =
     (if c = CHR ''%'' then char_of (hex_val d * 16 + hex_val e) # percent_decode s
      else c # percent_decode (d # e # s))"

section \<open>Splitting a URL\<close>

lemma str_rfind_hit:
  "c \<notin> set ys \<Longrightarrow> str_rfind c (xs @ c # ys) = Some (length xs)"
  by (simp add: str_rfind_def find_char_hit)

lemma str_rfind_None: "c \<notin> set xs \<Longrightarrow> str_rfind c xs = None"
  by (auto simp: str_rfind_def find_idx_None_iff)

lemma str_find_None: "c \<notin> set (drop n xs) \<Longrightarrow> str_find c xs n = None"
  by (auto simp: str_find_def find_idx_None_iff)

lemma str_find_append:
  "c \<notin> set ys \<Longrightarrow> str_find c (xs @ ys @ c # zs) (length xs) = Some (length xs + length ys)"
  by (simp add: str_find_def find_char_hit)

text \<open>A URL is split at its first \<^verbatim>\<open>://\<close> and at the first slash after it.\<close>

lemma parse_ws_url_split:
  assumes "CHR '':'' \<notin> set scheme" and "CHR ''/'' \<notin> set authority"
    and "rest = [] \<or> hd rest = CHR ''/''"
  shows "parse_ws_url (scheme @ ''://'' @ authority @ rest) =
     (let tls = (scheme = ''wss'' \<or> scheme = ''https'');
          target = (if rest = [] then ''/'' else rest)
      in Inr (case authority_colon authority of
           Some colon \<Rightarrow>
             \<lparr>url_scheme = scheme, url_host = take colon authority,
              url_port = drop (colon + 1) authority, url_target = target, url_tls = tls\<rparr>
         | None \<Rightarrow>
             \<lparr>url_scheme = scheme, url_host = authority,
              url_port = (if tls then ''443'' else ''80''), url_target = target, url_tls = tls\<rparr>))"
proof -
  have scheme_end: "str_find_sub ''://'' (scheme @ ''://'' @ authority @ rest) = Some (length scheme)"
    using str_find_sub_hit [OF assms(1), of "''//''" "authority @ rest"] by simp
  have path: "str_find CHR ''/'' (scheme @ ''://'' @ authority @ rest) (length scheme + 3) =
      (if rest = [] then None else Some (length scheme + 3 + length authority))"
  proof (cases rest)
    case Nil
    with assms(2) show ?thesis by (simp add: str_find_None)
  next
    case (Cons c r)
    with assms str_find_append [OF assms(2), of "scheme @ ''://''" r] show ?thesis
      by (simp add: numeral_3_eq_3)
  qed
  let ?url = "scheme @ ''://'' @ authority @ rest" and ?h = "length scheme + 3"
  have auth: "(case (if rest = [] then None else Some (?h + length authority)) of
      None \<Rightarrow> drop ?h ?url | Some path \<Rightarrow> substr ?url ?h (path - ?h)) = authority"
    by (simp add: substr_def)
  have target: "(case (if rest = [] then None else Some (?h + length authority)) of
      None \<Rightarrow> ''/'' | Some path \<Rightarrow> drop path ?url) = (if rest = [] then ''/'' else rest)"
    by (simp add: numeral_3_eq_3)
  have scheme: "substr ?url 0 (length scheme) = scheme" by (simp add: substr_def)
  show ?thesis
    unfolding parse_ws_url_def scheme_end option.case Let_def path auth target scheme
    by (simp add: substr_def split: option.split)
qed

lemma authority_colon_plain:
  assumes "CHR '':'' \<notin> set host" and "CHR '':'' \<notin> set port" and "CHR '']'' \<notin> set host"
    and "CHR '']'' \<notin> set port"
  shows "authority_colon (host @ '':'' @ port) = Some (length host)"
    and "authority_colon host = None"
  using assms
  by (simp_all add: authority_colon_def str_rfind_hit str_rfind_None str_find_None)

lemma authority_colon_ipv6:
  assumes "CHR '']'' \<notin> set addr" and "CHR '':'' \<notin> set port"
  shows "authority_colon (CHR ''['' # addr @ '']:'' @ port) = Some (length addr + 2)"
proof -
  have rf: "str_rfind CHR '':'' ((CHR ''['' # addr @ '']'') @ CHR '':'' # port) =
      Some (length (CHR ''['' # addr @ '']''))"
    by (rule str_rfind_hit) (rule assms)
  have fb: "find_idx ((=) CHR '']'') ((CHR ''['' # addr) @ CHR '']'' # CHR '':'' # port) =
      Some (length (CHR ''['' # addr))"
    using assms(1) by (intro find_idx_hit) auto
  have fc: "str_find CHR '':'' ((CHR ''['' # addr) @ '']'' @ CHR '':'' # port)
      (length (CHR ''['' # addr)) = Some (length (CHR ''['' # addr) + length '']'')"
    by (rule str_find_append) simp
  from rf fb fc show ?thesis by (simp add: authority_colon_def str_find_0)
qed

section \<open>Percent encoding\<close>

lemma of_char_less: "(of_char c :: nat) < 256"
  using of_char_mod_256 [of c, where 'a = nat] by (metis mod_less_divisor zero_less_numeral)

lemma nibbles: "(of_char c :: nat) div 16 < 16" "(of_char c :: nat) mod 16 < 16"
  using of_char_less [of c] by (simp_all add: less_mult_imp_div_less)

lemma hex_digit_val: "d < 16 \<Longrightarrow> hex_val (hex_digit d) = d"
  by (auto simp: hex_digit_def hex_val_def isdigit_iff)

lemma hex_digit_alnum: "d < 16 \<Longrightarrow> isalnum (hex_digit d)"
  by (auto simp: hex_digit_def isalnum_def isdigit_iff less_eq_char_def)

lemma percent_decode_plain: "c \<noteq> CHR ''%'' \<Longrightarrow> percent_decode (c # s) = c # percent_decode s"
  by (cases s rule: percent_decode.cases) auto

lemma percent_decode_encode_char:
  "percent_decode (encode_char c @ s) = c # percent_decode s"
proof (cases "is_unreserved c")
  case True
  then have "c \<noteq> CHR ''%''" by (auto simp: is_unreserved_def isalnum_def isdigit_def)
  with True show ?thesis by (simp add: encode_char_def percent_decode_plain)
next
  case False
  then show ?thesis by (simp add: encode_char_def hex_digit_val nibbles)
qed

lemma percent_decode_encode: "percent_decode (encode_query_component s) = s"
  by (induction s) (simp_all add: encode_query_component_def percent_decode_encode_char)

lemma encode_char_charset: "\<forall>c \<in> set (encode_char ch). isalnum c \<or> c \<in> set ''-._~%''"
  by (auto simp: encode_char_def is_unreserved_def hex_digit_alnum nibbles)

section \<open>The endpoint\<close>

lemma append_query_eq:
  "append_query base query =
     (case find (\<lambda>kv. is_reserved_key (fst kv)) query of
        None \<Rightarrow> Inr (base @ query_string query)
      | Some kv \<Rightarrow> Inl (Invalid_argument (''sioxx: reserved Engine.IO query parameter: '' @ fst kv)))"
  by (induction base query rule: append_query.induct) (auto simp: query_string_def split: option.splits)

lemma websocket_url_scheme:
  assumes "scheme \<in> {''ws'', ''wss'', ''http'', ''https''}"
  shows "websocket_url (scheme @ ''://'' @ rest) = ws_scheme scheme @ ''://'' @ rest"
proof -
  have "str_find_sub ''://'' (scheme @ ''://'' @ rest) = Some (length scheme)"
    using str_find_sub_hit [of "CHR '':''" scheme "''//''" rest] assms by auto
  with assms show ?thesis by (auto simp: websocket_url_def ws_scheme_def substr_def)
qed

lemma url_base_split:
  assumes "CHR '':'' \<notin> set scheme" and "CHR ''/'' \<notin> set authority" and "CHR ''?'' \<notin> set authority"
    and "rest = [] \<or> hd rest = CHR ''/'' \<or> hd rest = CHR ''?''"
  shows "url_base (scheme @ ''://'' @ authority @ rest) = scheme @ ''://'' @ authority"
proof -
  let ?url = "scheme @ ''://'' @ authority @ rest" and ?h = "length scheme + 3"
  have start: "str_find_sub ''://'' ?url = Some (length scheme)"
    using str_find_sub_hit [OF assms(1), of "''//''" "authority @ rest"] by simp
  have find: "str_find c ?url ?h =
      map_option (\<lambda>i. ?h + length authority + i) (find_idx ((=) c) rest)" if "c \<notin> set authority" for c
  proof -
    have "drop ?h ?url = authority @ rest" by (simp add: numeral_3_eq_3)
    moreover have "find_idx ((=) c) (authority @ rest) =
        map_option (\<lambda>i. length authority + i) (find_idx ((=) c) rest)"
      using that by (intro find_idx_append) auto
    ultimately show ?thesis by (simp add: str_find_def option.map_comp comp_def add.assoc)
  qed
  have "min (case str_find CHR ''/'' ?url ?h of None \<Rightarrow> length ?url | Some i \<Rightarrow> i)
      (case str_find CHR ''?'' ?url ?h of None \<Rightarrow> length ?url | Some i \<Rightarrow> i) = ?h + length authority"
    using assms find [OF assms(2)] find [OF assms(3)]
    by (cases rest) (auto split: option.splits)
  then show ?thesis
    unfolding url_base_def Let_def start option.case
    by (simp add: substr_def numeral_3_eq_3)
qed

section \<open>Properties\<close>

text \<open>
  C23. For an address with one of the accepted schemes and a host and port (a registered name or
  IPv4 address), the endpoint that \<^verbatim>\<open>build_engineio_url\<close> produces is one the transports split
  correctly: the same host and port, TLS exactly for \<^verbatim>\<open>wss\<close> and \<^verbatim>\<open>https\<close>, and a request target
  that consists of the configured path with its slashes completed, the Engine.IO parameters and
  the encoded query, whatever path or query the address itself had.
\<close>

theorem engineio_endpoint_splits:
  assumes "scheme \<in> {''ws'', ''wss'', ''http'', ''https''}"
    and "\<forall>c \<in> set '':]/?''. c \<notin> set host \<and> c \<notin> set port"
    and "rest = [] \<or> hd rest = CHR ''/'' \<or> hd rest = CHR ''?''"
    and "\<forall>kv \<in> set query. \<not> is_reserved_key (fst kv)"
  shows "\<exists>url. build_engineio_url (scheme @ ''://'' @ host @ '':'' @ port @ rest) path query transport = Inr url
     \<and> parse_ws_url url =
         Inr \<lparr>url_scheme = ws_scheme scheme, url_host = host, url_port = port,
              url_target = normalized_path path @ ''?EIO=4&transport=''
                @ encode_query_component transport @ query_string query,
              url_tls = (scheme = ''wss'' \<or> scheme = ''https'')\<rparr>"
proof -
  let ?auth = "host @ '':'' @ port"
  let ?target = "normalized_path path @ ''?EIO=4&transport=''
      @ encode_query_component transport @ query_string query"
  have auth: "CHR ''/'' \<notin> set ?auth" "CHR ''?'' \<notin> set ?auth" using assms(2) by auto
  have scheme: "CHR '':'' \<notin> set (ws_scheme scheme)" using assms(1) by (auto simp: ws_scheme_def)
  have slash: "normalized_path path \<noteq> [] \<and> hd (normalized_path path) = CHR ''/''"
    by (auto simp: normalized_path_def Let_def hd_append)
  have "websocket_url (scheme @ ''://'' @ ?auth @ rest) = ws_scheme scheme @ ''://'' @ ?auth @ rest"
    by (rule websocket_url_scheme [OF assms(1)])
  moreover have "url_base (ws_scheme scheme @ ''://'' @ ?auth @ rest) = ws_scheme scheme @ ''://'' @ ?auth"
    by (rule url_base_split [OF scheme auth assms(3)])
  moreover have "find (\<lambda>kv. is_reserved_key (fst kv)) query = None"
    using assms(4) by (auto simp: find_None_iff)
  ultimately have "build_engineio_url (scheme @ ''://'' @ host @ '':'' @ port @ rest) path query transport
      = Inr (ws_scheme scheme @ ''://'' @ ?auth @ ?target)"
    by (simp add: build_engineio_url_def append_query_eq)
  moreover have "parse_ws_url (ws_scheme scheme @ ''://'' @ ?auth @ ?target) =
      Inr \<lparr>url_scheme = ws_scheme scheme, url_host = host, url_port = port, url_target = ?target,
           url_tls = (ws_scheme scheme = ''wss'' \<or> ws_scheme scheme = ''https'')\<rparr>"
    using slash assms(2)
    by (subst parse_ws_url_split [OF scheme auth(1)])
      (simp_all add: authority_colon_plain [simplified] Let_def)
  ultimately show ?thesis using assms(1) by (auto simp: ws_scheme_def)
qed

theorem engineio_endpoint_splits_witness:
  "\<exists>url. build_engineio_url (''https'' @ ''://'' @ ''example.com'' @ '':'' @ ''8443'' @ ''/old?x=1'')
       ''realtime'' [(''token'', ''a&b'')] ''websocket'' = Inr url
     \<and> parse_ws_url url =
         Inr \<lparr>url_scheme = ws_scheme ''https'', url_host = ''example.com'', url_port = ''8443'',
              url_target = normalized_path ''realtime'' @ ''?EIO=4&transport=''
                @ encode_query_component ''websocket'' @ query_string [(''token'', ''a&b'')],
              url_tls = (''https'' = ''wss'' \<or> ''https'' = ''https'')\<rparr>"
  by (rule engineio_endpoint_splits) (simp_all add: is_reserved_key_def)

text \<open>
  Query components are transported faithfully and cannot break out of their place: the
  encoding of any byte string is inverted by percent-decoding, and contains only letters, digits
  and the characters \<^verbatim>\<open>- . _ ~ %\<close>, hence no separator of the query or of the URL.
\<close>

theorem query_component_faithful:
  "percent_decode (encode_query_component s) = s
   \<and> list_all (\<lambda>c. isalnum c \<or> c \<in> set ''-._~%'') (encode_query_component s)"
  using encode_char_charset
  by (intro conjI percent_decode_encode) (auto simp: encode_query_component_def list_all_iff)

text \<open>
  A reserved Engine.IO parameter among the application's query parameters is refused, and
  nothing else is: the result is the error for the first reserved key in key order, or the URL
  extended by every parameter in key order.
\<close>

theorem reserved_parameters_refused:
  "build_engineio_url uri path query transport =
     (case find (\<lambda>kv. is_reserved_key (fst kv)) query of
        Some kv \<Rightarrow> Inl (Invalid_argument (''sioxx: reserved Engine.IO query parameter: '' @ fst kv))
      | None \<Rightarrow>
          Inr (url_base (websocket_url uri) @ normalized_path path @ ''?EIO=4&transport=''
               @ encode_query_component transport @ query_string query))"
  by (simp add: build_engineio_url_def append_query_eq split: option.split)

text \<open>
  C24. An IPv6 literal without a port is misread: it is cut at its last colon, because the bracket is
  only looked for to the left of that colon. The host loses its end and the port is not a number.
\<close>

theorem ipv6_without_port_misread:
  assumes "CHR '']'' \<notin> set (a @ b)" and "CHR '':'' \<notin> set b" and "CHR ''/'' \<notin> set (a @ b)"
  shows "parse_ws_url (''ws://['' @ a @ '':'' @ b @ '']'') =
     Inr \<lparr>url_scheme = ''ws'', url_host = CHR ''['' # a, url_port = b @ '']'', url_target = ''/'',
          url_tls = False\<rparr>"
proof -
  let ?auth = "(CHR ''['' # a) @ CHR '':'' # (b @ '']'')"
  have rf: "str_rfind CHR '':'' ?auth = Some (length (CHR ''['' # a))"
    by (rule str_rfind_hit) (use assms in simp)
  have "find_idx ((=) CHR '']'') ((CHR ''['' # a @ '':'' @ b) @ CHR '']'' # []) =
      Some (length (CHR ''['' # a @ '':'' @ b))"
    using assms by (intro find_char_hit) auto
  then have "authority_colon ?auth = Some (length (CHR ''['' # a))"
    using rf by (simp add: authority_colon_def str_find_0)
  then show ?thesis
    using parse_ws_url_split [of "''ws''" ?auth "[]"] assms by simp
qed

theorem ipv6_without_port_misread_witness:
  "parse_ws_url (''ws://['' @ ''2001:db8:'' @ '':'' @ ''1'' @ '']'') =
     Inr \<lparr>url_scheme = ''ws'', url_host = ''[2001:db8:'', url_port = ''1]'', url_target = ''/'', url_tls = False\<rparr>"
  using ipv6_without_port_misread [of "''2001:db8:''" "''1''"] by simp

end
