(* ===== verification/Base64_Proxy.thy ===== *)
theory Base64_Proxy
  imports Url
begin

unbundle bit_operations_syntax

text \<open>
  Base64, the HTTP proxy configuration (\<^verbatim>\<open>src/proxy.cpp\<close>) and the Engine.IO polling payload format
  (\<^verbatim>\<open>src/polling_protocol.hpp\<close>, implemented at the top of \<^verbatim>\<open>src/http_polling_transport.cpp\<close>). The
  24-bit groups are computed on 32-bit words as in the source.
\<close>

section \<open>Definitions\<close>

definition base64 :: string where
  "base64 = ''ABCDEFGHIJKLMNOPQRSTUVWXYZabcdefghijklmnopqrstuvwxyz0123456789+/''"

definition octet :: "char \<Rightarrow> 32 word" where
  "octet c = word_of_nat (of_char c)"

definition sextet_char :: "32 word \<Rightarrow> nat \<Rightarrow> char" where
  "sextet_char value k = base64 ! unat (drop_bit k value AND 63)"

fun base64_encode :: "string \<Rightarrow> string" where
  "base64_encode [] = []"
| "base64_encode [a] =
     (let value = push_bit 16 (octet a)
      in [sextet_char value 18, sextet_char value 12, CHR ''='', CHR ''=''])"
| "base64_encode [a, b] =
     (let value = push_bit 16 (octet a) OR push_bit 8 (octet b)
      in [sextet_char value 18, sextet_char value 12, sextet_char value 6, CHR ''=''])"
| "base64_encode (a # b # c # input) =
     (let value = push_bit 16 (octet a) OR push_bit 8 (octet b) OR octet c
      in [sextet_char value 18, sextet_char value 12, sextet_char value 6, sextet_char value 0]
         @ base64_encode input)"

definition base64_value :: "char \<Rightarrow> int" where
  "base64_value c =
     (if CHR ''A'' \<le> c \<and> c \<le> CHR ''Z'' then of_char c - of_char CHR ''A''
      else if CHR ''a'' \<le> c \<and> c \<le> CHR ''z'' then of_char c - of_char CHR ''a'' + 26
      else if CHR ''0'' \<le> c \<and> c \<le> CHR ''9'' then of_char c - of_char CHR ''0'' + 52
      else if c = CHR ''+'' then 62
      else if c = CHR ''/'' then 63
      else - 1)"

definition octet_char :: "32 word \<Rightarrow> nat \<Rightarrow> char" where
  "octet_char value k = char_of (unat (drop_bit k value AND 255))"

definition decode_group :: "char \<Rightarrow> char \<Rightarrow> char \<Rightarrow> char \<Rightarrow> string option" where
  "decode_group i0 i1 i2 i3 =
     (let a = base64_value i0; b = base64_value i1;
          c = (if i2 = CHR ''='' then 0 else base64_value i2);
          d = (if i3 = CHR ''='' then 0 else base64_value i3)
      in if a < 0 \<or> b < 0 \<or> c < 0 \<or> d < 0 then None
         else
           let value = push_bit 18 (of_int a) OR push_bit 12 (of_int b) OR push_bit 6 (of_int c)
                 OR of_int d
           in Some (octet_char value 16
                # (if i2 \<noteq> CHR ''='' then [octet_char value 8] else [])
                @ (if i3 \<noteq> CHR ''='' then [octet_char value 0] else [])))"

fun decode_groups :: "string \<Rightarrow> string option" where
  "decode_groups (i0 # i1 # i2 # i3 # input) =
     (case decode_group i0 i1 i2 i3 of
        None \<Rightarrow> None
      | Some out \<Rightarrow> map_option (\<lambda>rest. out @ rest) (decode_groups input))"
| "decode_groups _ = Some []"

definition base64_decode :: "string \<Rightarrow> string option" where
  "base64_decode input = (if length input mod 4 \<noteq> 0 then None else decode_groups input)"

definition polling_encode_binary :: "string \<Rightarrow> string" where
  "polling_encode_binary payload = CHR ''b'' # base64_encode payload"

definition polling_decode_binary :: "string \<Rightarrow> string option" where
  "polling_decode_binary packet =
     (if packet \<noteq> [] \<and> hd packet = CHR ''b'' then base64_decode (tl packet) else None)"

definition record_separator :: char where
  "record_separator = char_of (30 :: nat)"

function polling_split_payload :: "string \<Rightarrow> string list" where
  "polling_split_payload payload =
     (case find_idx ((=) record_separator) payload of
        None \<Rightarrow> (if payload \<noteq> [] then [payload] else [])
      | Some separator \<Rightarrow>
          (if 0 < separator then [take separator payload] else [])
          @ polling_split_payload (drop (separator + 1) payload))"
  by pat_completeness auto
termination
  by (relation "measure length") (auto dest: find_idx_less)

declare polling_split_payload.simps [simp del]

record proxy_config =
  endpoint :: url_parts
  authorization :: string

definition make_proxy_config :: "string \<Rightarrow> string \<Rightarrow> string \<Rightarrow> cpp_exn + proxy_config option" where
  "make_proxy_config uri username password =
     (if uri = [] then Inr None
      else if (case str_find_sub ''://'' uri of
                 None \<Rightarrow> False
               | Some scheme_end \<Rightarrow> str_find_first_of ''?#'' uri (scheme_end + 3) \<noteq> None)
      then Inl (Invalid_argument ''sioxx: proxy URI must not contain a query or fragment'')
      else
        (case parse_ws_url uri of
           Inl e \<Rightarrow> Inl e
         | Inr ep \<Rightarrow>
             (if url_scheme ep \<noteq> ''http''
              then Inl (Invalid_argument ''sioxx: proxy URI must use http://'')
              else if url_target ep \<noteq> ''/''
              then Inl (Invalid_argument ''sioxx: proxy URI must not contain a path'')
              else
                Inr (Some \<lparr>endpoint = ep,
                     authorization =
                       (if username \<noteq> [] \<or> password \<noteq> []
                        then ''Basic '' @ base64_encode (username @ '':'' @ password) else [])\<rparr>))))"

definition authority :: "url_parts \<Rightarrow> string" where
  "authority url =
     (let default_port = (\<not> url_tls url \<and> url_port url = ''80'') \<or> (url_tls url \<and> url_port url = ''443'')
      in if default_port then url_host url else url_host url @ '':'' @ url_port url)"

definition connect_authority :: "url_parts \<Rightarrow> string" where
  "connect_authority url = url_host url @ '':'' @ url_port url"

definition absolute_http_target :: "url_parts \<Rightarrow> string \<Rightarrow> string" where
  "absolute_http_target url target =
     (if url_tls url then ''https://'' else ''http://'') @ authority url @ target"

text \<open>Reference notion: packets joined by the record separator.\<close>

fun polling_join :: "string list \<Rightarrow> string" where
  "polling_join [] = []"
| "polling_join [p] = p"
| "polling_join (p # q # ps) = p @ record_separator # polling_join (q # ps)"

section \<open>Base64\<close>

lemma length_base64 [simp]: "length base64 = 64"
  by (simp add: base64_def)

lemma base64_values: "map base64_value base64 = map int [0..<64]"
  by (simp add: base64_def base64_value_def less_eq_char_def; code_simp)

lemma base64_value_nth: "i < 64 \<Longrightarrow> base64_value (base64 ! i) = int i"
  using base64_values nth_map [of i base64 base64_value] by simp

lemma base64_no_pad: "i < 64 \<Longrightarrow> base64 ! i \<noteq> CHR ''=''"
  using base64_value_nth [of i] by (auto simp: base64_value_def less_eq_char_def)

lemma sextet_less: "unat (w AND 63 :: 32 word) < 64"
proof -
  have "w AND 63 = take_bit 6 w" by (simp add: take_bit_eq_mask mask_eq_exp_minus_1)
  then show ?thesis
    by (simp add: unsigned_take_bit_eq take_bit_nat_less_exp [of 6, simplified])
qed

lemma base64_value_sextet:
  "base64_value (sextet_char value k) = uint (drop_bit k value AND 63)"
  by (simp add: sextet_char_def base64_value_nth [OF sextet_less])

lemma sextet_not_pad: "sextet_char value k \<noteq> CHR ''=''"
  by (simp add: sextet_char_def base64_no_pad [OF sextet_less])

lemma mask_63: "(63 :: 32 word) = mask 6" and mask_255: "(255 :: 32 word) = mask 8"
  by (simp_all add: mask_eq_exp_minus_1)

lemma bit_octet: "bit (octet c) n \<Longrightarrow> n < 8"
proof -
  have "take_bit 8 (of_char c) = (of_char c :: nat)"
    using of_char_less [of c] by (simp add: take_bit_nat_eq_self_iff)
  moreover assume "bit (octet c) n"
  then have "bit (of_char c :: nat) n" by (simp add: octet_def bit_simps)
  ultimately show ?thesis by (metis bit_take_bit_iff)
qed

lemma char_of_octet: "char_of (unat (octet c)) = c"
proof -
  have "(of_char c :: nat) < 2 ^ 32" using of_char_less by (rule less_trans) simp
  then show ?thesis by (simp add: octet_def unat_of_nat)
qed

lemma reassemble:
  "push_bit 18 (drop_bit 18 v AND 63) OR push_bit 12 (drop_bit 12 v AND 63)
     OR push_bit 6 (drop_bit 6 v AND 63) OR (v AND 63) = take_bit 24 (v :: 32 word)"
  unfolding mask_63
proof (rule bit_word_eqI)
  fix n
  show "bit (push_bit 18 (drop_bit 18 v AND mask 6) OR push_bit 12 (drop_bit 12 v AND mask 6)
      OR push_bit 6 (drop_bit 6 v AND mask 6) OR (v AND mask 6)) n = bit (take_bit 24 v) n"
    by (cases "n < 6"; cases "n < 12"; cases "n < 18") (auto simp: bit_simps)
qed

lemma group_octets:
  assumes "v = push_bit 16 (octet a) OR push_bit 8 (octet b) OR octet c"
  shows "drop_bit 16 v AND 255 = octet a" "drop_bit 8 v AND 255 = octet b" "v AND 255 = octet c"
    "take_bit 24 v = v"
  unfolding mask_255 assms
  by (rule bit_word_eqI; auto simp: bit_simps dest: bit_octet)+

lemma octet_zero: "octet (char_of (0 :: nat)) = 0"
  by (simp add: octet_def)

lemma decode_full_group:
  assumes v: "v = push_bit 16 (octet a) OR push_bit 8 (octet b) OR octet c"
  shows "decode_group (sextet_char v 18) (sextet_char v 12) (sextet_char v 6) (sextet_char v 0) =
     Some [a, b, c]"
  using reassemble [of v] group_octets [OF v]
  by (simp add: decode_group_def base64_value_sextet sextet_not_pad octet_char_def char_of_octet Let_def)

lemma decode_two_octets:
  assumes v: "v = push_bit 16 (octet a) OR push_bit 8 (octet b)"
  shows "decode_group (sextet_char v 18) (sextet_char v 12) (sextet_char v 6) CHR ''='' = Some [a, b]"
proof -
  have v0: "v = push_bit 16 (octet a) OR push_bit 8 (octet b) OR octet (char_of (0 :: nat))"
    by (simp add: v octet_zero)
  have "v AND 63 = 0"
    unfolding v mask_63 by (rule bit_word_eqI) (auto simp: bit_simps)
  with reassemble [of v] group_octets [OF v0] show ?thesis
    by (simp add: decode_group_def base64_value_sextet sextet_not_pad octet_char_def char_of_octet Let_def)
qed

lemma decode_one_octet:
  assumes v: "v = push_bit 16 (octet a)"
  shows "decode_group (sextet_char v 18) (sextet_char v 12) CHR ''='' CHR ''='' = Some [a]"
proof -
  have v0: "v = push_bit 16 (octet a) OR push_bit 8 (octet (char_of (0 :: nat))) OR octet (char_of (0 :: nat))"
    by (simp add: v octet_zero)
  have "v AND 63 = 0" "drop_bit 6 v AND 63 = 0"
    unfolding v mask_63 by (rule bit_word_eqI; auto simp: bit_simps)+
  with reassemble [of v] group_octets [OF v0] show ?thesis
    by (simp add: decode_group_def base64_value_sextet sextet_not_pad octet_char_def char_of_octet Let_def)
qed

lemma length_base64_encode: "length (base64_encode s) = (length s + 2) div 3 * 4"
proof (induction s rule: base64_encode.induct)
  case (4 a b c input)
  have "(length input + 3 + 2) div 3 = Suc ((length input + 2) div 3)" by presburger
  with 4 show ?case by (simp add: Let_def)
qed (simp_all add: Let_def)

lemma base64_roundtrip: "base64_decode (base64_encode s) = Some s"
proof -
  have "decode_groups (base64_encode s) = Some s"
    by (induction s rule: base64_encode.induct)
      (simp_all add: Let_def decode_full_group decode_two_octets decode_one_octet)
  then show ?thesis by (simp add: base64_decode_def length_base64_encode)
qed

section \<open>Polling payloads\<close>

lemma split_no_separator:
  "record_separator \<notin> set p \<Longrightarrow> polling_split_payload p = (if p = [] then [] else [p])"
  by (subst polling_split_payload.simps)
    (auto simp: find_idx_None_iff [THEN iffD2] split: option.splits dest!: find_idx_Some_split)

lemma split_separator:
  assumes "record_separator \<notin> set p"
  shows "polling_split_payload (p @ record_separator # rest) =
     (if p = [] then [] else [p]) @ polling_split_payload rest"
  using assms by (subst polling_split_payload.simps) (simp add: find_char_hit)

lemma split_join:
  "\<forall>p \<in> set ps. p \<noteq> [] \<and> record_separator \<notin> set p \<Longrightarrow> polling_split_payload (polling_join ps) = ps"
  by (induction ps rule: polling_join.induct)
    (auto simp: split_no_separator split_separator)

lemma split_packets:
  "\<forall>p \<in> set (polling_split_payload s). p \<noteq> [] \<and> record_separator \<notin> set p"
proof (induction s rule: polling_split_payload.induct)
  case (1 payload)
  show ?case
  proof (cases "find_idx ((=) record_separator) payload")
    case None
    then have "record_separator \<notin> set payload" by (auto simp: find_idx_None_iff)
    then show ?thesis by (simp add: split_no_separator)
  next
    case (Some i)
    from find_idx_Some_split [OF Some] obtain us ws where "payload = us @ record_separator # ws"
      and "length us = i" and "record_separator \<notin> set us" by auto
    with Some 1 show ?thesis by (subst polling_split_payload.simps) auto
  qed
qed

section \<open>Proxy addresses\<close>

lemma parse_ws_url_tls:
  "parse_ws_url url = Inr u \<Longrightarrow> url_tls u \<longleftrightarrow> url_scheme u = ''wss'' \<or> url_scheme u = ''https''"
  by (auto simp: parse_ws_url_def Let_def split: option.splits)

lemma parse_authority:
  assumes "\<forall>c \<in> set '':]/?''. c \<notin> set (url_host u) \<and> c \<notin> set (url_port u)"
    and "t \<noteq> []" and "hd t = CHR ''/''"
  shows "parse_ws_url ((if url_tls u then ''https://'' else ''http://'') @ authority u @ t) =
     Inr \<lparr>url_scheme = (if url_tls u then ''https'' else ''http''), url_host = url_host u,
          url_port = url_port u, url_target = t, url_tls = url_tls u\<rparr>"
proof -
  let ?s = "if url_tls u then ''https'' else ''http''"
  have s: "CHR '':'' \<notin> set ?s" by simp
  have a: "CHR ''/'' \<notin> set (authority u)" using assms(1) by (auto simp: authority_def Let_def)
  have "parse_ws_url (?s @ ''://'' @ authority u @ t) =
     Inr \<lparr>url_scheme = ?s, url_host = url_host u,
          url_port = url_port u, url_target = t, url_tls = url_tls u\<rparr>"
    using assms authority_colon_plain [of "url_host u" "url_port u"]
    by (subst parse_ws_url_split [OF s a]; cases "url_tls u") (auto simp: Let_def authority_def)
  then show ?thesis by (simp split: if_splits)
qed

section \<open>Properties\<close>

text \<open>
  Binary packets survive HTTP polling: every payload of a binary message, encoded for a POST
  body and decoded from a GET body, is recovered byte for byte.
\<close>

theorem polling_binary_roundtrip:
  "polling_decode_binary (polling_encode_binary payload) = Some payload"
  by (simp add: polling_decode_binary_def polling_encode_binary_def base64_roundtrip)

text \<open>
  The packets of a polling response are recovered exactly: joining non-empty packets that do
  not contain the record separator and splitting the result gives the packets back, in order.
\<close>

theorem polling_split_join:
  assumes "\<forall>p \<in> set ps. p \<noteq> [] \<and> record_separator \<notin> set p"
  shows "polling_split_payload (polling_join ps) = ps"
  by (rule split_join [OF assms])

theorem polling_split_join_witness:
  "polling_split_payload (polling_join [''0{}'', polling_encode_binary ''xy'', ''2'']) =
     [''0{}'', polling_encode_binary ''xy'', ''2'']"
  by (rule polling_split_join)
    (simp add: record_separator_def polling_encode_binary_def Let_def sextet_char_def octet_def base64_def
      char_of_eq_iff)

text \<open>
  A request through an HTTP proxy names the right server: parsing the absolute request target
  that is put into the request line gives back the endpoint's host, port and security and the
  requested path, although the default port of the scheme is left out.
\<close>

theorem absolute_target_names_endpoint:
  assumes "\<forall>c \<in> set '':]/?''. c \<notin> set (url_host u) \<and> c \<notin> set (url_port u)"
    and "target \<noteq> []" and "hd target = CHR ''/''"
  shows "parse_ws_url (absolute_http_target u target) =
     Inr \<lparr>url_scheme = (if url_tls u then ''https'' else ''http''), url_host = url_host u,
          url_port = url_port u, url_target = target, url_tls = url_tls u\<rparr>"
  unfolding absolute_http_target_def by (rule parse_authority [OF assms])

theorem absolute_target_names_endpoint_witness:
  "parse_ws_url (absolute_http_target
       \<lparr>url_scheme = ''ws'', url_host = ''h'', url_port = ''80'', url_target = ''/x'', url_tls = False\<rparr> ''/y?a'') =
     Inr \<lparr>url_scheme = ''http'', url_host = ''h'', url_port = ''80'', url_target = ''/y?a'', url_tls = False\<rparr>"
  using absolute_target_names_endpoint [of
      "\<lparr>url_scheme = ''ws'', url_host = ''h'', url_port = ''80'', url_target = ''/x'', url_tls = False\<rparr>" "''/y?a''"]
  by simp

text \<open>
  The proxy settings that are accepted are exactly the \<^verbatim>\<open>http\<close> addresses without path, query
  and fragment, the endpoint is the parsed address, and the credentials are neither lost nor
  invented: without user name and password no header is sent, otherwise the header decodes to
  \<^verbatim>\<open>user:password\<close>.
\<close>

theorem proxy_config_accepted:
  "make_proxy_config uri username password = Inr (Some cfg) \<longleftrightarrow>
     uri \<noteq> [] \<and> parse_ws_url uri = Inr (endpoint cfg) \<and>
     url_scheme (endpoint cfg) = ''http'' \<and> \<not> url_tls (endpoint cfg) \<and> url_target (endpoint cfg) = ''/'' \<and>
     (case str_find_sub ''://'' uri of
        None \<Rightarrow> True | Some i \<Rightarrow> str_find_first_of ''?#'' uri (i + 3) = None) \<and>
     (if username = [] \<and> password = [] then authorization cfg = []
      else \<exists>code. authorization cfg = ''Basic '' @ code \<and> code = base64_encode (username @ '':'' @ password) \<and>
             base64_decode code = Some (username @ '':'' @ password))"
proof -
  have cfg: "\<lparr>endpoint = ep, authorization = a\<rparr> = cfg \<longleftrightarrow> ep = endpoint cfg \<and> a = authorization cfg" for ep a
    by (cases cfg) auto
  show ?thesis
    using parse_ws_url_tls [of uri "endpoint cfg"]
    unfolding make_proxy_config_def
    by (cases "parse_ws_url uri"; cases "str_find_sub ''://'' uri") (auto simp: cfg base64_roundtrip)
qed

end
