(* ===== verification/Engineio_Client.thy ===== *)
theory Engineio_Client
  imports Sioxx_Message
begin

text \<open>
  The Engine.IO layer (\<^verbatim>\<open>src/engineio_client.cpp\<close>, \<^verbatim>\<open>src/engineio_client.hpp\<close>): the open handshake, the
  framing of messages, and the heartbeat thread that watches for the server's pings.

  The transport invokes the handlers one at a time, so each operation is a function on the state
  that returns the calls it makes, in order: to the transport, and to the handlers the client has
  installed. \<open>hb\<close> is the place of the heartbeat thread in its loop, \<open>hb_joinable\<close> whether
  \<^verbatim>\<open>heartbeat_thread_\<close> holds a thread. Joining the thread lets it run to its end; assigning a new
  thread to a joinable one terminates the process. Times are in milliseconds.
\<close>

section \<open>Definitions\<close>

datatype hb_state =
    Hb_head
  | Hb_wait int int
  | Hb_expired
  | Hb_exit

record engineio =
  has_transport :: bool
  eio_open :: bool
  eio_closing :: bool
  hb_stop_requested :: bool
  session_id :: string
  ping_interval :: int
  ping_timeout :: int
  last_pong :: int
  hb :: hb_state
  hb_joinable :: bool
  has_on_frame :: bool
  has_on_open :: bool
  has_on_close :: bool
  has_on_error :: bool

datatype eio_out =
    Frame_out string bool
  | Open_out
  | Close_out string
  | Error_out string
  | Transport_connect string
  | Transport_send string bool
  | Transport_close
  | Transport_sync_close
  | Terminate

definition engineio_new :: engineio where
  "engineio_new =
     \<lparr>has_transport = False, eio_open = False, eio_closing = False, hb_stop_requested = True,
      session_id = [], ping_interval = 25000, ping_timeout = 20000, last_pong = 0, hb = Hb_exit,
      hb_joinable = False, has_on_frame = False, has_on_open = False, has_on_close = False,
      has_on_error = False\<rparr>"

definition set_transport :: "engineio \<Rightarrow> engineio" where
  "set_transport s = s\<lparr>has_transport := True\<rparr>"

definition set_handlers :: "bool \<Rightarrow> bool \<Rightarrow> bool \<Rightarrow> bool \<Rightarrow> engineio \<Rightarrow> engineio" where
  "set_handlers f op cl er s =
     s\<lparr>has_on_frame := f, has_on_open := op, has_on_close := cl, has_on_error := er\<rparr>"

definition call_if :: "bool \<Rightarrow> eio_out \<Rightarrow> eio_out list" where
  "call_if b out = (if b then [out] else [])"

text \<open>
  The heartbeat loop: the test at its head, entering the timed wait, waking from it (notified,
  spuriously or by the time), and reporting a dead connection.
\<close>

definition hb_turn :: "int \<Rightarrow> engineio \<Rightarrow> engineio \<times> eio_out list" where
  "hb_turn t s =
     (case hb s of
        Hb_head \<Rightarrow>
          (if eio_open s \<and> \<not> eio_closing s \<and> \<not> hb_stop_requested s
           then (s\<lparr>hb := Hb_wait (t + ping_interval s) (ping_interval s + ping_timeout s)\<rparr>, [])
           else (s\<lparr>hb := Hb_exit\<rparr>, []))
      | Hb_wait until timeout \<Rightarrow>
          (if eio_closing s \<or> hb_stop_requested s then (s\<lparr>hb := Hb_exit\<rparr>, [])
           else if t < until then (s, [])
           else if t - last_pong s \<le> timeout then (s\<lparr>hb := Hb_head\<rparr>, [])
           else (s\<lparr>hb := Hb_expired\<rparr>, []))
      | Hb_expired \<Rightarrow>
          (s\<lparr>hb := Hb_exit\<rparr>,
           call_if (has_on_error s) (Error_out ''engine.io ping timeout'')
           @ call_if (has_transport s) Transport_close)
      | Hb_exit \<Rightarrow> (s, []))"

definition request_heartbeat_stop :: "engineio \<Rightarrow> engineio" where
  "request_heartbeat_stop s = s\<lparr>hb_stop_requested := True\<rparr>"

definition stop_heartbeat_timer :: "bool \<Rightarrow> engineio \<Rightarrow> engineio \<times> eio_out list" where
  "stop_heartbeat_timer on_hb_thread s =
     (let s1 = request_heartbeat_stop s
      in if \<not> hb_joinable s1 then (s1, [])
         else if on_hb_thread then (s1\<lparr>hb_joinable := False\<rparr>, [])
         else
           (s1\<lparr>hb_joinable := False, hb := Hb_exit\<rparr>,
            if hb s1 = Hb_expired then snd (hb_turn 0 s1) else []))"

definition start_heartbeat_timer :: "engineio \<Rightarrow> engineio \<times> eio_out list" where
  "start_heartbeat_timer s =
     (if \<not> eio_open s \<or> eio_closing s then (s, [])
      else if hb_joinable s then (s, [Terminate])
      else (s\<lparr>hb_stop_requested := False, hb := Hb_head, hb_joinable := True\<rparr>, []))"

definition eio_open_url :: "string \<Rightarrow> engineio \<Rightarrow> engineio \<times> eio_out list \<times> cpp_exn option" where
  "eio_open_url url s =
     (if eio_closing s then (s, [], None)
      else
        let s1 = s\<lparr>eio_open := False, session_id := []\<rparr>
        in if \<not> has_transport s1
           then (s1, [], Some (Runtime_error ''sioxx: no transport set on engineio_client''))
           else (s1, [Transport_connect url], None))"

definition eio_close :: "engineio \<Rightarrow> engineio \<times> eio_out list" where
  "eio_close s =
     (if eio_closing s then (s, [])
      else
        let s1 = request_heartbeat_stop (s\<lparr>eio_closing := True\<rparr>)
        in (s1\<lparr>eio_open := False\<rparr>, call_if (has_transport s1) Transport_close))"

definition eio_sync_close :: "bool \<Rightarrow> engineio \<Rightarrow> engineio \<times> eio_out list" where
  "eio_sync_close on_hb_thread s =
     (case eio_close s of (s1, o1) \<Rightarrow>
      case stop_heartbeat_timer on_hb_thread s1 of (s2, o2) \<Rightarrow>
        (s2, o1 @ o2 @ call_if (has_transport s2) Transport_sync_close))"

definition eio_send :: "string \<Rightarrow> bool \<Rightarrow> engineio \<Rightarrow> eio_out list" where
  "eio_send pl bin s =
     (if \<not> has_transport s \<or> \<not> eio_open s then []
      else if bin then [Transport_send pl True]
      else [Transport_send (''4'' @ pl) False])"

definition handle_transport_close :: "bool \<Rightarrow> string \<Rightarrow> engineio \<Rightarrow> engineio \<times> eio_out list" where
  "handle_transport_close on_hb_thread reason s =
     (case stop_heartbeat_timer on_hb_thread (s\<lparr>eio_open := False\<rparr>) of (s1, o1) \<Rightarrow>
        (s1, o1 @ call_if (has_on_close s1) (Close_out reason)))"

definition handle_transport_error :: "string \<Rightarrow> engineio \<Rightarrow> eio_out list" where
  "handle_transport_error msg s = call_if (has_on_error s) (Error_out msg)"

text \<open>
  The open packet: reading the two intervals and the session id from a handshake that parses can
  fail on its type, and what was assigned before stays assigned.
\<close>

definition handle_open_packet ::
  "json_lib \<Rightarrow> int \<Rightarrow> string \<Rightarrow> engineio \<Rightarrow> engineio \<times> eio_out list \<times> cpp_exn option" where
  "handle_open_packet lib t rest s =
     (let handshake = lib_parse lib rest
      in case stop_heartbeat_timer False s of (s1, o1) \<Rightarrow>
        (case (case handshake of
                 None \<Rightarrow> (s1, None)
               | Some j \<Rightarrow>
                   (case value_int lib j ''pingInterval'' 25000 of
                      Inl e \<Rightarrow> (s1, Some e)
                    | Inr pi \<Rightarrow>
                        (case value_int lib j ''pingTimeout'' 20000 of
                           Inl e \<Rightarrow> (s1\<lparr>ping_interval := pi\<rparr>, Some e)
                         | Inr pt \<Rightarrow> (s1\<lparr>ping_interval := pi, ping_timeout := pt\<rparr>, None))))
         of
           (s2, Some e) \<Rightarrow> (s2, o1, Some e)
         | (s2, None) \<Rightarrow>
             let s3 = s2\<lparr>last_pong := t\<rparr>
             in (case (case handshake of None \<Rightarrow> Inr [] | Some j \<Rightarrow> value_string j ''sid'' []) of
                   Inl e \<Rightarrow> (s3, o1, Some e)
                 | Inr sid \<Rightarrow>
                     (case start_heartbeat_timer (s3\<lparr>session_id := sid, eio_open := True\<rparr>) of (s4, o4) \<Rightarrow>
                        (s4, o1 @ o4 @ call_if (has_on_open s4) Open_out, None)))))"

definition handle_transport_message ::
  "json_lib \<Rightarrow> int \<Rightarrow> string \<Rightarrow> bool \<Rightarrow> engineio \<Rightarrow> engineio \<times> eio_out list \<times> cpp_exn option" where
  "handle_transport_message lib t pl bin s =
     (if bin then (s, call_if (has_on_frame s) (Frame_out pl True), None)
      else
        (case pl of
           [] \<Rightarrow> (s, [], None)
         | c # rest \<Rightarrow>
             (if c = CHR ''0'' then handle_open_packet lib t rest s
              else if c = CHR ''1'' then
                (case stop_heartbeat_timer False (s\<lparr>eio_open := False\<rparr>) of (s1, o1) \<Rightarrow>
                   (s1, o1 @ call_if (has_on_close s1) (Close_out ''server closed connection''), None))
              else if c = CHR ''2'' then
                (s\<lparr>last_pong := t\<rparr>, call_if (has_transport s) (Transport_send ''3'' False), None)
              else if c = CHR ''3'' then (s\<lparr>last_pong := t\<rparr>, [], None)
              else if c = CHR ''4'' then (s, call_if (has_on_frame s) (Frame_out rest False), None)
              else (s, [], None))))"

text \<open>
  Any sequence of calls from the client, events from the transport and turns of the heartbeat
  thread, at any times. A handler that fails with an exception leaves its partial state behind.
  The flag of the closing events says whether they happen inside a callback of the heartbeat
  thread, which has then left its loop.
\<close>

datatype eio_event =
    E_open string
  | E_close
  | E_sync_close bool
  | E_send string bool
  | E_message string bool
  | E_transport_close bool string
  | E_transport_error string
  | E_heartbeat

fun eio_step :: "json_lib \<Rightarrow> int \<Rightarrow> eio_event \<Rightarrow> engineio \<Rightarrow> engineio \<times> eio_out list" where
  "eio_step lib t (E_open url) s = (case eio_open_url url s of (s', out, _) \<Rightarrow> (s', out))"
| "eio_step lib t E_close s = eio_close s"
| "eio_step lib t (E_sync_close h) s = eio_sync_close (h \<and> hb s = Hb_exit) s"
| "eio_step lib t (E_send pl bin) s = (s, eio_send pl bin s)"
| "eio_step lib t (E_message pl bin) s =
     (case handle_transport_message lib t pl bin s of (s', out, _) \<Rightarrow> (s', out))"
| "eio_step lib t (E_transport_close h reason) s = handle_transport_close (h \<and> hb s = Hb_exit) reason s"
| "eio_step lib t (E_transport_error msg) s = (s, handle_transport_error msg s)"
| "eio_step lib t E_heartbeat s = hb_turn t s"

fun eio_run :: "json_lib \<Rightarrow> (int \<times> eio_event) list \<Rightarrow> engineio \<Rightarrow> engineio \<times> eio_out list" where
  "eio_run lib [] s = (s, [])"
| "eio_run lib ((t, e) # es) s =
     (case eio_step lib t e s of (s1, o1) \<Rightarrow> case eio_run lib es s1 of (s2, o2) \<Rightarrow> (s2, o1 @ o2))"

section \<open>The heartbeat\<close>

text \<open>
  A thread that is not in \<^verbatim>\<open>heartbeat_thread_\<close> has left its loop, and a waiting one uses the current
  intervals.
\<close>

definition hb_inv :: "engineio \<Rightarrow> bool" where
  "hb_inv s \<longleftrightarrow> (\<not> hb_joinable s \<longrightarrow> hb s = Hb_exit) \<and>
     (\<forall>u tm. hb s = Hb_wait u tm \<longrightarrow> tm = ping_interval s + ping_timeout s)"

lemma stop_heartbeat_facts:
  assumes "stop_heartbeat_timer h s = (s', out)" and "hb_inv s" and "h \<longrightarrow> hb s = Hb_exit"
  shows "\<not> hb_joinable s'" and "hb s' = Hb_exit" and "hb_inv s'" and "Terminate \<notin> set out"
    and "s' = s\<lparr>hb_stop_requested := True, hb_joinable := False, hb := Hb_exit\<rparr>"
  using assms
  by (auto simp: stop_heartbeat_timer_def request_heartbeat_stop_def hb_inv_def hb_turn_def call_if_def Let_def
      split: if_splits hb_state.splits)

lemma hb_inv_frame:
  "hb_inv s \<Longrightarrow> hb_inv (s\<lparr>eio_open := x\<rparr>)" "hb_inv s \<Longrightarrow> hb_inv (s\<lparr>last_pong := t\<rparr>)"
  "hb_inv s \<Longrightarrow> hb_inv (s\<lparr>session_id := i\<rparr>)" "hb_inv s \<Longrightarrow> hb_inv (s\<lparr>eio_closing := c\<rparr>)"
  "hb_inv s \<Longrightarrow> hb_inv (s\<lparr>hb_stop_requested := r\<rparr>)"
  by (simp_all add: hb_inv_def)

lemma hb_inv_turn: "hb_inv s \<Longrightarrow> hb_turn t s = (s', out) \<Longrightarrow> hb_inv s' \<and> Terminate \<notin> set out"
  by (auto simp: hb_inv_def hb_turn_def call_if_def split: hb_state.splits if_splits)

lemma start_heartbeat_facts:
  assumes "start_heartbeat_timer s = (s', out)" and "\<not> hb_joinable s" and "hb_inv s"
  shows "out = []" and "hb_inv s'"
  using assms by (auto simp: start_heartbeat_timer_def hb_inv_def split: if_splits)

lemma handle_open_inv:
  assumes "handle_open_packet lib t rest s = (s', out, e)" and I: "hb_inv s"
  shows "hb_inv s' \<and> Terminate \<notin> set out"
proof -
  obtain s1 o1 where st: "stop_heartbeat_timer False s = (s1, o1)" by (cases "stop_heartbeat_timer False s")
  note f = stop_heartbeat_facts [OF st I, simplified]
  show ?thesis
    using assms(1) f
    by (auto simp: handle_open_packet_def st Let_def hb_inv_def call_if_def start_heartbeat_timer_def
        split: option.splits sum.splits prod.splits if_splits)
qed

lemma eio_step_inv:
  assumes "hb_inv s" and "eio_step lib t e s = (s', out)"
  shows "hb_inv s' \<and> Terminate \<notin> set out"
proof (cases e)
  case (E_open url)
  then show ?thesis
    using assms by (auto simp: eio_open_url_def hb_inv_def Let_def split: if_splits)
next
  case E_close
  then show ?thesis
    using assms
    by (auto simp: eio_close_def request_heartbeat_stop_def hb_inv_def call_if_def Let_def split: if_splits)
next
  case (E_sync_close h)
  obtain s1 o1 where c: "eio_close s = (s1, o1)" by (cases "eio_close s")
  have I: "hb_inv s1" "Terminate \<notin> set o1" "hb s1 = hb s"
    using assms(1) c
    by (auto simp: eio_close_def request_heartbeat_stop_def hb_inv_def call_if_def Let_def split: if_splits)
  obtain s2 o2 where st: "stop_heartbeat_timer (h \<and> hb s = Hb_exit) s1 = (s2, o2)"
    by (cases "stop_heartbeat_timer (h \<and> hb s = Hb_exit) s1")
  from stop_heartbeat_facts [OF st I(1)] I(3) show ?thesis
    using assms E_sync_close I c st by (auto simp: eio_sync_close_def call_if_def)
next
  case (E_message pl bin)
  then show ?thesis
    using assms handle_open_inv [OF _ assms(1), of lib t] stop_heartbeat_facts [OF _ hb_inv_frame(1) [OF assms(1)], of False False]
    by (auto simp: handle_transport_message_def call_if_def hb_inv_frame
        split: if_splits list.splits prod.splits)
next
  case (E_transport_close h reason)
  obtain s1 o1 where st: "stop_heartbeat_timer (h \<and> hb s = Hb_exit) (s\<lparr>eio_open := False\<rparr>) = (s1, o1)"
    by (cases "stop_heartbeat_timer (h \<and> hb s = Hb_exit) (s\<lparr>eio_open := False\<rparr>)")
  from stop_heartbeat_facts [OF st hb_inv_frame(1) [OF assms(1)]] show ?thesis
    using assms E_transport_close st by (auto simp: handle_transport_close_def call_if_def)
next
  case E_heartbeat
  then show ?thesis using assms hb_inv_turn by auto
qed (use assms in \<open>auto simp: eio_send_def handle_transport_error_def call_if_def split: if_splits\<close>)

lemma eio_run_inv:
  "hb_inv s \<Longrightarrow> eio_run lib es s = (s', out) \<Longrightarrow> hb_inv s' \<and> Terminate \<notin> set out"
  by (induction lib es s arbitrary: s' out rule: eio_run.induct)
    (auto split: prod.splits dest: eio_step_inv)

lemma hb_inv_new: "hb_inv engineio_new"
  by (simp add: hb_inv_def engineio_new_def)

text \<open>The turns of the heartbeat thread over \<open>n\<close> rounds, each woken exactly after the interval.\<close>

fun watch :: "nat \<Rightarrow> int \<Rightarrow> int \<Rightarrow> (int \<times> eio_event) list" where
  "watch 0 t interval = []"
| "watch (Suc n) t interval =
     (t, E_heartbeat) # (t + interval, E_heartbeat) # watch n (t + interval) interval"

lemma watch_snoc:
  "watch (Suc n) t d = watch n t d @ [(t + int n * d, E_heartbeat), (t + int n * d + d, E_heartbeat)]"
proof (induction n arbitrary: t)
  case (Suc n)
  have "watch (Suc (Suc n)) t d = (t, E_heartbeat) # (t + d, E_heartbeat) # watch (Suc n) (t + d) d"
    by (rule watch.simps)
  also have "\<dots> = (t, E_heartbeat) # (t + d, E_heartbeat) # watch n (t + d) d
      @ [(t + d + int n * d, E_heartbeat), (t + d + int n * d + d, E_heartbeat)]"
    by (simp only: Suc.IH)
  finally show ?case by (simp add: algebra_simps)
qed simp

lemma eio_run_append:
  "eio_run lib (es @ fs) s =
     (case eio_run lib es s of (s1, o1) \<Rightarrow> case eio_run lib fs s1 of (s2, o2) \<Rightarrow> (s2, o1 @ o2))"
  by (induction lib es s rule: eio_run.induct) (auto split: prod.splits)

definition watching :: "engineio \<Rightarrow> bool" where
  "watching s \<longleftrightarrow> eio_open s \<and> \<not> eio_closing s \<and> \<not> hb_stop_requested s \<and> hb s = Hb_head"

lemma watch_patient:
  assumes "watching s" and "0 < ping_interval s"
    and "t + int n * ping_interval s - last_pong s \<le> ping_interval s + ping_timeout s"
  shows "eio_run lib (watch n t (ping_interval s)) s = (s, [])"
  using assms
proof (induction n arbitrary: t)
  case (Suc n)
  have "t + ping_interval s + int n * ping_interval s - last_pong s \<le> ping_interval s + ping_timeout s"
    using Suc.prems(3) by (simp add: algebra_simps)
  note IH = Suc.IH [OF Suc.prems(1,2) this]
  have "t + ping_interval s - last_pong s \<le> ping_interval s + ping_timeout s"
    using Suc.prems(2,3) by (simp add: algebra_simps) (smt (verit) mult_nonneg_nonneg of_nat_0_le_iff)
  then have "s\<lparr>hb := Hb_head\<rparr> = s" "hb_turn t s = (s\<lparr>hb := Hb_wait (t + ping_interval s) (ping_interval s + ping_timeout s)\<rparr>, [])"
    "hb_turn (t + ping_interval s) (s\<lparr>hb := Hb_wait (t + ping_interval s) (ping_interval s + ping_timeout s)\<rparr>) = (s\<lparr>hb := Hb_head\<rparr>, [])"
    using Suc.prems(1) by (auto simp: hb_turn_def watching_def)
  with IH show ?case by simp
qed simp

lemma watch_expires:
  assumes "watching s" and "ping_interval s + ping_timeout s < t + ping_interval s - last_pong s"
    and "has_on_error s" and "has_transport s"
  shows "eio_run lib ([(t, E_heartbeat), (t + ping_interval s, E_heartbeat), (t + ping_interval s, E_heartbeat)]) s =
     (s\<lparr>hb := Hb_exit\<rparr>, [Error_out ''engine.io ping timeout'', Transport_close])"
  using assms by (simp add: hb_turn_def watching_def call_if_def)

section \<open>The handshake\<close>

definition handshake_ok :: "json_lib \<Rightarrow> json \<Rightarrow> bool" where
  "handshake_ok lib j \<longleftrightarrow> \<not> isl (value_int lib j ''pingInterval'' 25000) \<and>
     \<not> isl (value_int lib j ''pingTimeout'' 20000) \<and> \<not> isl (value_string j ''sid'' [])"

lemma value_int_ok: "\<not> isl (value_int lib j k d) \<longleftrightarrow> (\<exists>i. value_int lib j k d = Inr i)"
  and value_string_ok: "\<not> isl (value_string j k e) \<longleftrightarrow> (\<exists>x. value_string j k e = Inr x)"
  by (cases "value_int lib j k d"; cases "value_string j k e"; simp)+

lemma value_int_error: "value_int lib j k d = Inl x \<Longrightarrow> x = Type_error"
  by (auto simp: value_int_def split: if_splits option.splits)

lemma value_string_error: "value_string j k d = Inl x \<Longrightarrow> x = Type_error"
  by (auto simp: value_string_def split: if_splits option.splits elim: get_string.elims)

lemma handshake_ok_iff:
  "handshake_ok lib j \<longleftrightarrow> is_object j \<and>
     (\<forall>k v. k = ''pingInterval'' \<or> k = ''pingTimeout'' \<longrightarrow> obj_find j k = Some v \<longrightarrow> lib_get_int lib v \<noteq> None) \<and>
     (\<forall>v. obj_find j ''sid'' = Some v \<longrightarrow> is_string v)"
proof -
  have "\<not> isl (get_string v) \<longleftrightarrow> is_string v" for v by (cases v) auto
  then show ?thesis
    by (auto simp: handshake_ok_def value_int_def value_string_def split: option.split)
qed

text \<open>A concrete JSON library for the examples: it knows \<^verbatim>\<open>{}\<close> and \<^verbatim>\<open>[]\<close>.\<close>

definition sample_lib :: json_lib where
  "sample_lib =
     \<lparr>lib_dump = (\<lambda>_. None), lib_parse = (\<lambda>s. if s = ''{}'' then Some (JObject []) else if s = ''[]'' then Some (JArray []) else None),
      lib_to_msgpack = (\<lambda>_. []), lib_from_msgpack = (\<lambda>_. None), lib_to_cbor = (\<lambda>_. []),
      lib_from_cbor = (\<lambda>_. None), lib_get_int = (\<lambda>_. None)\<rparr>"

section \<open>Properties\<close>

text \<open>
  Engine.IO framing is transparent: whatever payload the Socket.IO layer of an open connection
  sends, text or binary, arrives unchanged and with the same kind at the Socket.IO layer of the
  receiver.
\<close>

theorem engineio_framing_roundtrip:
  assumes "eio_send pl bin sender = [Transport_send wire kind]" and "has_on_frame receiver"
  shows "handle_transport_message lib t wire kind receiver = (receiver, [Frame_out pl bin], None)"
  using assms by (auto simp: eio_send_def handle_transport_message_def call_if_def split: if_splits)

theorem engineio_framing_roundtrip_witness:
  "\<exists>lib. handle_transport_message lib 5 ''42[]'' False (set_handlers True True True True engineio_new) =
     (set_handlers True True True True engineio_new, [Frame_out ''2[]'' False], None)"
proof -
  let ?s = "(set_transport engineio_new)\<lparr>eio_open := True\<rparr>"
  have "eio_send ''2[]'' False ?s = [Transport_send ''42[]'' False]"
    by (simp add: eio_send_def set_transport_def engineio_new_def)
  from engineio_framing_roundtrip [OF this] show ?thesis
    by (simp add: set_handlers_def)
qed

text \<open>
  C27. The outcome of the open packet on every branch: the handler throws exactly if the text parses
  to something else than an object, or to an object in which an interval or the session id has
  the wrong type. Otherwise the connection is open with the session id and the intervals of the
  handshake (or the defaults), the heartbeat clock starts now, and the last call made is the open
  handler. After an exception the connection is as open as before, and its heartbeat is stopped.
\<close>

theorem open_packet_outcome:
  assumes "handle_transport_message lib t (CHR ''0'' # rest) False s = (s', out, exn)" and "has_on_open s"
  shows "(exn = None \<longleftrightarrow> (\<forall>j. lib_parse lib rest = Some j \<longrightarrow> handshake_ok lib j)) \<and>
     (exn = None \<longrightarrow> eio_open s' \<and> last_pong s' = t \<and> out \<noteq> [] \<and> last out = Open_out \<and>
        (\<forall>j sid. lib_parse lib rest = Some j \<longrightarrow> obj_find j ''sid'' = Some (JString sid) \<longrightarrow> session_id s' = sid)) \<and>
     (exn \<noteq> None \<longrightarrow> exn = Some Type_error \<and> eio_open s' = eio_open s \<and> hb_stop_requested s')"
proof -
  have h: "handle_open_packet lib t rest s = (s', out, exn)"
    using assms(1) by (simp add: handle_transport_message_def)
  obtain s1 o1 where st: "stop_heartbeat_timer False s = (s1, o1)" by (cases "stop_heartbeat_timer False s")
  then have f: "eio_open s1 = eio_open s" "hb_stop_requested s1" "has_on_open s1 = has_on_open s"
    by (auto simp: stop_heartbeat_timer_def request_heartbeat_stop_def Let_def split: if_splits)
  show ?thesis
  proof (cases "lib_parse lib rest")
    case None
    then show ?thesis
      using h f assms(2)
      by (auto simp: handle_open_packet_def st Let_def start_heartbeat_timer_def call_if_def split: if_splits)
  next
    case (Some j)
    show ?thesis
    proof (cases "handshake_ok lib j")
      case True
      then obtain a b c where v: "value_int lib j ''pingInterval'' 25000 = Inr a"
        "value_int lib j ''pingTimeout'' 20000 = Inr b" "value_string j ''sid'' [] = Inr c"
        by (auto simp: handshake_ok_def value_int_ok value_string_ok)
      moreover have "obj_find j ''sid'' = Some (JString sid) \<Longrightarrow> c = sid" for sid
        using v(3) by (auto simp: value_string_def split: if_splits)
      ultimately show ?thesis
        using h f assms(2) Some True
        by (auto simp: handle_open_packet_def st Let_def start_heartbeat_timer_def call_if_def split: if_splits)
    next
      case False
      then show ?thesis
        using h f Some value_int_error [of lib j "''pingInterval''"] value_int_error [of lib j "''pingTimeout''"]
          value_string_error [of j "''sid''"]
        by (auto simp: handle_open_packet_def st Let_def handshake_ok_def value_int_ok value_string_ok
            split: sum.splits prod.splits)
    qed
  qed
qed

theorem open_packet_outcome_witness:
  "snd (snd (handle_transport_message sample_lib 5 ''0[]'' False (set_handlers True True True True engineio_new))) \<noteq> None \<and>
   eio_open (fst (handle_transport_message sample_lib 5 ''0{}'' False (set_handlers True True True True engineio_new)))"
proof -
  let ?s = "set_handlers True True True True engineio_new"
  have h: "has_on_open ?s" by (simp add: set_handlers_def)
  have "\<not> handshake_ok sample_lib (JArray [])" "handshake_ok sample_lib (JObject [])"
    "lib_parse sample_lib ''[]'' = Some (JArray [])" "lib_parse sample_lib ''{}'' = Some (JObject [])"
    by (simp_all add: handshake_ok_def value_int_def value_string_def sample_lib_def)
  then show ?thesis
    using open_packet_outcome [of sample_lib 5 "''[]''" ?s, OF _ h] open_packet_outcome [of sample_lib 5 "''{}''" ?s, OF _ h]
    by (metis option.inject prod.collapse)
qed

text \<open>
  C25. The heartbeat thread is managed safely: in no sequence of client calls, transport events and
  heartbeat turns is a running thread overwritten (which would terminate the process); and it
  never gives up a live connection: the connection is declared dead only when nothing was heard
  for longer than the announced interval plus timeout.
\<close>

theorem heartbeat_safe:
  assumes "eio_run lib es engineio_new = (s, out)"
  shows "Terminate \<notin> set out \<and>
     (\<forall>t. hb s \<noteq> Hb_expired \<longrightarrow> hb (fst (hb_turn t s)) = Hb_expired \<longrightarrow>
        ping_interval s + ping_timeout s < t - last_pong s)"
  using eio_run_inv [OF hb_inv_new assms]
  by (auto simp: hb_inv_def hb_turn_def split: hb_state.splits if_splits)

theorem heartbeat_safe_witness:
  "\<exists>s out. eio_run sample_lib [(1, E_message ''0{}'' False), (2, E_heartbeat), (3, E_message ''0{}'' False)] engineio_new = (s, out) \<and>
     Terminate \<notin> set out"
  using heartbeat_safe [of sample_lib "[(1, E_message ''0{}'' False), (2, E_heartbeat), (3, E_message ''0{}'' False)]"]
  by (metis prod.collapse)



text \<open>
  Closing does not stick when an open packet is being handled at the same time: the handler sets
  the open flag without looking at \<^verbatim>\<open>closing_\<close>, so that the connection reports to be open although it
  was closed before, and the open handler is still called.
\<close>

theorem late_open_packet_reopens:
  assumes "eio_closing s" and "has_on_open s" and "lib_parse lib rest = None \<or> (\<exists>j. lib_parse lib rest = Some j \<and> handshake_ok lib j)"
    and "handle_transport_message lib t (CHR ''0'' # rest) False s = (s', out, exn)"
  shows "eio_open s' \<and> eio_closing s' \<and> Open_out \<in> set out"
proof -
  obtain s1 o1 where st: "stop_heartbeat_timer False s = (s1, o1)" by (cases "stop_heartbeat_timer False s")
  then have f: "eio_closing s1" "has_on_open s1" using assms(1,2)
    by (auto simp: stop_heartbeat_timer_def request_heartbeat_stop_def Let_def split: if_splits)
  show ?thesis
    using assms(3,4) f
    by (auto simp: handle_transport_message_def handle_open_packet_def st Let_def start_heartbeat_timer_def
        call_if_def handshake_ok_def value_int_ok value_string_ok)
qed

theorem late_open_packet_reopens_witness:
  "eio_open (fst (handle_transport_message sample_lib 5 ''0{}'' False
     (fst (eio_close (set_transport (set_handlers True True True True engineio_new))))))"
proof -
  let ?s = "fst (eio_close (set_transport (set_handlers True True True True engineio_new)))"
  have "eio_closing ?s" "has_on_open ?s"
    by (simp_all add: eio_close_def request_heartbeat_stop_def set_handlers_def set_transport_def engineio_new_def Let_def)
  moreover have "lib_parse sample_lib ''{}'' = Some (JObject []) \<and> handshake_ok sample_lib (JObject [])"
    by (simp add: handshake_ok_iff sample_lib_def)
  ultimately show ?thesis
    using late_open_packet_reopens [of ?s sample_lib "''{}''" 5] by (metis prod.collapse)
qed

end
