(* ===== verification/Reconnection.thy ===== *)
theory Reconnection
  imports Complex_Main Sioxx_Prelude
begin

text \<open>
  The back-off delay between reconnection attempts (\<^verbatim>\<open>src/reconnection.cpp\<close>). The computation mixes
  64-bit integers with \<^verbatim>\<open>long double\<close> arithmetic: every arithmetic operation is the real operation
  followed by a rounding function. The results rest on two laws of that function, stated in a
  locale: it is monotone, and exact on the integers up to \<^verbatim>\<open>2^63\<close>, both on non-negative numbers. The locale is interpreted on
  rounding to the nearest number with a 64-bit significand, ties to even, which is the format the
  code relies on. Exponents stay far from the limits of the format. Milliseconds are integers.
  The jitter arguments are finite numbers.
\<close>

section \<open>Definitions\<close>

definition half_even :: "real \<Rightarrow> int" where
  "half_even x =
     (let n = \<lfloor>x\<rfloor>; d = x - of_int n
      in if d < 1 / 2 then n else if 1 / 2 < d then n + 1 else if even n then n else n + 1)"

definition binade :: "real \<Rightarrow> int" where
  "binade x = \<lfloor>log 2 \<bar>x\<bar>\<rfloor>"

definition long_double :: "real \<Rightarrow> real" where
  "long_double x =
     (if x = 0 then 0
      else let unit = 2 powi (binade x - 63) in of_int (half_even (x / unit)) * unit)"

definition clamp01 :: "real \<Rightarrow> real" where
  "clamp01 x = (if x < 0 then 0 else if 1 < x then 1 else x)"

definition llround :: "real \<Rightarrow> int" where
  "llround x = (if 0 \<le> x then \<lfloor>x + 1 / 2\<rfloor> else - \<lfloor>- x + 1 / 2\<rfloor>)"

definition backoff_exponent :: "int \<Rightarrow> nat" where
  "backoff_exponent attempt = (if attempt \<le> 1 then 0 else nat (min (attempt - 1) 62))"

definition exponential_delay :: "(real \<Rightarrow> real) \<Rightarrow> int \<Rightarrow> int \<Rightarrow> int \<Rightarrow> real" where
  "exponential_delay rnd initial_delay max_delay attempt =
     (let initial = max 0 initial_delay; maximum = max 0 max_delay;
          multiplier = 2 ^ backoff_exponent attempt
      in min (rnd (of_int maximum)) (rnd (rnd (of_int initial) * multiplier)))"

definition reconnect_delay_for_attempt ::
  "(real \<Rightarrow> real) \<Rightarrow> int \<Rightarrow> int \<Rightarrow> real \<Rightarrow> int \<Rightarrow> real \<Rightarrow> int" where
  "reconnect_delay_for_attempt rnd initial_delay max_delay jitter_factor attempt jitter_sample =
     (let maximum = max 0 max_delay;
          exponential = exponential_delay rnd initial_delay max_delay attempt;
          factor = clamp01 jitter_factor; sample = clamp01 jitter_sample;
          delayed = min (rnd (of_int maximum))
            (rnd (exponential * rnd (rnd (1 - factor) + rnd (rnd (2 * factor) * sample))))
      in llround delayed)"

section \<open>Laws of rounding\<close>

locale rounding =
  fixes rnd :: "real \<Rightarrow> real"
  assumes rnd_mono: "0 \<le> x \<Longrightarrow> x \<le> y \<Longrightarrow> rnd x \<le> rnd y"
    and rnd_exact: "0 \<le> n \<Longrightarrow> n \<le> 2 ^ 63 \<Longrightarrow> rnd (of_int n) = of_int n"
begin

lemma rnd_nonneg: "0 \<le> x \<Longrightarrow> 0 \<le> rnd x"
  using rnd_mono [of 0 x] rnd_exact [of 0] by simp

lemma rnd_scaled:
  assumes "0 \<le> m" and "m < 2 ^ 63" and "0 \<le> a"
  shows "min (of_int m) (rnd (of_int a)) = of_int (min m a)"
proof (cases "a \<le> m")
  case True
  then show ?thesis using assms rnd_exact [of a] by simp
next
  case False
  then have "rnd (of_int m) \<le> rnd (of_int a)" using assms(1) by (intro rnd_mono) simp_all
  then show ?thesis using assms False rnd_exact [of m] by simp
qed

lemma exponential_delay_exact:
  assumes "initial < 2 ^ 63" and "maximum < 2 ^ 63"
  shows "exponential_delay rnd initial maximum attempt =
     of_int (min (max 0 maximum) (max 0 initial * 2 ^ backoff_exponent attempt))"
proof -
  have "rnd (of_int (max 0 initial)) * 2 ^ backoff_exponent attempt =
      of_int (max 0 initial * 2 ^ backoff_exponent attempt)"
    using assms(1) rnd_exact [of "max 0 initial"] by simp
  then show ?thesis
    using rnd_scaled [of "max 0 maximum" "max 0 initial * 2 ^ backoff_exponent attempt"]
      rnd_exact [of "max 0 maximum"] assms(2)
    unfolding exponential_delay_def Let_def by simp
qed

end

lemma clamp01_bounds: "0 \<le> clamp01 x" "clamp01 x \<le> 1"
  by (simp_all add: clamp01_def)

lemma llround_int [simp]: "llround (of_int n) = n"
  by (auto simp: llround_def)

lemma llround_bounds:
  assumes "0 \<le> x" and "x \<le> of_int n"
  shows "0 \<le> llround x" "llround x \<le> n"
  using assms by (simp_all add: llround_def) linarith+

context rounding
begin

lemma delay_bounds:
  assumes "initial < 2 ^ 63" and "maximum < 2 ^ 63"
  shows "0 \<le> reconnect_delay_for_attempt rnd initial maximum jitter attempt sample"
    and "reconnect_delay_for_attempt rnd initial maximum jitter attempt sample \<le> max 0 maximum"
proof -
  let ?e = "exponential_delay rnd initial maximum attempt"
  let ?j = "rnd (rnd (1 - clamp01 jitter) + rnd (rnd (2 * clamp01 jitter) * clamp01 sample))"
  have m: "rnd (of_int (max 0 maximum)) = of_int (max 0 maximum)" using assms(2) by (intro rnd_exact) auto
  have "0 \<le> ?e" using exponential_delay_exact [OF assms, of attempt] by simp
  moreover have "0 \<le> ?j" using clamp01_bounds [of jitter] clamp01_bounds [of sample]
    by (intro rnd_nonneg add_nonneg_nonneg mult_nonneg_nonneg) auto
  ultimately have "0 \<le> min (rnd (of_int (max 0 maximum))) (rnd (?e * ?j))"
    unfolding m using rnd_nonneg [of "?e * ?j"] by simp
  moreover have "min (rnd (of_int (max 0 maximum))) (rnd (?e * ?j)) \<le> of_int (max 0 maximum)" by (simp add: m)
  ultimately show "0 \<le> reconnect_delay_for_attempt rnd initial maximum jitter attempt sample"
    and "reconnect_delay_for_attempt rnd initial maximum jitter attempt sample \<le> max 0 maximum"
    unfolding reconnect_delay_for_attempt_def Let_def by (rule llround_bounds)+
qed

lemma delay_without_jitter:
  assumes "initial < 2 ^ 63" and "maximum < 2 ^ 63" and "jitter \<le> 0"
  shows "reconnect_delay_for_attempt rnd initial maximum jitter attempt sample =
     min (max 0 maximum) (max 0 initial * 2 ^ backoff_exponent attempt)"
proof -
  let ?d = "min (max 0 maximum) (max 0 initial * 2 ^ backoff_exponent attempt)"
  have c: "clamp01 jitter = 0" using assms(3) by (simp add: clamp01_def)
  have one: "rnd (rnd (1 - 0) + rnd (rnd (2 * 0) * clamp01 sample)) = 1"
    using rnd_exact [of 0] rnd_exact [of 1] by simp
  have m: "rnd (of_int (max 0 maximum)) = of_int (max 0 maximum)" using assms(2) by (intro rnd_exact) auto
  have "0 \<le> ?d" "?d \<le> 2 ^ 63" using assms(2) by auto
  then have "rnd (of_int ?d) = of_int ?d" by (rule rnd_exact)
  then have "min (rnd (of_int (max 0 maximum))) (rnd (exponential_delay rnd initial maximum attempt * 1)) = of_int ?d"
    unfolding m exponential_delay_exact [OF assms(1,2)] by simp
  then show ?thesis
    unfolding reconnect_delay_for_attempt_def Let_def c one by (simp only: llround_int)
qed

end

section \<open>Rounding to a 64-bit significand\<close>

lemma half_even_int [simp]: "half_even (of_int n) = n"
  by (simp add: half_even_def)

lemma half_even_bounds: "\<lfloor>x\<rfloor> \<le> half_even x" "half_even x \<le> \<lfloor>x\<rfloor> + 1"
  by (simp_all add: half_even_def Let_def)

lemma half_even_mono:
  assumes "x \<le> y"
  shows "half_even x \<le> half_even y"
proof (cases "\<lfloor>x\<rfloor> = \<lfloor>y\<rfloor>")
  case True
  then show ?thesis using assms by (auto simp: half_even_def Let_def)
next
  case False
  then have "\<lfloor>x\<rfloor> + 1 \<le> \<lfloor>y\<rfloor>" using floor_mono [OF assms] by simp
  then show ?thesis using half_even_bounds [of x] half_even_bounds [of y] by linarith
qed

lemma binade_bounds:
  assumes "0 < x"
  shows "2 powi binade x \<le> x" "x < 2 powi (binade x + 1)"
proof -
  have "of_int (binade x) \<le> log 2 x" "log 2 x < of_int (binade x + 1)"
    using assms by (simp_all add: binade_def)
  then have "2 powr of_int (binade x) \<le> x" "x < 2 powr of_int (binade x + 1)"
    using assms by (auto simp: le_log_iff log_less_iff)
  moreover have "2 powr of_int k = (2 :: real) powi k" for k by (rule powr_real_of_int') simp_all
  ultimately show "2 powi binade x \<le> x" "x < 2 powi (binade x + 1)" by metis+
qed

lemma binade_mono: "0 < x \<Longrightarrow> x \<le> y \<Longrightarrow> binade x \<le> binade y"
  by (auto simp: binade_def intro!: floor_mono)

lemma long_double_in_binade:
  assumes "0 < x"
  shows "2 powi binade x \<le> long_double x" "long_double x \<le> 2 powi (binade x + 1)"
proof -
  let ?u = "2 powi (binade x - 63) :: real"
  have u: "0 < ?u" by simp
  have e: "2 powi binade x = of_int (2 ^ 63) * ?u" "2 powi (binade x + 1) = of_int (2 ^ 64) * ?u"
    by (simp_all add: power_int_diff power_int_add)
  have q: "of_int (2 ^ 63) \<le> x / ?u" "x / ?u \<le> of_int (2 ^ 64)"
    using binade_bounds [OF assms] u unfolding e by (simp_all only: pos_le_divide_eq pos_divide_le_eq less_imp_le)
  have "half_even (of_int (2 ^ 63)) \<le> half_even (x / ?u)" "half_even (x / ?u) \<le> half_even (of_int (2 ^ 64))"
    by (rule half_even_mono [OF q(1)], rule half_even_mono [OF q(2)])
  then have "2 ^ 63 \<le> half_even (x / ?u)" "half_even (x / ?u) \<le> 2 ^ 64"
    by (simp_all only: half_even_int)
  then have "of_int (2 ^ 63) * ?u \<le> of_int (half_even (x / ?u)) * ?u" "of_int (half_even (x / ?u)) * ?u \<le> of_int (2 ^ 64) * ?u"
    using u by (simp_all only: of_int_le_iff mult_right_mono less_imp_le)
  then show "2 powi binade x \<le> long_double x" "long_double x \<le> 2 powi (binade x + 1)"
    unfolding e using assms by (simp_all add: long_double_def Let_def)
qed

lemma long_double_mono:
  assumes "0 \<le> x" and "x \<le> y"
  shows "long_double x \<le> long_double y"
proof (cases "x = 0")
  case True
  have "0 \<le> long_double y"
  proof (cases "y = 0")
    case False
    then have "0 < (2::real) powi binade y" "0 < y" using assms by simp_all
    then show ?thesis using long_double_in_binade(1) [of y] by linarith
  qed (simp add: long_double_def)
  then show ?thesis using True by (simp add: long_double_def)
next
  case False
  then have pos: "0 < x" "0 < y" using assms by auto
  show ?thesis
  proof (cases "binade x = binade y")
    case True
    have "half_even (x / 2 powi (binade y - 63)) \<le> half_even (y / 2 powi (binade y - 63))"
      using assms(2) by (intro half_even_mono divide_right_mono) simp_all
    then show ?thesis using pos True by (simp add: long_double_def Let_def)
  next
    case False
    then have "binade x + 1 \<le> binade y" using binade_mono [OF pos(1) assms(2)] by simp
    then have "(2::real) powi (binade x + 1) \<le> 2 powi binade y" by (intro power_int_increasing) simp_all
    then show ?thesis
      using long_double_in_binade(2) [OF pos(1)] long_double_in_binade(1) [OF pos(2)] by linarith
  qed
qed

lemma long_double_exact:
  assumes "0 \<le> n" and "n \<le> 2 ^ 63"
  shows "long_double (of_int n) = of_int n"
proof (cases "n = 0")
  case False
  then have pos: "0 < (of_int n :: real)" using assms by simp
  let ?e = "binade (of_int n)"
  have "(2::real) powi ?e \<le> of_int n" by (rule binade_bounds(1) [OF pos])
  also have "\<dots> \<le> 2 powi 63" using assms(2) by simp
  finally have "(2::real) powi ?e \<le> 2 powi 63" .
  then have "?e \<le> 63" using power_int_strict_increasing [of 63 ?e "2::real"] by fastforce
  then have q: "of_int n / 2 powi (?e - 63) = (of_int (n * 2 ^ nat (63 - ?e)) :: real)"
    by (simp add: power_int_diff power_int_def field_simps)
  have h: "half_even (of_int n / 2 powi (?e - 63)) = n * 2 ^ nat (63 - ?e)"
    unfolding q by (rule half_even_int)
  have "long_double (of_int n) = of_int (half_even (of_int n / 2 powi (?e - 63))) * 2 powi (?e - 63)"
    using pos by (simp add: long_double_def Let_def)
  also have "\<dots> = of_int n" unfolding h q [symmetric] by simp
  finally show ?thesis .
qed (simp add: long_double_def)

interpretation long_double: rounding long_double
  by unfold_locales (auto intro: long_double_mono long_double_exact)

section \<open>Properties\<close>

text \<open>The delay the documentation describes, over the integers: the initial delay doubled once per
  earlier attempt, at most 62 times, and never above the maximum.\<close>

fun doubled :: "int \<Rightarrow> nat \<Rightarrow> int" where
  "doubled d 0 = d"
| "doubled d (Suc k) = 2 * doubled d k"

definition reference_delay :: "int \<Rightarrow> int \<Rightarrow> int \<Rightarrow> int" where
  "reference_delay initial_delay max_delay attempt =
     min (max 0 max_delay) (doubled (max 0 initial_delay) (nat (min 62 (attempt - 1))))"

lemma doubled_eq: "doubled d k = d * 2 ^ k"
  by (induction k) simp_all

lemma reference_delay_eq:
  "reference_delay initial_delay max_delay attempt =
     min (max 0 max_delay) (max 0 initial_delay * 2 ^ backoff_exponent attempt)"
proof -
  have "nat (min 62 (attempt - 1)) = backoff_exponent attempt"
    by (auto simp: backoff_exponent_def min_def)
  then show ?thesis by (simp add: reference_delay_def doubled_eq)
qed

lemma reference_delay_mono:
  assumes "a \<le> b"
  shows "reference_delay initial_delay max_delay a \<le> reference_delay initial_delay max_delay b"
proof -
  have "backoff_exponent a \<le> backoff_exponent b" using assms by (auto simp: backoff_exponent_def)
  then have "(2::int) ^ backoff_exponent a \<le> 2 ^ backoff_exponent b" by (intro power_increasing) simp_all
  then have "max 0 initial_delay * 2 ^ backoff_exponent a \<le> max 0 initial_delay * 2 ^ backoff_exponent b"
    by (intro mult_left_mono) simp_all
  then show ?thesis unfolding reference_delay_eq by linarith
qed

text \<open>C32. Whatever the jitter arguments and the attempt number, the delay computed in extended
  precision is never negative and never exceeds the configured maximum (a negative maximum counts
  as zero): rounding cannot push the jittered delay past the cap.\<close>

theorem reconnect_delay_in_bounds:
  assumes "initial_delay < 2 ^ 63" and "max_delay < 2 ^ 63"
  shows "reconnect_delay_for_attempt long_double initial_delay max_delay jitter attempt sample
           \<in> {0 .. max 0 max_delay}"
  using long_double.delay_bounds [OF assms] by simp

theorem reconnect_delay_in_bounds_witness:
  "reconnect_delay_for_attempt long_double 1000 5000 (1 / 2) 4 (9 / 10) \<in> {0 .. 5000}"
  using reconnect_delay_in_bounds [of 1000 5000 "1 / 2" 4 "9 / 10"] by simp

text \<open>C33. Without jitter the floating-point computation agrees exactly with the integer reference
  for every 64-bit delay and every attempt: \<^verbatim>\<open>initial * 2^min(attempt - 1, 62)\<close> capped at the maximum,
  with no rounding error and no overflow, so the delay never shrinks from one attempt to the
  next.\<close>

theorem reconnect_delay_exact:
  assumes "initial_delay < 2 ^ 63" and "max_delay < 2 ^ 63" and "jitter \<le> 0"
  shows "reconnect_delay_for_attempt long_double initial_delay max_delay jitter attempt sample =
           reference_delay initial_delay max_delay attempt
       \<and> (attempt \<le> later \<longrightarrow>
           reconnect_delay_for_attempt long_double initial_delay max_delay jitter attempt sample
         \<le> reconnect_delay_for_attempt long_double initial_delay max_delay jitter later sample)"
proof -
  have "reconnect_delay_for_attempt long_double initial_delay max_delay jitter k sample =
      reference_delay initial_delay max_delay k" for k
    using long_double.delay_without_jitter [OF assms] by (simp only: reference_delay_eq)
  then show ?thesis using reference_delay_mono by simp
qed

theorem reconnect_delay_exact_witness:
  "reconnect_delay_for_attempt long_double 1000 5000 0 3 (1 / 4) = 4000
   \<and> reconnect_delay_for_attempt long_double 1000 5000 0 3 (1 / 4)
       \<le> reconnect_delay_for_attempt long_double 1000 5000 0 9 (1 / 4)"
  using reconnect_delay_exact [of 1000 5000 0 3 "1 / 4" 9]
  by (simp add: reference_delay_def numeral_eq_Suc)

end
