(* ===== verification/Client.thy ===== *)
theory Client
  imports Json_Parser Object_Parsers Socket Base64_Proxy Engineio_Client Reconnection
begin

text \<open>
  The client (\<^verbatim>\<open>src/client.cpp\<close>, \<^verbatim>\<open>src/client_impl.hpp\<close>, \<^verbatim>\<open>include/sioxx/client_options.hpp\<close>): its options,
  the choice of the parser, connecting, replacing the Engine.IO connection, the polling fallback,
  reconnection, routing of packets to the namespace sockets, and shutdown.

  As in the theory \<open>Socket\<close>, a function is modelled by its sections: each definition is what one
  thread does in one go, and returns the new state, the tasks the same thread does next, what was
  observed, and the tasks of a thread it starts. A section is cut at every access to an atomic
  flag, at every mutex and at every call out of the client. The result is \<^const>\<open>None\<close> while the
  section cannot start, because a mutex is taken or a joined thread still runs. \<open>sockets_owner\<close>
  and \<open>reconnect_owner\<close> are the threads that hold \<^verbatim>\<open>sockets_mutex_\<close> and \<^verbatim>\<open>reconnect_mutex_\<close> over several
  sections. \<^verbatim>\<open>engineio_mutex_\<close>, \<^verbatim>\<open>send_mutex_\<close> and \<^verbatim>\<open>handler_mutex_\<close> are only held within one section.

  The connections the client has made are kept in a list, so that the identity of a shared pointer
  is an index. \<open>In_call\<close> marks a call out of the client that has not returned: a callback of the
  application, or a transport that is being closed. The sockets and connections are those of the theories \<open>Socket\<close> and
  \<open>Engineio_Client\<close>.
\<close>

section \<open>Options and parsers\<close>

datatype parser_kind = Parser_json | Parser_msgpack

record proxy_options =
  proxy_uri :: string
  proxy_username :: string
  proxy_password :: string

text \<open>A parser supplied by the application is known by its behaviour only.\<close>

codatatype custom_parser =
  Custom_parser (custom_encode: "packet \<Rightarrow> cpp_exn + frame list")
    (custom_decode: "string \<Rightarrow> bool \<Rightarrow> packet option \<times> custom_parser")

datatype parser =
    Json_parser json_parser
  | Msgpack_parser
  | Supplied_parser custom_parser

record client_options =
  opt_parser :: parser_kind
  parser_factory :: "custom_parser option option"
  verify_tls :: bool
  force_http_polling :: bool
  extra_headers :: "(string \<times> string) list"
  opt_proxy :: "proxy_options option"
  engineio_path :: string
  opt_query :: "(string \<times> string) list"
  reconnect_attempts :: int
  reconnect_delay :: int
  reconnect_delay_max :: int
  reconnect_randomization_factor :: real

definition default_options :: client_options where
  "default_options =
     \<lparr>opt_parser = Parser_json, parser_factory = None, verify_tls = True, force_http_polling = False,
      extra_headers = [], opt_proxy = None, engineio_path = ''/socket.io/'', opt_query = [],
      reconnect_attempts = 0, reconnect_delay = 2000, reconnect_delay_max = 30000,
      reconnect_randomization_factor = 1 / 2\<rparr>"

definition parser_encode :: "json_lib \<Rightarrow> parser \<Rightarrow> packet \<Rightarrow> cpp_exn + frame list" where
  "parser_encode lib ps p =
     (case ps of
        Json_parser st \<Rightarrow> json_parser_encode lib p
      | Msgpack_parser \<Rightarrow> msgpack_parser_encode lib p
      | Supplied_parser cp \<Rightarrow> custom_encode cp p)"

definition parser_decode :: "json_lib \<Rightarrow> parser decoder" where
  "parser_decode lib ps pl bin =
     (case ps of
        Json_parser st \<Rightarrow> map_option (\<lambda>(st', out). (Json_parser st', out)) (json_parser_decode lib st pl bin)
      | Msgpack_parser \<Rightarrow> map_option (\<lambda>(st', out). (Msgpack_parser, out)) (msgpack_parser_decode lib () pl bin)
      | Supplied_parser cp \<Rightarrow>
          (case custom_decode cp pl bin of (out, cp') \<Rightarrow> Some (Supplied_parser cp', out)))"

section \<open>State\<close>

text \<open>What a transport is configured with, and a connection on such a transport.\<close>

record transport_config =
  tc_polling :: bool
  tc_verify_tls :: bool
  tc_headers :: "(string \<times> string) list"
  tc_proxy :: "proxy_config option"

record connection =
  engine :: engineio
  transport_of :: transport_config
  destroyed :: bool

datatype handler = H_open | H_close | H_fail | H_reconnecting | H_reconnect | H_error

datatype handler_call =
    Open_call
  | Close_call string
  | Fail_call
  | Reconnecting_call
  | Reconnect_call int int
  | Error_call string

fun handler_of :: "handler_call \<Rightarrow> handler" where
  "handler_of Open_call = H_open"
| "handler_of (Close_call reason) = H_close"
| "handler_of Fail_call = H_fail"
| "handler_of Reconnecting_call = H_reconnecting"
| "handler_of (Reconnect_call attempt delay) = H_reconnect"
| "handler_of (Error_call msg) = H_error"

record client =
  options :: client_options
  parser_state :: parser
  engines :: "connection list"
  current :: "nat option"
  base_uri :: string
  sockets :: "(string \<times> socket) list"
  handlers :: "handler \<Rightarrow> bool"
  attempts_used :: int
  intentional_close :: bool
  reconnect_thread :: "nat option"
  using_polling :: bool
  sockets_owner :: "nat option"
  reconnect_owner :: "nat option"

text \<open>Why a connection is being made: by the caller of \<^verbatim>\<open>connect\<close>, as fallback, or to reconnect.\<close>

datatype reason = By_connect string | By_fallback string | By_reconnect string

datatype ctask =
    C_connect string
  | C_close
  | C_sync_close
  | C_socket string json
  | C_set_handler handler bool
  | Stop_reconnect
  | Set_base_uri string
  | Connect_reset string
  | Connect_engine string
  | Ensure_engineio reason
  | Install nat reason
  | Open_engine nat reason
  | Release nat
  | Handle_open nat
  | Handle_close nat string
  | Handle_frame nat string bool
  | Handle_error nat string
  | On_open
  | On_close string
  | On_frame string bool
  | Polling_fallback string
  | Reconnect_decision
  | Schedule_reconnect
  | Schedule_lock int
  | Spawn_reconnect int string
  | Reconnect_wait int string
  | Reconnect_sleep time string
  | Reconnect_go string
  | Reconnect_open nat string
  | Close_snapshot
  | Close_disconnect string
  | Close_engine
  | Engine_close nat
  | Sync_engine
  | Engine_sync_close nat
  | Wait_snapshot
  | Join nat
  | Unlock_sockets
  | In_call
  | Call_handler handler_call
  | Send_packet packet
  | On_socket string task

datatype cobs =
    Socket_obs string obs
  | Engine_obs nat eio_out
  | Handler_called handler_call
  | Client_threw cpp_exn
  | Client_escaped cpp_exn

text \<open>
  What a section reads of its surroundings: the JSON library, the rounding of \<^verbatim>\<open>long double\<close>, the clock,
  the jitter drawn, the own thread, the index of the next thread, and which threads have finished.
\<close>

record context_of =
  ctx_lib :: json_lib
  ctx_rnd :: "real \<Rightarrow> real"
  ctx_time :: time
  ctx_sample :: real
  ctx_me :: nat
  ctx_next :: nat
  ctx_finished :: "nat \<Rightarrow> bool"

type_synonym result = "(client \<times> ctask list \<times> cobs list \<times> ctask list option) option"

definition continue_with :: "client \<Rightarrow> ctask list \<Rightarrow> result" where
  "continue_with c ts = Some (c, ts, [], None)"

definition observed :: "client \<Rightarrow> ctask list \<Rightarrow> cobs list \<Rightarrow> result" where
  "observed c ts ob = Some (c, ts, ob, None)"

definition client_new :: "client_options \<Rightarrow> cpp_exn + client" where
  "client_new opts =
     (case (case parser_factory opts of
              Some made \<Rightarrow>
                (case made of
                   None \<Rightarrow> Inl (Invalid_argument ''client_options::parser_factory returned null'')
                 | Some cp \<Rightarrow> Inr (Supplied_parser cp))
            | None \<Rightarrow>
                (case opt_parser opts of
                   Parser_msgpack \<Rightarrow> Inr Msgpack_parser
                 | Parser_json \<Rightarrow> Inr (Json_parser json_parser_new)))
      of
        Inl e \<Rightarrow> Inl e
      | Inr ps \<Rightarrow>
          Inr \<lparr>options = opts, parser_state = ps, engines = [], current = None, base_uri = [],
               sockets = [], handlers = (\<lambda>h. False), attempts_used = 0, intentional_close = False,
               reconnect_thread = None, using_polling = False, sockets_owner = None,
               reconnect_owner = None\<rparr>)"

text \<open>Insertion into a \<^verbatim>\<open>std::map\<close>, whose entries are listed in key order.\<close>

fun map_put :: "'k::linorder \<Rightarrow> 'v \<Rightarrow> ('k \<times> 'v) list \<Rightarrow> ('k \<times> 'v) list" where
  "map_put k v [] = [(k, v)]"
| "map_put k v ((k', v') # m) =
     (if k < k' then (k, v) # (k', v') # m else if k = k' then (k, v) # m else (k', v') # map_put k v m)"

definition set_engine :: "nat \<Rightarrow> engineio \<Rightarrow> client \<Rightarrow> client" where
  "set_engine n e c = c\<lparr>engines := (engines c)[n := (engines c ! n)\<lparr>engine := e\<rparr>]\<rparr>"

definition engine_obs :: "nat \<Rightarrow> eio_out list \<Rightarrow> cobs list" where
  "engine_obs n outs = map (Engine_obs n) outs"

text \<open>The calls of a connection to the handlers that \<^verbatim>\<open>bind_engineio_callbacks\<close> installed.\<close>

fun bound_callback :: "nat \<Rightarrow> eio_out \<Rightarrow> ctask list" where
  "bound_callback n Open_out = [Handle_open n]"
| "bound_callback n (Close_out reason) = [Handle_close n reason]"
| "bound_callback n (Frame_out pl bin) = [Handle_frame n pl bin]"
| "bound_callback n (Error_out msg) = [Handle_error n msg]"
| "bound_callback n out = []"

definition bind_engineio_callbacks :: "nat \<Rightarrow> eio_out list \<Rightarrow> ctask list" where
  "bind_engineio_callbacks n outs = concat (map (bound_callback n) outs)"

section \<open>Connecting\<close>

text \<open>A transport as it is made, and its setters, which both transports have.\<close>

definition transport_made :: "bool \<Rightarrow> transport_config" where
  "transport_made polling = \<lparr>tc_polling = polling, tc_verify_tls = True, tc_headers = [], tc_proxy = None\<rparr>"

definition set_verify_tls :: "bool \<Rightarrow> transport_config \<Rightarrow> transport_config" where
  "set_verify_tls verify tc = tc\<lparr>tc_verify_tls := verify\<rparr>"

definition set_extra_headers :: "(string \<times> string) list \<Rightarrow> transport_config \<Rightarrow> transport_config" where
  "set_extra_headers headers tc = tc\<lparr>tc_headers := headers\<rparr>"

definition set_proxy :: "string \<Rightarrow> string \<Rightarrow> string \<Rightarrow> transport_config \<Rightarrow> cpp_exn + transport_config" where
  "set_proxy uri username password tc =
     (case make_proxy_config uri username password of
        Inl e \<Rightarrow> Inl e
      | Inr proxy \<Rightarrow> Inr (tc\<lparr>tc_proxy := proxy\<rparr>))"

definition make_configured_transport :: "bool \<Rightarrow> client_options \<Rightarrow> cpp_exn + transport_config" where
  "make_configured_transport polling opts =
     (let tc = set_verify_tls (verify_tls opts) (transport_made polling);
          tc = (if extra_headers opts \<noteq> [] then set_extra_headers (extra_headers opts) tc else tc)
      in case opt_proxy opts of
           None \<Rightarrow> Inr tc
         | Some po \<Rightarrow> set_proxy (proxy_uri po) (proxy_username po) (proxy_password po) tc)"

definition stop_reconnect_thread :: "nat \<Rightarrow> client \<Rightarrow> result" where
  "stop_reconnect_thread me c =
     (if reconnect_owner c \<noteq> None then None
      else
        (case reconnect_thread c of
           Some r \<Rightarrow>
             (if r \<noteq> me then continue_with (c\<lparr>reconnect_thread := None\<rparr>) [Join r] else continue_with c [])
         | None \<Rightarrow> continue_with c []))"

definition client_connect :: "string \<Rightarrow> client \<Rightarrow> result" where
  "client_connect uri c =
     continue_with c ((if intentional_close c then [Stop_reconnect] else []) @ [Set_base_uri uri, Connect_reset uri])"

definition connect_reset :: "nat \<Rightarrow> string \<Rightarrow> client \<Rightarrow> result" where
  "connect_reset me uri c =
     (if sockets_owner c \<noteq> None then None
      else
        continue_with (c\<lparr>sockets_owner := Some me, intentional_close := False\<rparr>)
          (map (\<lambda>(ns, s). On_socket ns Resume_timed_acks) (sockets c) @ [Unlock_sockets, Connect_engine uri]))"

definition connect_engine :: "string \<Rightarrow> client \<Rightarrow> result" where
  "connect_engine uri c =
     continue_with (c\<lparr>using_polling := force_http_polling (options c), attempts_used := 0\<rparr>)
       [Ensure_engineio (By_connect uri)]"

text \<open>
  An exception while connecting reaches the caller of \<^verbatim>\<open>connect\<close>, is reported to the error handler by
  the reconnecting thread, and leaves the transport's handler in the case of the fallback.
\<close>

fun exn_what :: "cpp_exn \<Rightarrow> string" where
  "exn_what (Invalid_argument msg) = msg"
| "exn_what (Length_error msg) = msg"
| "exn_what (Logic_error msg) = msg"
| "exn_what (Runtime_error msg) = msg"
| "exn_what e = []"

fun connecting_failed :: "reason \<Rightarrow> cpp_exn \<Rightarrow> client \<Rightarrow> result" where
  "connecting_failed (By_connect uri) e c = observed c [] [Client_threw e]"
| "connecting_failed (By_fallback msg) e c = observed c [] [Client_escaped e]"
| "connecting_failed (By_reconnect uri) e c =
     continue_with c [Call_handler (Error_call (''sioxx reconnect: '' @ exn_what e))]"

definition ensure_engineio :: "reason \<Rightarrow> client \<Rightarrow> result" where
  "ensure_engineio why c =
     (case make_configured_transport (using_polling c) (options c) of
        Inl e \<Rightarrow> connecting_failed why e c
      | Inr tc \<Rightarrow>
          continue_with
            (c\<lparr>engines := engines c @ [\<lparr>engine = set_handlers True True True True (set_transport engineio_new),
                 transport_of = tc, destroyed = False\<rparr>]\<rparr>)
            [Install (length (engines c)) why])"

fun after_install :: "nat \<Rightarrow> reason \<Rightarrow> ctask list" where
  "after_install n (By_connect uri) = [Open_engine n (By_connect uri)]"
| "after_install n (By_fallback msg) = [Open_engine n (By_fallback msg)]"
| "after_install n (By_reconnect uri) = [Call_handler Reconnecting_call, Reconnect_open n uri]"

fun after_refusal :: "reason \<Rightarrow> ctask list" where
  "after_refusal (By_fallback msg) = [Call_handler (Error_call msg)]"
| "after_refusal why = []"

definition install_engineio :: "nat \<Rightarrow> reason \<Rightarrow> client \<Rightarrow> result" where
  "install_engineio n why c =
     (if intentional_close c then continue_with c (Release n # after_refusal why)
      else
        continue_with (c\<lparr>current := Some n\<rparr>)
          ((case current c of None \<Rightarrow> [] | Some old \<Rightarrow> [Release old]) @ after_install n why))"

fun reason_uri :: "reason \<Rightarrow> client \<Rightarrow> string" where
  "reason_uri (By_connect uri) c = uri"
| "reason_uri (By_fallback msg) c = base_uri c"
| "reason_uri (By_reconnect uri) c = uri"

fun reason_transport :: "reason \<Rightarrow> client \<Rightarrow> string" where
  "reason_transport (By_fallback msg) c = ''polling''"
| "reason_transport why c = (if using_polling c then ''polling'' else ''websocket'')"

definition open_engine :: "json_lib \<Rightarrow> nat \<Rightarrow> reason \<Rightarrow> client \<Rightarrow> result" where
  "open_engine lib n why c =
     (case build_engineio_url (reason_uri why c) (engineio_path (options c)) (opt_query (options c))
             (reason_transport why c) of
        Inl e \<Rightarrow> connecting_failed why e c
      | Inr url \<Rightarrow>
          (case eio_open_url url (engine (engines c ! n)) of
             (e', outs, None) \<Rightarrow> observed (set_engine n e' c) (after_refusal why) (engine_obs n outs)
           | (e', outs, Some e) \<Rightarrow> connecting_failed why e (set_engine n e' c)))"

section \<open>Events of the connection\<close>

definition handle_engineio_open :: "nat \<Rightarrow> client \<Rightarrow> result" where
  "handle_engineio_open n c = continue_with c (if current c = Some n then [On_open] else [])"

definition handle_engineio_close :: "nat \<Rightarrow> string \<Rightarrow> client \<Rightarrow> result" where
  "handle_engineio_close n reason c = continue_with c (if current c = Some n then [On_close reason] else [])"

definition handle_engineio_frame :: "nat \<Rightarrow> string \<Rightarrow> bool \<Rightarrow> client \<Rightarrow> result" where
  "handle_engineio_frame n pl bin c = continue_with c (if current c = Some n then [On_frame pl bin] else [])"

definition handle_engineio_error :: "nat \<Rightarrow> string \<Rightarrow> client \<Rightarrow> result" where
  "handle_engineio_error n msg c =
     continue_with c
       (if current c \<noteq> Some n then []
        else if \<not> using_polling c \<and> \<not> eio_open (engine (engines c ! n)) then [Polling_fallback msg]
        else [Call_handler (Error_call msg)])"

definition activate_polling_fallback :: "string \<Rightarrow> client \<Rightarrow> result" where
  "activate_polling_fallback msg c =
     (if intentional_close c \<or> using_polling c then continue_with c [Call_handler (Error_call msg)]
      else
        continue_with (c\<lparr>using_polling := True\<rparr>)
          [Call_handler (Error_call ''WebSocket connection failed; switching to HTTP long-polling''),
           Ensure_engineio (By_fallback msg)])"

definition on_engineio_open :: "nat \<Rightarrow> client \<Rightarrow> result" where
  "on_engineio_open me c =
     (if sockets_owner c \<noteq> None then None
      else
        continue_with (c\<lparr>sockets_owner := Some me\<rparr>)
          (map (\<lambda>(ns, s). On_socket ns Send_connect) (sockets c) @ [Unlock_sockets, Call_handler Open_call]))"

definition on_engineio_close :: "nat \<Rightarrow> string \<Rightarrow> client \<Rightarrow> result" where
  "on_engineio_close me reason c =
     (if sockets_owner c \<noteq> None then None
      else
        continue_with (c\<lparr>sockets_owner := Some me\<rparr>)
          (map (\<lambda>(ns, s). On_socket ns (Mark_connected False [])) (sockets c)
           @ [Unlock_sockets, Call_handler (Close_call reason), Reconnect_decision]))"

definition reconnect_decision :: "client \<Rightarrow> result" where
  "reconnect_decision c =
     continue_with c (if \<not> intentional_close c \<and> 0 < reconnect_attempts (options c) then [Schedule_reconnect] else [])"

definition uint_max :: int where
  "uint_max = 2 ^ 32 - 1"

definition schedule_reconnect :: "(real \<Rightarrow> real) \<Rightarrow> real \<Rightarrow> client \<Rightarrow> result" where
  "schedule_reconnect rnd u c =
     (let opts = options c
      in if reconnect_attempts opts \<le> attempts_used c then continue_with c [Call_handler Fail_call]
         else
           let attempt = attempts_used c;
               c1 = c\<lparr>attempts_used := attempt + 1\<rparr>;
               delay = reconnect_delay_for_attempt rnd (Client.reconnect_delay opts) (reconnect_delay_max opts)
                 (reconnect_randomization_factor opts) (attempts_used c1) u
           in continue_with c1 [Call_handler (Reconnect_call attempt (min delay uint_max)), Schedule_lock delay])"

definition schedule_lock :: "nat \<Rightarrow> int \<Rightarrow> client \<Rightarrow> result" where
  "schedule_lock me delay c =
     (if reconnect_owner c \<noteq> None then None
      else if intentional_close c then continue_with c []
      else
        continue_with (c\<lparr>reconnect_owner := Some me\<rparr>)
          ((case reconnect_thread c of None \<Rightarrow> [] | Some r \<Rightarrow> [Join r]) @ [Spawn_reconnect delay (base_uri c)]))"

definition spawn_reconnect :: "nat \<Rightarrow> int \<Rightarrow> string \<Rightarrow> client \<Rightarrow> result" where
  "spawn_reconnect new delay uri c =
     Some (c\<lparr>reconnect_thread := Some new, reconnect_owner := None\<rparr>, [], [], Some [Reconnect_wait delay uri])"

text \<open>
  The timed wait of the reconnecting thread: it enters the wait and leaves it with the mutex held,
  and the mutex is free in between.
\<close>

definition reconnect_wait :: "time \<Rightarrow> int \<Rightarrow> string \<Rightarrow> client \<Rightarrow> result" where
  "reconnect_wait t delay uri c =
     (if reconnect_owner c \<noteq> None then None
      else continue_with c (if intentional_close c then [] else [Reconnect_sleep (t + delay * ticks_per_ms) uri]))"

definition reconnect_sleep :: "time \<Rightarrow> time \<Rightarrow> string \<Rightarrow> client \<Rightarrow> result" where
  "reconnect_sleep t until uri c =
     (if reconnect_owner c \<noteq> None then None
      else if intentional_close c then continue_with c []
      else if t < until then None
      else continue_with c [Reconnect_go uri])"

definition reconnect_go :: "string \<Rightarrow> client \<Rightarrow> result" where
  "reconnect_go uri c =
     continue_with c (if intentional_close c then [] else [Ensure_engineio (By_reconnect uri)])"

definition reconnect_open :: "nat \<Rightarrow> string \<Rightarrow> client \<Rightarrow> result" where
  "reconnect_open n uri c =
     continue_with c (if intentional_close c then [Release n] else [Open_engine n (By_reconnect uri)])"

section \<open>Sockets and packets\<close>

text \<open>
  What a packet does: \<open>route\<close> gives the operation of the socket of its namespace, if it has one.
\<close>

fun event_name :: "json \<Rightarrow> string" where
  "event_name (JString s) = s"
| "event_name v = []"

fun event_task :: "json \<Rightarrow> int \<Rightarrow> task list" where
  "event_task (JArray (v # vs)) i = [Dispatch_event (event_name v) (JArray vs) i]"
| "event_task v i = []"

definition ack_task :: "json \<Rightarrow> int \<Rightarrow> task list" where
  "ack_task v i = (if 0 \<le> i then [Dispatch_ack i v] else [])"

definition route :: "packet \<Rightarrow> task list" where
  "route p =
     (case pk_type p of
        Connect \<Rightarrow> [Mark_connected True []]
      | Disconnect \<Rightarrow> [Mark_connected False []]
      | Connect_error \<Rightarrow> [Dispatch_event ''connect_error'' (pk_data p) (- 1)]
      | Event \<Rightarrow> event_task (pk_data p) (pk_id p)
      | Binary_event \<Rightarrow> event_task (pk_data p) (pk_id p)
      | Ack \<Rightarrow> ack_task (pk_data p) (pk_id p)
      | Binary_ack \<Rightarrow> ack_task (pk_data p) (pk_id p)
      | Unnamed i \<Rightarrow> [])"

definition on_engineio_frame :: "json_lib \<Rightarrow> string \<Rightarrow> bool \<Rightarrow> client \<Rightarrow> result" where
  "on_engineio_frame lib pl bin c =
     (if sockets_owner c \<noteq> None then None
      else
        (case parser_decode lib (parser_state c) pl bin of
           None \<Rightarrow> None
         | Some (ps, None) \<Rightarrow> continue_with (c\<lparr>parser_state := ps\<rparr>) []
         | Some (ps, Some p) \<Rightarrow>
             continue_with (c\<lparr>parser_state := ps\<rparr>)
               (case map_of (sockets c) (pk_nsp p) of
                  None \<Rightarrow> []
                | Some s \<Rightarrow> map (On_socket (pk_nsp p)) (route p))))"

definition client_opened :: "client \<Rightarrow> bool" where
  "client_opened c \<longleftrightarrow> (case current c of None \<Rightarrow> False | Some n \<Rightarrow> eio_open (engine (engines c ! n)))"

definition get_sessionid :: "client \<Rightarrow> string" where
  "get_sessionid c = (case current c of None \<Rightarrow> [] | Some n \<Rightarrow> session_id (engine (engines c ! n)))"

definition client_socket :: "nat \<Rightarrow> string \<Rightarrow> json \<Rightarrow> client \<Rightarrow> result" where
  "client_socket me ns a c =
     (if sockets_owner c \<noteq> None then None
      else
        let ns = (if ns = [] then ''/'' else ns)
        in case map_of (sockets c) ns of
             Some s \<Rightarrow>
               continue_with (if is_null a then c else c\<lparr>sockets := map_put ns (socket_set_auth a s) (sockets c)\<rparr>) []
           | None \<Rightarrow>
               (let s = socket_new ns a;
                    s = (if intentional_close c then cancel_timed_acks s else s);
                    c1 = c\<lparr>sockets := map_put ns s (sockets c)\<rparr>
                in if client_opened c1
                   then continue_with (c1\<lparr>sockets_owner := Some me\<rparr>) [On_socket ns Send_connect, Unlock_sockets]
                   else continue_with c1 []))"

text \<open>
  Sending runs with \<^verbatim>\<open>send_mutex_\<close> held, so the frames of one packet leave together. A packet that
  the parser cannot serialise is excluded.
\<close>

definition send_packet :: "json_lib \<Rightarrow> packet \<Rightarrow> client \<Rightarrow> result" where
  "send_packet lib p c =
     (case current c of
        None \<Rightarrow> continue_with c []
      | Some n \<Rightarrow>
          (case parser_encode lib (parser_state c) p of
             Inl e \<Rightarrow> None
           | Inr fs \<Rightarrow>
               observed c [] (engine_obs n (concat (map (\<lambda>(pl, bin). eio_send pl bin (engine (engines c ! n))) fs)))))"

text \<open>
  A task of a socket: the packets it hands over are sent by the client, and its callbacks return,
  before the socket goes on.
\<close>

fun obs_tasks :: "obs \<Rightarrow> ctask list" where
  "obs_tasks (Sent p) = [Send_packet p]"
| "obs_tasks (Sent_buffered p) = [Send_packet p]"
| "obs_tasks (Sent_reply n p) = [Send_packet p]"
| "obs_tasks (Called_listener cb event data) = [In_call]"
| "obs_tasks (Called_ack_listener cb event data a) = [In_call]"
| "obs_tasks (Called_ack cb data) = [In_call]"
| "obs_tasks (Called_timed i cb st data when_called) = [In_call]"
| "obs_tasks (Called_connect cb) = [In_call]"
| "obs_tasks (Called_disconnect cb reason) = [In_call]"
| "obs_tasks ob = []"

definition on_socket :: "time \<Rightarrow> string \<Rightarrow> task \<Rightarrow> client \<Rightarrow> result" where
  "on_socket t ns k c =
     (case map_of (sockets c) ns of
        None \<Rightarrow> None
      | Some s \<Rightarrow>
          (if k = Wait_for_timed_acks \<and> \<not> wait_for_timed_acks s then None
           else
             (case exec t k s of
                Inl e \<Rightarrow> None
              | Inr (s', ks, ob) \<Rightarrow>
                  observed (c\<lparr>sockets := map_put ns s' (sockets c)\<rparr>)
                    (concat (map obs_tasks ob) @ map (On_socket ns) ks)
                    (map (Socket_obs ns) ob))))"

section \<open>Shutdown\<close>

definition client_close :: "client \<Rightarrow> result" where
  "client_close c = continue_with (c\<lparr>intentional_close := True\<rparr>) [Close_snapshot]"

definition close_snapshot :: "client \<Rightarrow> result" where
  "close_snapshot c =
     (if sockets_owner c \<noteq> None then None
      else
        continue_with c
          (concat (map (\<lambda>(ns, s). [On_socket ns Cancel_timed_acks, Close_disconnect ns]) (sockets c)) @ [Close_engine]))"

definition close_disconnect :: "string \<Rightarrow> client \<Rightarrow> result" where
  "close_disconnect ns c =
     (case map_of (sockets c) ns of
        None \<Rightarrow> None
      | Some s \<Rightarrow> continue_with c (if Socket.connected s then [On_socket ns Send_disconnect] else []))"

definition close_engine :: "client \<Rightarrow> result" where
  "close_engine c = continue_with c (case current c of None \<Rightarrow> [] | Some n \<Rightarrow> [Engine_close n])"

definition engine_close :: "nat \<Rightarrow> client \<Rightarrow> result" where
  "engine_close n c =
     (case eio_close (engine (engines c ! n)) of (e, outs) \<Rightarrow> observed (set_engine n e c) [In_call] (engine_obs n outs))"

definition client_sync_close :: "client \<Rightarrow> result" where
  "client_sync_close c = continue_with c [C_close, Stop_reconnect, Sync_engine, Wait_snapshot]"

definition sync_engine :: "client \<Rightarrow> result" where
  "sync_engine c = continue_with c (case current c of None \<Rightarrow> [] | Some n \<Rightarrow> [Engine_sync_close n])"

definition engine_sync_close :: "nat \<Rightarrow> client \<Rightarrow> result" where
  "engine_sync_close n c =
     (case eio_sync_close False (engine (engines c ! n)) of
        (e, outs) \<Rightarrow> observed (set_engine n e c) (bind_engineio_callbacks n outs @ [In_call]) (engine_obs n outs))"

definition wait_snapshot :: "client \<Rightarrow> result" where
  "wait_snapshot c =
     (if sockets_owner c \<noteq> None then None
      else continue_with c (map (\<lambda>(ns, s). On_socket ns Wait_for_timed_acks) (sockets c)))"

definition set_handler :: "handler \<Rightarrow> bool \<Rightarrow> client \<Rightarrow> result" where
  "set_handler h installed c = continue_with (c\<lparr>handlers := (handlers c)(h := installed)\<rparr>) []"

definition call_handler :: "handler_call \<Rightarrow> client \<Rightarrow> result" where
  "call_handler call c =
     (if handlers c (handler_of call) then observed c [In_call] [Handler_called call] else continue_with c [])"

section \<open>The public class\<close>

text \<open>
  The class \<^verbatim>\<open>client\<close> forwards every call to the implementation it shares; its destructor is
  \<^verbatim>\<open>sync_close\<close>, whose exceptions it drops. A listener is given by whether it is set or removed.
\<close>

datatype client_api =
    Api_connect string
  | Api_close
  | Api_sync_close
  | Api_destroy
  | Api_socket string json
  | Api_set_open_listener bool
  | Api_set_close_listener bool
  | Api_set_fail_listener bool
  | Api_set_reconnecting_listener bool
  | Api_set_reconnect_listener bool
  | Api_set_error_listener bool

fun forward :: "client_api \<Rightarrow> ctask" where
  "forward (Api_connect uri) = C_connect uri"
| "forward Api_close = C_close"
| "forward Api_sync_close = C_sync_close"
| "forward Api_destroy = C_sync_close"
| "forward (Api_socket ns a) = C_socket ns a"
| "forward (Api_set_open_listener b) = C_set_handler H_open b"
| "forward (Api_set_close_listener b) = C_set_handler H_close b"
| "forward (Api_set_fail_listener b) = C_set_handler H_fail b"
| "forward (Api_set_reconnecting_listener b) = C_set_handler H_reconnecting b"
| "forward (Api_set_reconnect_listener b) = C_set_handler H_reconnect b"
| "forward (Api_set_error_listener b) = C_set_handler H_error b"

section \<open>Performing one section\<close>

fun cexec :: "context_of \<Rightarrow> ctask \<Rightarrow> client \<Rightarrow> result" where
  "cexec x (C_connect uri) c = client_connect uri c"
| "cexec x C_close c = client_close c"
| "cexec x C_sync_close c = client_sync_close c"
| "cexec x (C_socket ns a) c = client_socket (ctx_me x) ns a c"
| "cexec x (C_set_handler h b) c = set_handler h b c"
| "cexec x Stop_reconnect c = stop_reconnect_thread (ctx_me x) c"
| "cexec x (Set_base_uri uri) c = continue_with (c\<lparr>base_uri := uri\<rparr>) []"
| "cexec x (Connect_reset uri) c = connect_reset (ctx_me x) uri c"
| "cexec x (Connect_engine uri) c = connect_engine uri c"
| "cexec x (Ensure_engineio why) c = ensure_engineio why c"
| "cexec x (Install n why) c = install_engineio n why c"
| "cexec x (Open_engine n why) c = open_engine (ctx_lib x) n why c"
| "cexec x (Release n) c = continue_with c []"
| "cexec x (Handle_open n) c = handle_engineio_open n c"
| "cexec x (Handle_close n reason) c = handle_engineio_close n reason c"
| "cexec x (Handle_frame n pl bin) c = handle_engineio_frame n pl bin c"
| "cexec x (Handle_error n msg) c = handle_engineio_error n msg c"
| "cexec x On_open c = on_engineio_open (ctx_me x) c"
| "cexec x (On_close reason) c = on_engineio_close (ctx_me x) reason c"
| "cexec x (On_frame pl bin) c = on_engineio_frame (ctx_lib x) pl bin c"
| "cexec x (Polling_fallback msg) c = activate_polling_fallback msg c"
| "cexec x Reconnect_decision c = reconnect_decision c"
| "cexec x Schedule_reconnect c = schedule_reconnect (ctx_rnd x) (ctx_sample x) c"
| "cexec x (Schedule_lock delay) c = schedule_lock (ctx_me x) delay c"
| "cexec x (Spawn_reconnect delay uri) c = spawn_reconnect (ctx_next x) delay uri c"
| "cexec x (Reconnect_wait delay uri) c = reconnect_wait (ctx_time x) delay uri c"
| "cexec x (Reconnect_sleep until uri) c = reconnect_sleep (ctx_time x) until uri c"
| "cexec x (Reconnect_go uri) c = reconnect_go uri c"
| "cexec x (Reconnect_open n uri) c = reconnect_open n uri c"
| "cexec x Close_snapshot c = close_snapshot c"
| "cexec x (Close_disconnect ns) c = close_disconnect ns c"
| "cexec x Close_engine c = close_engine c"
| "cexec x (Engine_close n) c = engine_close n c"
| "cexec x Sync_engine c = sync_engine c"
| "cexec x (Engine_sync_close n) c = engine_sync_close n c"
| "cexec x Wait_snapshot c = wait_snapshot c"
| "cexec x (Join r) c = (if ctx_finished x r then continue_with c [] else None)"
| "cexec x Unlock_sockets c = continue_with (c\<lparr>sockets_owner := None\<rparr>) []"
| "cexec x In_call c = continue_with c []"
| "cexec x (Call_handler call) c = call_handler call c"
| "cexec x (Send_packet p) c = send_packet (ctx_lib x) p c"
| "cexec x (On_socket ns k) c = on_socket (ctx_time x) ns k c"

section \<open>Lemmas\<close>

lemma map_of_map_put [simp]: "map_of (map_put k v m) = (map_of m)(k \<mapsto> v)"
  by (induction k v m rule: map_put.induct) auto

lemma keys_map_put [simp]: "fst ` set (map_put k v m) = insert k (fst ` set m)"
  by (induction k v m rule: map_put.induct) auto

lemma set_map_put: "set (map_put k v m) \<subseteq> insert (k, v) (set m)"
  by (induction k v m rule: map_put.induct) auto

lemma sorted_map_put: "sorted_wrt (<) (map fst m) \<Longrightarrow> sorted_wrt (<) (map fst (map_put k v m))"
proof (induction k v m rule: map_put.induct)
  case (2 k v k' v' m)
  have "\<forall>x \<in> fst ` set (map_put k v m). k' < x" if "k' < k" using 2(2) that by auto
  then show ?case using 2 by (auto simp: neq_iff)
qed simp

lemma set_engine_simps [simp]:
  "length (engines (set_engine n e c)) = length (engines c)"
  "current (set_engine n e c) = current c" "sockets (set_engine n e c) = sockets c"
  "options (set_engine n e c) = options c" "intentional_close (set_engine n e c) = intentional_close c"
  "attempts_used (set_engine n e c) = attempts_used c" "using_polling (set_engine n e c) = using_polling c"
  "sockets_owner (set_engine n e c) = sockets_owner c" "reconnect_owner (set_engine n e c) = reconnect_owner c"
  "reconnect_thread (set_engine n e c) = reconnect_thread c" "parser_state (set_engine n e c) = parser_state c"
  "handlers (set_engine n e c) = handlers c" "base_uri (set_engine n e c) = base_uri c"
  by (simp_all add: set_engine_def)

lemma engine_set_engine:
  "m < length (engines c) \<Longrightarrow> engines (set_engine n e c) ! m = (if n = m then (engines c ! m)\<lparr>engine := e\<rparr> else engines c ! m)"
  by (simp add: set_engine_def nth_list_update)

lemmas client_sections = client_connect_def client_close_def client_sync_close_def client_socket_def
  stop_reconnect_thread_def connect_reset_def connect_engine_def ensure_engineio_def install_engineio_def
  open_engine_def handle_engineio_open_def handle_engineio_close_def handle_engineio_frame_def
  handle_engineio_error_def on_engineio_open_def on_engineio_close_def on_engineio_frame_def
  activate_polling_fallback_def reconnect_decision_def schedule_reconnect_def schedule_lock_def
  spawn_reconnect_def reconnect_wait_def reconnect_sleep_def reconnect_go_def reconnect_open_def
  close_snapshot_def close_disconnect_def close_engine_def engine_close_def sync_engine_def
  engine_sync_close_def wait_snapshot_def set_handler_def call_handler_def send_packet_def on_socket_def
  continue_with_def observed_def

lemma connecting_failed_facts:
  assumes "connecting_failed why e c = Some (c', new, ob, sp)"
  shows "c' = c" and "sp = None" and "new = [] \<or> (\<exists>call. new = [Call_handler call])"
  using assms by (cases why; auto simp: continue_with_def observed_def)+

lemma after_refusal_handlers: "k \<in> set (after_refusal why) \<Longrightarrow> \<exists>call. k = Call_handler call"
  by (cases why) auto

text \<open>The longer sections, by their outcomes.\<close>

lemma ensure_engineio_cases:
  assumes "ensure_engineio why c = Some (c', new, ob, sp)"
  obtains (failed) "c' = c" "sp = None" "new = [] \<or> (\<exists>call. new = [Call_handler call])"
  | (made) e where "c' = c\<lparr>engines := engines c @ [e]\<rparr>" "sp = None" "new = [Install (length (engines c)) why]"
      "engine e = set_handlers True True True True (set_transport engineio_new)"
  using assms connecting_failed_facts [of why _ c c' new ob sp]
  by (auto simp: ensure_engineio_def continue_with_def split: sum.splits)

lemma open_engine_cases:
  assumes "open_engine lib n why c = Some (c', new, ob, sp)"
  obtains (failed) "c' = c" "sp = None" "new = [] \<or> (\<exists>call. new = [Call_handler call])"
  | (opened) e' outs ex url where "eio_open_url url (engine (engines c ! n)) = (e', outs, ex)" "c' = set_engine n e' c"
      "sp = None" "\<And>k. k \<in> set new \<Longrightarrow> \<exists>call. k = Call_handler call"
proof (cases "build_engineio_url (reason_uri why c) (engineio_path (options c)) (opt_query (options c)) (reason_transport why c)")
  case (Inl e)
  then show ?thesis
    using assms connecting_failed_facts [of why e c c' new ob sp] failed by (auto simp: open_engine_def)
next
  case (Inr url)
  obtain e' outs ex where o: "eio_open_url url (engine (engines c ! n)) = (e', outs, ex)"
    by (cases "eio_open_url url (engine (engines c ! n))")
  show ?thesis
  proof (cases ex)
    case None
    then show ?thesis
      using assms Inr o opened after_refusal_handlers by (auto simp: open_engine_def observed_def)
  next
    case (Some e)
    then have "connecting_failed why e (set_engine n e' c) = Some (c', new, ob, sp)"
      using assms Inr o by (simp add: open_engine_def)
    from connecting_failed_facts [OF this] show ?thesis using opened [OF o] by auto
  qed
qed

lemma on_socket_cases:
  assumes "on_socket t ns k c = Some (c', new, ob, sp)"
  obtains s s' ks obs where "map_of (sockets c) ns = Some s" "exec t k s = Inr (s', ks, obs)"
    "c' = c\<lparr>sockets := map_put ns s' (sockets c)\<rparr>" "sp = None"
    "new = concat (map obs_tasks obs) @ map (On_socket ns) ks" "ob = map (Socket_obs ns) obs"
    "k = Wait_for_timed_acks \<Longrightarrow> wait_for_timed_acks s"
  using assms by (auto simp: on_socket_def observed_def split: if_splits option.splits sum.splits)

lemma obs_task_plain: "k \<in> set (concat (map obs_tasks ob)) \<Longrightarrow> k = In_call \<or> (\<exists>p. k = Send_packet p)"
proof -
  assume "k \<in> set (concat (map obs_tasks ob))"
  then obtain x where "k \<in> set (obs_tasks x)" by auto
  then show ?thesis by (cases x) auto
qed

lemma client_socket_cases:
  assumes "client_socket me ns a c = Some (c', new, ob, sp)"
  obtains (known) s where "map_of (sockets c) (if ns = [] then ''/'' else ns) = Some s" "sockets_owner c = None"
      "c' = (if is_null a then c else c\<lparr>sockets := map_put (if ns = [] then ''/'' else ns) (socket_set_auth a s) (sockets c)\<rparr>)"
      "new = []" "sp = None"
  | (fresh) n s c1 where "n = (if ns = [] then ''/'' else ns)" "map_of (sockets c) n = None" "sockets_owner c = None"
      "s = (if intentional_close c then cancel_timed_acks (socket_new n a) else socket_new n a)"
      "c1 = c\<lparr>sockets := map_put n s (sockets c)\<rparr>" "sp = None"
      "c' = c1 \<and> new = [] \<or> c' = c1\<lparr>sockets_owner := Some me\<rparr> \<and> new = [On_socket n Send_connect, Unlock_sockets]"
proof -
  define n where n: "n = (if ns = [] then ''/'' else ns)"
  have free: "sockets_owner c = None" using assms by (simp add: client_socket_def split: if_splits)
  show ?thesis
  proof (cases "map_of (sockets c) n")
    case None
    define s where s: "s = (if intentional_close c then cancel_timed_acks (socket_new n a) else socket_new n a)"
    show ?thesis
      using assms free None
      by (intro fresh [OF n None free s refl])
        (auto simp: client_socket_def Let_def continue_with_def n [symmetric] s [symmetric] split: if_splits)
  next
    case (Some s)
    then show ?thesis
      using assms free
      by (intro known [of s]) (auto simp: client_socket_def Let_def continue_with_def n [symmetric] split: if_splits)
  qed
qed

end
