(* ===== verification/Socket_System.thy ===== *)
theory Socket_System
  imports Socket "HOL-Library.Multiset" "HOL-Library.Sublist"
begin

text \<open>
  A socket shared by any number of threads. Each thread has a stack of tasks (\<^theory_text>\<open>Socket\<close>); at any
  moment one thread performs its next task, a thread calls an operation (from application code,
  from inside a user callback, or from the client), time passes, or the deadline worker, which is
  thread 0, takes a turn. The log is the history of what was observed.

  An invariant of this system is proved task by task: the locale \<open>task_invariant\<close> states what has
  to be shown, on the multiset of all tasks that are still to be performed.
\<close>

section \<open>The system\<close>

record system =
  sk :: socket
  clock :: time
  stacks :: "task list list"
  log :: "obs list"

fun is_api :: "task \<Rightarrow> bool" where
  "is_api Clear_connected = False"
| "is_api (Register_timed p d cb) = False"
| "is_api (Send_or_buffer p) = False"
| "is_api Flush = False"
| "is_api (Expire i) = False"
| "is_api (Finish_timed i) = False"
| "is_api (Send p) = False"
| "is_api (Send_buffered p) = False"
| "is_api (Send_reply n p) = False"
| "is_api (Call_listener cb e d) = False"
| "is_api (Call_ack_listener cb e d a) = False"
| "is_api (Call_ack cb d) = False"
| "is_api (Call_timed i cb st d at) = False"
| "is_api (Call_connect cb) = False"
| "is_api (Call_disconnect cb r) = False"
| "is_api k = True"

definition enabled :: "task \<Rightarrow> socket \<Rightarrow> bool" where
  "enabled k s \<longleftrightarrow> (k = Wait_for_timed_acks \<longrightarrow> wait_for_timed_acks s)"

fun claimed :: "worker_state \<Rightarrow> task list" where
  "claimed (Expiring i) = [Expire i]"
| "claimed w = []"

datatype system_event =
    Pass time
  | Spawn
  | Enter nat task
  | Run nat
  | Worker_turn
  | Worker_wake

inductive system_init :: "system \<Rightarrow> bool" where
  "system_init \<lparr>sk = socket_new ns a, clock = t, stacks = [[]], log = []\<rparr>"

inductive system_step :: "system \<Rightarrow> system_event \<Rightarrow> system \<Rightarrow> bool" where
  pass: "0 \<le> d \<Longrightarrow> system_step S (Pass d) (S\<lparr>clock := clock S + d\<rparr>)"
| spawn: "system_step S Spawn (S\<lparr>stacks := stacks S @ [[]]\<rparr>)"
| enter: "is_api k \<Longrightarrow> i < length (stacks S) \<Longrightarrow> (i = 0 \<longrightarrow> stacks S ! 0 \<noteq> []) \<Longrightarrow>
     system_step S (Enter i k) (S\<lparr>stacks := (stacks S)[i := k # stacks S ! i]\<rparr>)"
| run: "i < length (stacks S) \<Longrightarrow> stacks S ! i = k # ks \<Longrightarrow> enabled k (sk S) \<Longrightarrow>
     exec (clock S) k (sk S) = Inr (s', new, ob) \<Longrightarrow>
     system_step S (Run i)
       (S\<lparr>sk := s', stacks := (stacks S)[i := new @ ks], log := log S @ ob\<rparr>)"
| turn: "stacks S ! 0 = [] \<Longrightarrow> scheduler (sk S) = Some sc \<Longrightarrow> worker sc = Running \<Longrightarrow>
     worker_turn (clock S) sc = Inr sc' \<Longrightarrow>
     system_step S Worker_turn
       (S\<lparr>sk := (sk S)\<lparr>scheduler := Some sc'\<rparr>, stacks := (stacks S)[0 := claimed (worker sc')]\<rparr>)"
| wake: "stacks S ! 0 = [] \<Longrightarrow> scheduler (sk S) = Some sc \<Longrightarrow> worker sc \<noteq> Exited \<Longrightarrow>
     system_step S Worker_wake (S\<lparr>sk := (sk S)\<lparr>scheduler := Some (worker_wake sc)\<rparr>\<rparr>)"

definition tasks :: "system \<Rightarrow> task multiset" where
  "tasks S = mset (concat (stacks S))"

lemma tasks_update:
  assumes "i < length ss"
  obtains M where "mset (concat ss) = mset (ss ! i) + M"
    and "\<And>x. mset (concat (ss[i := x])) = mset x + M"
proof -
  have "ss = take i ss @ ss ! i # drop (Suc i) ss" using assms by (rule id_take_nth_drop)
  then have "mset (concat ss) = mset (ss ! i) + mset (concat (take i ss) @ concat (drop (Suc i) ss))"
    by (metis (no_types, lifting) concat.simps(2) concat_append mset_append union_lcomm)
  moreover have "mset (concat (ss[i := x])) = mset x + mset (concat (take i ss) @ concat (drop (Suc i) ss))" for x
    using assms by (simp add: upd_conv_take_nth_drop)
  ultimately show ?thesis using that by blast
qed

text \<open>The contract of an invariant of the system, task by task.\<close>

locale task_invariant =
  fixes I :: "socket \<Rightarrow> time \<Rightarrow> task multiset \<Rightarrow> obs list \<Rightarrow> bool"
  assumes I_start: "I (socket_new ns a) t {#} []"
    and I_run: "I s t (add_mset k M) L \<Longrightarrow> exec t k s = Inr (s', new, ob) \<Longrightarrow> I s' t (mset new + M) (L @ ob)"
    and I_api: "I s t M L \<Longrightarrow> is_api k \<Longrightarrow> I s t (add_mset k M) L"
    and I_pass: "I s t M L \<Longrightarrow> t \<le> t' \<Longrightarrow> I s t' M L"
    and I_turn: "I s t M L \<Longrightarrow> scheduler s = Some sc \<Longrightarrow> worker_turn t sc = Inr sc' \<Longrightarrow>
      I (s\<lparr>scheduler := Some sc'\<rparr>) t (mset (claimed (worker sc')) + M) L"
    and I_wake: "I s t M L \<Longrightarrow> scheduler s = Some sc \<Longrightarrow> I (s\<lparr>scheduler := Some (worker_wake sc)\<rparr>) t M L"
begin

lemma step:
  assumes "I (sk S) (clock S) (tasks S) (log S) \<and> stacks S \<noteq> []" and "system_step S e T"
  shows "I (sk T) (clock T) (tasks T) (log T) \<and> stacks T \<noteq> []"
  using assms(2)
proof (cases rule: system_step.cases)
  case (pass d)
  then show ?thesis using assms(1) I_pass [of "sk S" "clock S" _ _ "clock T"] by (simp add: tasks_def)
next
  case spawn
  then show ?thesis using assms(1) by (simp add: tasks_def)
next
  case (enter k i)
  obtain M where "mset (concat (stacks S)) = mset (stacks S ! i) + M"
    "\<And>x. mset (concat ((stacks S)[i := x])) = mset x + M"
    using tasks_update [OF enter(4)] by blast
  then have "tasks T = add_mset k (tasks S)" using enter by (simp add: tasks_def)
  then show ?thesis using assms(1) enter I_api by simp
next
  case (run i k ks s' new ob)
  obtain M where M: "mset (concat (stacks S)) = mset (stacks S ! i) + M"
    "\<And>x. mset (concat ((stacks S)[i := x])) = mset x + M"
    using tasks_update [OF run(3)] by blast
  from M(1) run(4) have "tasks S = add_mset k (mset ks + M)" by (simp add: tasks_def)
  moreover from M(2) run(2) have "tasks T = mset new + (mset ks + M)" by (simp add: tasks_def)
  ultimately show ?thesis using assms(1) run I_run [of "sk S" "clock S" k] by simp
next
  case (turn sc sc')
  obtain M where M: "mset (concat (stacks S)) = mset (stacks S ! 0) + M"
    "\<And>x. mset (concat ((stacks S)[0 := x])) = mset x + M"
    using tasks_update [of 0 "stacks S"] assms(1) by blast
  with turn have "tasks T = mset (claimed (worker sc')) + tasks S" by (simp add: tasks_def)
  then show ?thesis using assms(1) turn I_turn by simp
next
  case (wake sc)
  then show ?thesis using assms(1) I_wake by (simp add: tasks_def)
qed

end

sublocale task_invariant \<subseteq>
  sys: invariant system_init system_step "\<lambda>S. I (sk S) (clock S) (tasks S) (log S) \<and> stacks S \<noteq> []"
proof unfold_locales
  show "I (sk S) (clock S) (tasks S) (log S) \<and> stacks S \<noteq> []" if "system_init S" for S
    using that I_start by (auto simp: system_init.simps tasks_def)
qed (rule step)

section \<open>Executing scenarios\<close>

text \<open>The step relation as a function of the event, for running concrete interleavings.\<close>

fun perform :: "system \<Rightarrow> system_event \<Rightarrow> system option" where
  "perform S (Pass d) = (if 0 \<le> d then Some (S\<lparr>clock := clock S + d\<rparr>) else None)"
| "perform S Spawn = Some (S\<lparr>stacks := stacks S @ [[]]\<rparr>)"
| "perform S (Enter i k) =
     (if is_api k \<and> i < length (stacks S) \<and> (i = 0 \<longrightarrow> stacks S ! 0 \<noteq> [])
      then Some (S\<lparr>stacks := (stacks S)[i := k # stacks S ! i]\<rparr>) else None)"
| "perform S (Run i) =
     (if i < length (stacks S)
      then (case stacks S ! i of
              [] \<Rightarrow> None
            | k # ks \<Rightarrow>
                (if enabled k (sk S)
                 then (case exec (clock S) k (sk S) of
                         Inl e \<Rightarrow> None
                       | Inr (s', new, ob) \<Rightarrow>
                           Some (S\<lparr>sk := s', stacks := (stacks S)[i := new @ ks], log := log S @ ob\<rparr>))
                 else None))
      else None)"
| "perform S Worker_turn =
     (case scheduler (sk S) of
        None \<Rightarrow> None
      | Some sc \<Rightarrow>
          (if stacks S ! 0 = [] \<and> worker sc = Running
           then (case worker_turn (clock S) sc of
                   Inl e \<Rightarrow> None
                 | Inr sc' \<Rightarrow> Some (S\<lparr>sk := (sk S)\<lparr>scheduler := Some sc'\<rparr>,
                                     stacks := (stacks S)[0 := claimed (worker sc')]\<rparr>))
           else None))"
| "perform S Worker_wake =
     (case scheduler (sk S) of
        None \<Rightarrow> None
      | Some sc \<Rightarrow>
          (if stacks S ! 0 = [] \<and> worker sc \<noteq> Exited
           then Some (S\<lparr>sk := (sk S)\<lparr>scheduler := Some (worker_wake sc)\<rparr>\<rparr>) else None))"

fun perform_all :: "system \<Rightarrow> system_event list \<Rightarrow> system option" where
  "perform_all S [] = Some S"
| "perform_all S (e # es) = (case perform S e of None \<Rightarrow> None | Some T \<Rightarrow> perform_all T es)"

lemma perform_step: "perform S e = Some T \<Longrightarrow> system_step S e T"
  by (cases e) (auto split: if_splits list.splits sum.splits option.splits intro: system_step.intros)

lemma perform_reach:
  "perform_all S es = Some T \<Longrightarrow> reach system_init system_step S \<Longrightarrow> reach system_init system_step T"
  by (induction es arbitrary: S) (auto split: option.splits intro: reach_step perform_step)

text \<open>
  A scenario used by the witnesses: two emissions with a deadline and a plain one are buffered, an
  incoming event is acknowledged twice, the second emission is acknowledged in time, the first
  expires, and the plain emission is flushed on connection. \<open>scenario_mid\<close> is the state in
  which the first emission is buffered and waits for its outcome.
\<close>

definition scenario_start :: system where
  "scenario_start = \<lparr>sk = socket_new ''/'' JNull, clock = 100, stacks = [[]], log = []\<rparr>"

definition scenario_one :: "system_event list" where
  "scenario_one = [Spawn, Enter 1 (Emit_timed ''a'' JNull 1 (Some 7)), Run 1, Run 1]"

definition scenario_two :: "system_event list" where
  "scenario_two =
     [Enter 1 (Emit_timed ''b'' JNull 2 (Some 8)), Run 1, Run 1,
      Enter 1 (Emit ''c'' JNull), Run 1, Run 1,
      Enter 1 (On_any_ack (Some 9)), Run 1,
      Enter 1 (Dispatch_event ''e'' (JArray []) 4), Run 1, Run 1,
      Enter 1 (Acknowledge 0 JNull), Run 1, Run 1,
      Enter 1 (Acknowledge 0 JNull), Run 1,
      Enter 1 (Dispatch_ack 1 (JArray [])), Run 1, Run 1, Run 1,
      Pass 2000000, Worker_turn, Run 0, Run 0, Run 0,
      Enter 1 (Mark_connected True []), Run 1, Run 1, Run 1, Run 1]"

definition scenario_mid :: system where
  "scenario_mid = the (perform_all scenario_start scenario_one)"

definition scenario_end :: system where
  "scenario_end = the (perform_all scenario_mid scenario_two)"

lemma scenario_mid_reach: "reach system_init system_step scenario_mid"
proof -
  have "system_init scenario_start" by (auto simp: scenario_start_def intro: system_init.intros)
  moreover have "perform_all scenario_start scenario_one \<noteq> None" by code_simp
  ultimately show ?thesis by (auto simp: scenario_mid_def intro: perform_reach reach_init)
qed

lemma scenario_reach: "reach system_init system_step scenario_end"
proof -
  have "perform_all scenario_mid scenario_two \<noteq> None" by code_simp
  then show ?thesis by (auto simp: scenario_end_def intro: perform_reach scenario_mid_reach)
qed

lemmas section_defs = quiet_def quietly_def to_client_def socket_set_auth_def socket_on_def socket_on_ack_def
  socket_on_any_def socket_on_any_ack_def socket_off_def socket_off_all_def socket_on_connect_def
  socket_on_disconnect_def socket_connect_def socket_disconnect_def clear_connected_def socket_emit_def
  socket_emit_ack_def socket_emit_timed_def register_timed_ack_def socket_register_timed_def
  send_or_buffer_def expire_ack_def flush_send_buffer_def dispatch_event_def acknowledge_call_def
  dispatch_ack_def cancel_timed_acks_def resume_timed_acks_def finish_timed_ack_def mark_connected_def

lemmas section_splits = option.splits if_splits sum.splits prod.splits cpp_exn.splits

section \<open>Running callbacks are counted\<close>

fun is_running :: "task \<Rightarrow> bool" where
  "is_running (Call_timed i cb st d at) = True"
| "is_running (Finish_timed i) = True"
| "is_running k = False"

lemma api_not_running: "is_api k \<Longrightarrow> \<not> is_running k"
  by (cases k) auto

lemma claimed_not_running [simp]: "filter_mset is_running (mset (claimed w)) = {#}"
  by (cases w) auto

definition active_inv :: "socket \<Rightarrow> time \<Rightarrow> task multiset \<Rightarrow> obs list \<Rightarrow> bool" where
  "active_inv s t M L \<longleftrightarrow> active_timed_acks s = int (size (filter_mset is_running M))"

lemma active_run:
  assumes "active_inv s t (add_mset k M) L" and "exec t k s = Inr (s', new, ob)"
  shows "active_inv s' t (mset new + M) (L @ ob)"
  using assms
  by (cases k) (auto simp: active_inv_def section_defs Let_def split: section_splits)

interpretation active: task_invariant active_inv
proof unfold_locales
  show "active_inv (socket_new ns a) t {#} []" for ns a t by (simp add: active_inv_def socket_new_def)
qed (auto intro: active_run, auto simp: active_inv_def dest: api_not_running)

section \<open>One thread flushes, in order\<close>

fun is_flusher :: "task \<Rightarrow> bool" where
  "is_flusher Flush = True"
| "is_flusher (Send_buffered p) = True"
| "is_flusher k = False"

fun in_flight :: "task \<Rightarrow> packet list" where
  "in_flight (Send_buffered p) = [p]"
| "in_flight k = []"

fun buffered_of :: "obs \<Rightarrow> packet list" where
  "buffered_of (Buffered p) = [p]"
| "buffered_of ob = []"

fun flushed_of :: "obs \<Rightarrow> packet list" where
  "flushed_of (Sent_buffered p) = [p]"
| "flushed_of ob = []"

definition buffered :: "obs list \<Rightarrow> packet list" where
  "buffered L = concat (map buffered_of L)"

definition flushed :: "obs list \<Rightarrow> packet list" where
  "flushed L = concat (map flushed_of L)"

lemma api_not_flusher: "is_api k \<Longrightarrow> \<not> is_flusher k \<and> in_flight k = []"
  by (cases k) auto

lemma claimed_not_flusher [simp]: "filter_mset is_flusher (mset (claimed w)) = {#}"
  by (cases w) auto

lemma not_flusher_in_flight: "\<not> is_flusher k \<Longrightarrow> in_flight k = []"
  by (cases k) auto

text \<open>
  While the flag is set exactly one task is the flusher's; the packets it has sent, the one it has
  taken and those still in the buffer are, in this order, among those that were buffered.
\<close>

definition flush_inv :: "socket \<Rightarrow> time \<Rightarrow> task multiset \<Rightarrow> obs list \<Rightarrow> bool" where
  "flush_inv s t M L \<longleftrightarrow>
     (if flushing_send_buffer s
      then \<exists>k. filter_mset is_flusher M = {#k#} \<and>
             subseq (flushed L @ in_flight k @ send_buffer s) (buffered L)
      else filter_mset is_flusher M = {#} \<and> subseq (flushed L @ send_buffer s) (buffered L))"

lemma subseq_filter_right: "subseq (xs @ ys) zs \<Longrightarrow> subseq (xs @ filter P ys) zs"
  by (meson subseq_append_le_same_iff subseq_filter_left subseq_order.trans list_emb_append_mono subseq_order.refl)


lemma flush_frame:
  assumes "flush_inv s t (add_mset k M) L" and "\<not> is_flusher k"
    and "flushing_send_buffer s' = flushing_send_buffer s"
    and "filter_mset is_flusher (mset new) = {#}" and "flushed ob = []"
    and "\<And>xs. subseq (xs @ send_buffer s) (buffered L) \<Longrightarrow> subseq (xs @ send_buffer s') (buffered (L @ ob))"
  shows "flush_inv s' t (mset new + M) (L @ ob)"
proof -
  have "flushed (L @ ob) = flushed L" using assms(5) by (simp add: flushed_def)
  with assms(1-4) assms(6) [of "flushed L"] assms(6) [of "flushed L @ in_flight x" for x]
  show ?thesis by (auto simp: flush_inv_def)
qed

lemma buffered_append [simp]: "buffered (L @ ob) = buffered L @ buffered ob"
  and flushed_append [simp]: "flushed (L @ ob) = flushed L @ flushed ob"
  by (simp_all add: buffered_def flushed_def)


lemma exec_flushing:
  assumes "exec t k s = Inr (s', new, ob)" and "\<not> is_flusher k" and "\<And>c r. k \<noteq> Mark_connected c r"
  shows "flushing_send_buffer s' = flushing_send_buffer s"
    and "filter_mset is_flusher (mset new) = {#}"
  using assms by (cases k; auto simp: section_defs Let_def split: section_splits)+

lemma exec_flushed:
  assumes "exec t k s = Inr (s', new, ob)" and "\<not> is_flusher k"
  shows "flushed ob = []"
  using assms by (cases k; auto simp: section_defs Let_def flushed_def split: section_splits)

lemma exec_buffer:
  assumes "exec t k s = Inr (s', new, ob)" and "\<not> is_flusher k"
  shows "\<exists>P. send_buffer s' = filter P (send_buffer s) @ buffered ob"
proof (cases "\<exists>i. k = Expire i \<or> (\<exists>d. k = Dispatch_ack i d)")
  case True
  then obtain i where k: "k = Expire i \<or> (\<exists>d. k = Dispatch_ack i d)" by blast
  have "send_buffer s' = send_buffer s \<or> send_buffer s' = without_id i (send_buffer s)" "buffered ob = []"
    using assms k by (auto simp: section_defs Let_def buffered_def split: section_splits)
  then show ?thesis by (auto simp: without_id_def intro: exI [of _ "\<lambda>_. True"])
next
  case False
  show ?thesis
  proof (cases "k = Cancel_timed_acks")
    case True
    with assms show ?thesis by (auto simp: section_defs buffered_def)
  next
    case neq: False
    have "send_buffer s' = send_buffer s @ buffered ob"
      using assms False neq by (cases k; auto simp: section_defs Let_def buffered_def split: section_splits)
    then show ?thesis by (intro exI [of _ "\<lambda>_. True"]) simp
  qed
qed
lemma subseq_buffer:
  assumes "subseq (xs @ b) L"
  shows "subseq (xs @ filter P b @ ys) (L @ ys)"
  using list_emb_append_mono [OF subseq_filter_right [OF assms, of P] subseq_order.refl [of ys]] by simp

lemma subseq_drop_middle:
  assumes "subseq (xs @ y # ys) zs"
  shows "subseq (xs @ ys) zs"
proof -
  have "subseq (xs @ ys) (xs @ y # ys)" by (intro list_emb_append_mono) (auto intro: list_emb_Cons)
  then show ?thesis using assms by (rule subseq_order.trans)
qed

lemma flush_run:
  assumes I: "flush_inv s t (add_mset k M) L" and x: "exec t k s = Inr (s', new, ob)"
  shows "flush_inv s' t (mset new + M) (L @ ob)"
proof (cases "is_flusher k")
  case True
  then consider "k = Flush" | p where "k = Send_buffered p" by (cases k) auto
  then show ?thesis
  proof cases
    case 1
    then have "flushing_send_buffer s" "filter_mset is_flusher M = {#}"
      "subseq (flushed L @ send_buffer s) (buffered L)"
      using I by (auto simp: flush_inv_def split: if_splits)
    then show ?thesis using x 1 subseq_drop_middle [of "flushed L" "hd (send_buffer s)" "tl (send_buffer s)"]
      by (cases "send_buffer s") (auto simp: flush_inv_def section_defs Let_def flushed_def buffered_def
          split: section_splits)
  next
    case 2
    then have "flushing_send_buffer s" "filter_mset is_flusher M = {#}"
      "subseq (flushed L @ p # send_buffer s) (buffered L)"
      using I by (auto simp: flush_inv_def split: if_splits)
    then show ?thesis using x 2 subseq_drop_middle [of "flushed L" p "send_buffer s"]
      by (auto simp: flush_inv_def flushed_def buffered_def)
  qed
next
  case False
  obtain P where b: "send_buffer s' = filter P (send_buffer s) @ buffered ob"
    using exec_buffer [OF x False] by blast
  have f: "flushed ob = []" by (rule exec_flushed [OF x False])
  show ?thesis
  proof (cases "\<exists>c r. k = Mark_connected c r")
    case True
    then have "send_buffer s' = send_buffer s" "ob = []" "flushing_send_buffer s \<longrightarrow> flushing_send_buffer s'"
      "filter_mset is_flusher (mset new) =
        (if flushing_send_buffer s' \<and> \<not> flushing_send_buffer s then {#Flush#} else {#})"
      using x by (auto simp: section_defs Let_def split: section_splits)
    then show ?thesis using I False by (auto simp: flush_inv_def split: if_splits)
  next
    case nm: False
    have fl: "flushing_send_buffer s' = flushing_send_buffer s" "filter_mset is_flusher (mset new) = {#}"
      using exec_flushing [OF x False] nm by auto
    show ?thesis
      using I False fl f subseq_buffer [of "flushed L" "send_buffer s" "buffered L" P "buffered ob"]
        subseq_buffer [of "flushed L @ in_flight q" "send_buffer s" "buffered L" P "buffered ob" for q]
      by (auto simp: flush_inv_def b)
  qed
qed

interpretation flush: task_invariant flush_inv
proof unfold_locales
  show "flush_inv (socket_new ns a) t {#} []" for ns a t
    by (simp add: flush_inv_def socket_new_def flushed_def buffered_def)
qed (auto intro: flush_run, auto simp: flush_inv_def dest: api_not_flusher)
section \<open>Every timed emission is resolved at most once\<close>

fun call_of :: "task \<Rightarrow> int option" where
  "call_of (Call_timed i cb st d at) = Some i"
| "call_of k = None"

fun called_of :: "obs \<Rightarrow> int option" where
  "called_of (Called_timed i cb st d at) = Some i"
| "called_of ob = None"

definition calls :: "int \<Rightarrow> task multiset \<Rightarrow> nat" where
  "calls i M = size (filter_mset (\<lambda>k. call_of k = Some i) M)"

definition called :: "int \<Rightarrow> obs list \<Rightarrow> nat" where
  "called i L = length (filter (\<lambda>ob. called_of ob = Some i) L)"

definition waiting :: "int \<Rightarrow> socket \<Rightarrow> nat" where
  "waiting i s = (if map_of (timed_acks s) i = None then 0 else 1)"

definition once_inv :: "socket \<Rightarrow> time \<Rightarrow> task multiset \<Rightarrow> obs list \<Rightarrow> bool" where
  "once_inv s t M L \<longleftrightarrow> (\<forall>i. waiting i s + calls i M + called i L \<le> (if i < next_ack_id s then 1 else 0))"

lemma calls_simps [simp]:
  "calls i {#} = 0" "calls i (add_mset k M) = (if call_of k = Some i then 1 else 0) + calls i M"
  "calls i (M + N) = calls i M + calls i N"
  by (simp_all add: calls_def)

lemma called_simps [simp]:
  "called i [] = 0" "called i (ob # L) = (if called_of ob = Some i then 1 else 0) + called i L"
  "called i (L @ L') = called i L + called i L'"
  by (simp_all add: called_def)

lemma api_no_call: "is_api k \<Longrightarrow> call_of k = None"
  by (cases k) auto

lemma claimed_no_call [simp]: "calls i (mset (claimed w)) = 0"
  by (cases w) auto

text \<open>The tasks that change the timed acknowledgements; all others leave them alone.\<close>

fun is_timed :: "task \<Rightarrow> bool" where
  "is_timed (Register_timed p d cb) = True"
| "is_timed (Expire i) = True"
| "is_timed (Dispatch_ack i d) = True"
| "is_timed Cancel_timed_acks = True"
| "is_timed k = False"

lemma exec_untimed:
  assumes "exec t k s = Inr (s', new, ob)" and "\<not> is_timed k"
  shows "timed_acks s' = timed_acks s" and "scheduler s' = scheduler s"
    and "next_ack_id s \<le> next_ack_id s'"
  using assms by (cases k; auto simp: section_defs Let_def split: section_splits)+

lemma exec_calls:
  assumes "exec t k s = Inr (s', new, ob)" and "\<not> is_timed k"
  shows "calls i (mset new) + called i ob = calls i {#k#}"
  using assms by (cases k; auto simp: section_defs Let_def split: section_splits)

lemma is_timed_cases:
  assumes "is_timed k"
  obtains (register) p d cb where "k = Register_timed p d cb" | (expire) i where "k = Expire i"
    | (dispatch) i d where "k = Dispatch_ack i d" | (cancel) "k = Cancel_timed_acks"
  using assms by (cases k) auto

lemma register_cases:
  assumes "exec t (Register_timed p d cb) s = Inr (s', new, ob)"
  obtains (refused) e where "s' = s" "new = []" "ob = [Threw e]"
  | (accepted) sc i where "i = next_ack_id s" "\<not> timed_acks_closed s" "i < int_max"
      "sc = (case scheduler s of None \<Rightarrow> ack_scheduler_new | Some sc \<Rightarrow> sc)"
      "timed_acks s' = emplace i cb (timed_acks s)" "next_ack_id s' = i + 1"
      "scheduler s' = Some (snd (scheduler_add True True i d sc))" "pending_acks s' = pending_acks s"
      "timed_acks_closed s' = timed_acks_closed s"
      "(send_buffer s' = send_buffer s \<and> ob = [Registered i d]) \<or>
       (send_buffer s' = send_buffer s @ [p\<lparr>pk_id := i\<rparr>] \<and> ob = [Registered i d, Buffered (p\<lparr>pk_id := i\<rparr>)])"
      "new = [] \<or> new = [Send (p\<lparr>pk_id := i\<rparr>)]"
proof (cases "timed_acks_closed s \<or> int_max \<le> next_ack_id s")
  case True
  then show ?thesis
    using assms refused
    by (auto simp: socket_register_timed_def register_timed_ack_def Let_def split: if_splits)
next
  case False
  let ?sc = "case scheduler s of None \<Rightarrow> ack_scheduler_new | Some sc \<Rightarrow> sc"
  show ?thesis
    by (rule accepted [OF refl _ _ refl])
      (insert assms False, auto simp: socket_register_timed_def register_timed_ack_def Let_def
        split: if_splits)
qed

lemma expire_cases:
  assumes "exec t (Expire i) s = Inr (s', new, ob)"
  obtains (gone) "map_of (timed_acks s) i = None" "s' = s" "new = []" "ob = []"
  | (expired) cb where "map_of (timed_acks s) i = Some cb" "ob = []" "new = [Call_timed i cb Timeout JNull t]"
      "s' = s\<lparr>timed_acks := AList.delete i (timed_acks s), active_timed_acks := active_timed_acks s + 1,
         send_buffer := without_id i (send_buffer s)\<rparr>"
  using assms by (auto simp: section_defs split: section_splits)

lemma dispatch_cases:
  assumes "exec t (Dispatch_ack i data) s = Inr (s', new, ob)"
  obtains (unknown) "map_of (timed_acks s) i = None" "map_of (pending_acks s) i = None" "s' = s" "new = []" "ob = []"
  | (pending) cb where "map_of (timed_acks s) i = None" "map_of (pending_acks s) i = Some cb" "ob = []"
      "s' = s\<lparr>pending_acks := AList.delete i (pending_acks s)\<rparr>"
      "new = (case cb of None \<Rightarrow> [] | Some c \<Rightarrow> [Call_ack c data])"
  | (timed) cb sc expired sc' where "map_of (timed_acks s) i = Some cb" "scheduler s = Some sc" "ob = []"
      "scheduler_remove i t sc = (expired, sc')"
      "s' = s\<lparr>scheduler := Some sc', active_timed_acks := active_timed_acks s + 1,
         timed_acks := AList.delete i (timed_acks s), send_buffer := without_id i (send_buffer s)\<rparr>"
      "new = [Call_timed i cb (if expired then Timeout else Acknowledged) (if expired then JNull else data) t]"
  using assms by (auto simp: section_defs Let_def split: section_splits)

lemma exec_resolution:
  assumes x: "exec t k s = Inr (s', new, ob)"
  shows "waiting i s' + calls i (mset new) + called i ob
       \<le> waiting i s + calls i {#k#} + (if next_ack_id s \<le> i \<and> i < next_ack_id s' then 1 else 0)
     \<and> next_ack_id s \<le> next_ack_id s'"
proof (cases "is_timed k")
  case False
  with exec_untimed [OF x False] exec_calls [OF x False, of i] show ?thesis by (simp add: waiting_def)
next
  case True
  then show ?thesis
  proof (cases rule: is_timed_cases)
    case (register p d cb)
    from x [unfolded register] show ?thesis
      by (cases rule: register_cases) (auto simp: waiting_def emplace_def)
  next
    case (expire j)
    from x [unfolded expire] show ?thesis
      by (cases rule: expire_cases) (auto simp: expire waiting_def alist_simps)
  next
    case (dispatch j d)
    from x [unfolded dispatch] show ?thesis
      by (cases rule: dispatch_cases) (auto simp: dispatch waiting_def alist_simps split: option.splits)
  next
    case cancel
    with x show ?thesis by (auto simp: section_defs waiting_def)
  qed
qed

lemma once_run:
  assumes "once_inv s t (add_mset k M) L" and "exec t k s = Inr (s', new, ob)"
  shows "once_inv s' t (mset new + M) (L @ ob)"
  unfolding once_inv_def
proof
  fix i
  have "waiting i s + calls i (add_mset k M) + called i L \<le> (if i < next_ack_id s then 1 else 0)"
    using assms(1) by (simp add: once_inv_def)
  then show "waiting i s' + calls i (mset new + M) + called i (L @ ob) \<le> (if i < next_ack_id s' then 1 else 0)"
    using exec_resolution [OF assms(2), of i] by (auto split: if_splits)
qed

interpretation once: task_invariant once_inv
proof unfold_locales
  show "once_inv (socket_new ns a) t {#} []" for ns a t
    by (simp add: once_inv_def socket_new_def waiting_def)
  show "once_inv s t (add_mset k M) L" if "once_inv s t M L" "is_api k" for s t M L k
    using that api_no_call [of k] by (simp add: once_inv_def)
qed (auto intro: once_run, auto simp: once_inv_def waiting_def)

section \<open>Every event is acknowledged at most once\<close>

fun reply_of :: "task \<Rightarrow> nat option" where
  "reply_of (Send_reply n p) = Some n"
| "reply_of k = None"

fun replied_of :: "obs \<Rightarrow> nat option" where
  "replied_of (Sent_reply n p) = Some n"
| "replied_of ob = None"

definition replying :: "nat \<Rightarrow> task multiset \<Rightarrow> nat" where
  "replying n M = size (filter_mset (\<lambda>k. reply_of k = Some n) M)"

definition replied :: "nat \<Rightarrow> obs list \<Rightarrow> nat" where
  "replied n L = length (filter (\<lambda>ob. replied_of ob = Some n) L)"

definition flag_set :: "nat \<Rightarrow> socket \<Rightarrow> nat" where
  "flag_set n s = (if n < length (replies s) \<and> snd (replies s ! n) then 1 else 0)"

definition reply_inv :: "socket \<Rightarrow> time \<Rightarrow> task multiset \<Rightarrow> obs list \<Rightarrow> bool" where
  "reply_inv s t M L \<longleftrightarrow> (\<forall>n. replying n M + replied n L \<le> flag_set n s)"

lemma replying_simps [simp]:
  "replying n {#} = 0" "replying n (add_mset k M) = (if reply_of k = Some n then 1 else 0) + replying n M"
  "replying n (M + N) = replying n M + replying n N"
  by (simp_all add: replying_def)

lemma replied_simps [simp]:
  "replied n [] = 0" "replied n (ob # L) = (if replied_of ob = Some n then 1 else 0) + replied n L"
  "replied n (L @ L') = replied n L + replied n L'"
  by (simp_all add: replied_def)

lemma api_no_reply: "is_api k \<Longrightarrow> reply_of k = None"
  by (cases k) auto

lemma claimed_no_reply [simp]: "replying i (mset (claimed w)) = 0"
  by (cases w) auto

lemma exec_replies:
  assumes "exec t k s = Inr (s', new, ob)"
  shows "replying n (mset new) + replied n ob + flag_set n s \<le> replying n {#k#} + flag_set n s'"
  using assms
  by (cases k; auto simp: section_defs Let_def flag_set_def nth_append nth_list_update split: section_splits)

lemma reply_run:
  assumes "reply_inv s t (add_mset k M) L" and "exec t k s = Inr (s', new, ob)"
  shows "reply_inv s' t (mset new + M) (L @ ob)"
  unfolding reply_inv_def
proof
  fix n
  have "replying n (add_mset k M) + replied n L \<le> flag_set n s"
    using assms(1) by (simp add: reply_inv_def)
  then show "replying n (mset new + M) + replied n (L @ ob) \<le> flag_set n s'"
    using exec_replies [OF assms(2), of n] by (auto split: if_splits)
qed

interpretation reply: task_invariant reply_inv
proof unfold_locales
  show "reply_inv (socket_new ns a) t {#} []" for ns a t by (simp add: reply_inv_def)
  show "reply_inv s t (add_mset k M) L" if "reply_inv s t M L" "is_api k" for s t M L k
    using that api_no_reply [of k] by (simp add: reply_inv_def)
qed (auto intro: reply_run, auto simp: reply_inv_def flag_set_def)
section \<open>Deadlines decide the outcome\<close>

definition deadline_of :: "socket \<Rightarrow> int \<Rightarrow> time option" where
  "deadline_of s = (case scheduler s of None \<Rightarrow> Map.empty | Some sc \<Rightarrow> map_of (deadlines sc))"

text \<open>
  The outcome that a timed callback is given fits the deadline \<open>d\<close> of its emission: a timeout
  exactly when the decision was made at the deadline or later, and then without data.
\<close>

definition fits :: "time \<Rightarrow> ack_status \<Rightarrow> json \<Rightarrow> time \<Rightarrow> bool" where
  "fits d st data at \<longleftrightarrow> (st = Timeout \<longleftrightarrow> d \<le> at) \<and> (st = Timeout \<longrightarrow> data = JNull)"

fun registered_of :: "obs \<Rightarrow> (int \<times> time) list" where
  "registered_of (Registered i d) = [(i, d)]"
| "registered_of ob = []"

text \<open>The deadline with which the emission \<open>i\<close> was registered.\<close>

definition registered :: "obs list \<Rightarrow> int \<Rightarrow> time option" where
  "registered L = map_of (concat (map registered_of L))"

lemma registered_append [simp]: "registered (L @ L') = registered L' ++ registered L"
  and registered_Nil [simp]: "registered [] = Map.empty"
  and registered_Cons: "registered (ob # L) = registered L ++ map_of (registered_of ob)"
  by (simp_all add: registered_def)

definition decided :: "obs list \<Rightarrow> int \<Rightarrow> ack_status \<Rightarrow> json \<Rightarrow> time \<Rightarrow> bool" where
  "decided L i st data at \<longleftrightarrow> (\<exists>d. registered L i = Some d \<and> fits d st data at)"

definition sched_inv :: "socket \<Rightarrow> bool" where
  "sched_inv s \<longleftrightarrow> (\<forall>sc. scheduler s = Some sc \<longrightarrow> live_wf sc) \<and>
     (timed_acks_closed s \<or> scheduler s = None \<longrightarrow> timed_acks s = [])"

definition due_inv :: "socket \<Rightarrow> time \<Rightarrow> task multiset \<Rightarrow> obs list \<Rightarrow> bool" where
  "due_inv s t M L \<longleftrightarrow> sched_inv s \<and>
     (\<forall>i d. registered L i = Some d \<longrightarrow> i < next_ack_id s) \<and>
     deadline_of s \<subseteq>\<^sub>m registered L \<and>
     (\<forall>i. Expire i \<in># M \<longrightarrow> (\<exists>d \<le> t. registered L i = Some d)) \<and>
     (\<forall>i cb. map_of (timed_acks s) i = Some cb \<longrightarrow> deadline_of s i \<noteq> None \<or> Expire i \<in># M) \<and>
     (\<forall>i cb st data at. Call_timed i cb st data at \<in># M \<longrightarrow> decided L i st data at) \<and>
     (\<forall>i cb st data at. Called_timed i cb st data at \<in> set L \<longrightarrow> decided L i st data at)"

lemma due_invD:
  assumes "due_inv s t M L"
  shows "sched_inv s"
    and "registered L i = Some d \<Longrightarrow> i < next_ack_id s"
    and "deadline_of s i = Some d \<Longrightarrow> registered L i = Some d"
    and "Expire i \<in># M \<Longrightarrow> \<exists>d \<le> t. registered L i = Some d"
    and "map_of (timed_acks s) i = Some cb \<Longrightarrow> deadline_of s i \<noteq> None \<or> Expire i \<in># M"
    and "Call_timed i cb' st data at \<in># M \<Longrightarrow> decided L i st data at"
    and "Called_timed i cb' st data at \<in> set L \<Longrightarrow> decided L i st data at"
  using assms by (auto simp: due_inv_def map_le_def dom_def)

lemma due_invI:
  assumes "sched_inv s"
    and "\<And>i d. registered L i = Some d \<Longrightarrow> i < next_ack_id s"
    and "\<And>i d. deadline_of s i = Some d \<Longrightarrow> registered L i = Some d"
    and "\<And>i. Expire i \<in># M \<Longrightarrow> \<exists>d \<le> t. registered L i = Some d"
    and "\<And>i cb. map_of (timed_acks s) i = Some cb \<Longrightarrow> deadline_of s i \<noteq> None \<or> Expire i \<in># M"
    and "\<And>i cb st data at. Call_timed i cb st data at \<in># M \<Longrightarrow> decided L i st data at"
    and "\<And>i cb st data at. Called_timed i cb st data at \<in> set L \<Longrightarrow> decided L i st data at"
  shows "due_inv s t M L"
  using assms by (auto simp: due_inv_def map_le_def dom_def)

lemma due_fresh:
  assumes "due_inv s t M L" and "next_ack_id s \<le> i"
  shows "registered L i = None" and "deadline_of s i = None"
proof -
  show "registered L i = None" using due_invD(2) [OF assms(1), of i] assms(2) by (cases "registered L i") auto
  then show "deadline_of s i = None" using due_invD(3) [OF assms(1), of i] by (cases "deadline_of s i") auto
qed

lemma due_registered:
  assumes I: "due_inv s t M L" and "map_of (timed_acks s) i = Some cb"
  obtains d where "registered L i = Some d" "deadline_of s i = Some d \<or> (deadline_of s i = None \<and> d \<le> t)"
proof (cases "deadline_of s i")
  case None
  then show ?thesis using due_invD(4,5) [OF I] assms(2) that by blast
next
  case (Some d)
  then show ?thesis using due_invD(3) [OF I] that by blast
qed

lemma due_expired:
  assumes I: "due_inv s t M L" and "map_of (timed_acks s) i = Some cb" and "scheduler s = Some sc"
  obtains d where "registered L i = Some d" "scheduler_expired i t sc \<longleftrightarrow> d \<le> t"
proof -
  from due_registered [OF I assms(2)] obtain d where
    d: "registered L i = Some d" "deadline_of s i = Some d \<or> (deadline_of s i = None \<and> d \<le> t)" by blast
  moreover have "scheduler_expired i t sc \<longleftrightarrow> d \<le> t"
    using d(2) assms(3) by (auto simp: scheduler_expired_def deadline_of_def)
  ultimately show ?thesis using that by blast
qed

lemma decided_mono: "decided L i st data at \<Longrightarrow> registered L \<subseteq>\<^sub>m registered L' \<Longrightarrow> decided L' i st data at"
  by (auto simp: decided_def map_le_def dom_def)

lemma exec_untimed_log:
  assumes "exec t k s = Inr (s', new, ob)" and "\<not> is_timed k"
  shows "timed_acks_closed s' \<Longrightarrow> timed_acks_closed s" and "concat (map registered_of ob) = []"
    and "Called_timed i cb st data at \<in> set ob \<Longrightarrow> k = Call_timed i cb st data at"
    and "Call_timed i cb st data at \<notin> set new"
  using assms by (cases k; auto simp: section_defs Let_def split: section_splits)+

lemma exec_untimed_expire:
  assumes "exec t k s = Inr (s', new, ob)" and "\<not> is_timed k" and "Expire i \<in> set new"
  shows "\<exists>cb sc. map_of (timed_acks s) i = Some cb \<and> scheduler s = Some sc \<and> scheduler_expired i t sc"
  using assms by (cases k; auto simp: section_defs Let_def split: section_splits)

lemma due_untimed:
  assumes I: "due_inv s t (add_mset k M) L" and x: "exec t k s = Inr (s', new, ob)" and u: "\<not> is_timed k"
  shows "due_inv s' t (mset new + M) (L @ ob)"
proof -
  note f = exec_untimed [OF x u]
  have ob: "registered ob = Map.empty" using exec_untimed_log(2) [OF x u] by (simp add: registered_def)
  have dl: "deadline_of s' = deadline_of s" using f by (simp add: deadline_of_def)
  have k: "k \<noteq> Expire i" for i using u by auto
  show ?thesis
  proof (rule due_invI)
    show "sched_inv s'" using due_invD(1) [OF I] f exec_untimed_log(1) [OF x u] by (auto simp: sched_inv_def)
    show "i < next_ack_id s'" if "registered (L @ ob) i = Some d" for i d
      using due_invD(2) [OF I, of i d] that f(3) ob by simp
    show "registered (L @ ob) i = Some d" if "deadline_of s' i = Some d" for i d
      using due_invD(3) [OF I, of i d] that dl ob by simp
    show "\<exists>d \<le> t. registered (L @ ob) i = Some d" if e: "Expire i \<in># mset new + M" for i
    proof (cases "Expire i \<in> set new")
      case True
      with exec_untimed_expire [OF x u] obtain cb sc where
        "map_of (timed_acks s) i = Some cb" "scheduler s = Some sc" "scheduler_expired i t sc" by blast
      with due_expired [OF I] ob show ?thesis by fastforce
    next
      case False
      with e due_invD(4) [OF I, of i] ob show ?thesis by simp
    qed
    show "deadline_of s' i \<noteq> None \<or> Expire i \<in># mset new + M" if "map_of (timed_acks s') i = Some cb" for i cb
      using due_invD(5) [OF I, of i cb] that dl f(1) k [of i] by auto
    show "decided (L @ ob) i st data at" if "Call_timed i cb st data at \<in># mset new + M" for i cb st data at
      using due_invD(6) [OF I, of i cb st data at] that exec_untimed_log(4) [OF x u, of i cb st data at] ob
      by (auto simp: decided_def)
    show "decided (L @ ob) i st data at" if "Called_timed i cb st data at \<in> set (L @ ob)" for i cb st data at
      using due_invD(6,7) [OF I, of i cb st data at] that exec_untimed_log(3) [OF x u, of i cb st data at] ob
      by (auto simp: decided_def)
  qed
qed
lemma live_wf_new: "live_wf ack_scheduler_new"
  using wf_new by (simp add: live_wf_def ack_scheduler_new_def)

lemma map_le_updI: "m i = None \<Longrightarrow> m \<subseteq>\<^sub>m m(i \<mapsto> d)"
  by (auto simp: map_le_def)

lemma due_register:
  assumes I: "due_inv s t (add_mset k M) L" and k: "k = Register_timed p d cb"
    and x: "exec t k s = Inr (s', new, ob)"
  shows "due_inv s' t (mset new + M) (L @ ob)"
  using x [unfolded k]
proof (cases rule: register_cases)
  case (refused e)
  then show ?thesis using I k by (auto simp: due_inv_def registered_Cons decided_def)
next
  case (accepted sc i)
  have fresh: "registered L i = None" "deadline_of s i = None"
    using due_fresh [OF I, of i] accepted(1) by auto
  have "\<And>sc. scheduler s = Some sc \<Longrightarrow> live_wf sc" using due_invD(1) [OF I] by (simp add: sched_inv_def)
  then have sc: "live_wf sc" "map_of (deadlines sc) = deadline_of s"
    using accepted(4) live_wf_new by (auto simp: deadline_of_def ack_scheduler_new_def split: option.split)
  then have "map_of (deadlines sc) i = None" using fresh(2) by simp
  then have sc': "live_wf (snd (scheduler_add True True i d sc))"
    "map_of (deadlines (snd (scheduler_add True True i d sc))) = (deadline_of s)(i \<mapsto> d)"
    using acks.inv_add acks.lookup_add sc by simp_all
  then have dl: "deadline_of s' = (deadline_of s)(i \<mapsto> d)" using accepted(7) by (simp add: deadline_of_def)
  have "registered ob = [i \<mapsto> d]" using accepted(10) by (auto simp: registered_Cons)
  then have reg: "registered (L @ ob) = (registered L)(i \<mapsto> d)"
    using fresh(1) by (auto simp: map_add_def fun_eq_iff split: option.split)
  have mono: "registered L \<subseteq>\<^sub>m registered (L @ ob)" unfolding reg by (rule map_le_updI [of "registered L", OF fresh(1)])
  have new: "Expire j \<notin> set new" "Call_timed j c st data at \<notin> set new" "Called_timed j c st data at \<notin> set ob" for j c st data at
    using accepted(10,11) by auto
  show ?thesis
  proof (rule due_invI)
    show "sched_inv s'" using sc'(1) accepted by (simp add: sched_inv_def)
    show "j < next_ack_id s'" if "registered (L @ ob) j = Some e" for j e
      using due_invD(2) [OF I, of j e] that accepted(1,6) reg by (auto split: if_splits)
    show "registered (L @ ob) j = Some e" if "deadline_of s' j = Some e" for j e
      using due_invD(3) [OF I, of j e] that dl reg by (auto split: if_splits)
    show "\<exists>e \<le> t. registered (L @ ob) j = Some e" if "Expire j \<in># mset new + M" for j
      using due_invD(4) [OF I, of j] that new reg fresh by auto
    show "deadline_of s' j \<noteq> None \<or> Expire j \<in># mset new + M" if "map_of (timed_acks s') j = Some c" for j c
      using due_invD(5) [OF I, of j c] that dl k accepted(5) by (auto simp: emplace_def split: if_splits)
    show "decided (L @ ob) j st data at" if "Call_timed j c st data at \<in># mset new + M" for j c st data at
      using due_invD(6) [OF I, of j c st data at] that new(2) mono by (auto intro: decided_mono simp del: registered_append)
    show "decided (L @ ob) j st data at" if "Called_timed j c st data at \<in> set (L @ ob)" for j c st data at
      using due_invD(7) [OF I, of j c st data at] that new(3) mono by (auto intro: decided_mono simp del: registered_append)
  qed
qed

lemma deadline_of_frame [simp]:
  "deadline_of (s\<lparr>timed_acks := x\<rparr>) = deadline_of s" "deadline_of (s\<lparr>active_timed_acks := n\<rparr>) = deadline_of s"
  "deadline_of (s\<lparr>send_buffer := b\<rparr>) = deadline_of s" "deadline_of (s\<lparr>pending_acks := m\<rparr>) = deadline_of s"
  by (simp_all add: deadline_of_def)

lemma due_resolve:
  assumes I: "due_inv s t (add_mset k M) L" and k: "\<And>j. k = Expire j \<Longrightarrow> j = i"
    and d: "decided L i st data t"
    and dl: "deadline_of s' = deadline_of s \<or> deadline_of s' = (deadline_of s)(i := None)"
    and s': "sched_inv s'" "timed_acks s' = AList.delete i (timed_acks s)" "next_ack_id s' = next_ack_id s"
  shows "due_inv s' t (add_mset (Call_timed i cb st data t) M) L"
proof (rule due_invI)
  show "j < next_ack_id s'" if "registered L j = Some e" for j e using due_invD(2) [OF I that] s'(3) by simp
  show "registered L j = Some e" if "deadline_of s' j = Some e" for j e
    using due_invD(3) [OF I, of j e] that dl by (auto split: if_splits)
  show "\<exists>e \<le> t. registered L j = Some e" if "Expire j \<in># add_mset (Call_timed i cb st data t) M" for j
    using due_invD(4) [OF I, of j] that by simp
  show "deadline_of s' j \<noteq> None \<or> Expire j \<in># add_mset (Call_timed i cb st data t) M"
    if j: "map_of (timed_acks s') j = Some c" for j c
  proof -
    have "j \<noteq> i" "map_of (timed_acks s) j = Some c"
      using j s'(2) by (auto simp: alist_simps split: if_splits)
    then show ?thesis using due_invD(5) [OF I, of j c] k dl by auto
  qed
  show "decided L j st' data' at" if "Call_timed j c st' data' at \<in># add_mset (Call_timed i cb st data t) M"
    for j c st' data' at using due_invD(6) [OF I, of j c st' data' at] that d by auto
qed (use s'(1) due_invD(7) [OF I] in auto)

lemma due_expire:
  assumes I: "due_inv s t (add_mset k M) L" and k: "k = Expire i" and x: "exec t k s = Inr (s', new, ob)"
  shows "due_inv s' t (mset new + M) (L @ ob)"
  using x [unfolded k]
proof (cases rule: expire_cases)
  case gone
  then show ?thesis using I k by (auto simp: due_inv_def)
next
  case (expired cb)
  obtain d where "registered L i = Some d" "d \<le> t" using due_invD(4) [OF I, of i] k by auto
  then have "decided L i Timeout JNull t" by (simp add: decided_def fits_def)
  moreover have "sched_inv s'" using due_invD(1) [OF I] expired by (auto simp: sched_inv_def)
  ultimately have "due_inv s' t (add_mset (Call_timed i cb Timeout JNull t) M) L"
    by (intro due_resolve [OF I]) (simp_all add: k expired)
  then show ?thesis using expired by simp
qed

lemma due_dispatch:
  assumes I: "due_inv s t (add_mset k M) L" and k: "k = Dispatch_ack i data"
    and x: "exec t k s = Inr (s', new, ob)"
  shows "due_inv s' t (mset new + M) (L @ ob)"
  using x [unfolded k]
proof (cases rule: dispatch_cases)
  case unknown
  then show ?thesis using I k by (auto simp: due_inv_def)
next
  case (pending cb)
  then have "sched_inv s' = sched_inv s" by (simp add: sched_inv_def)
  with pending show ?thesis using I k by (auto simp: due_inv_def split: option.splits)
next
  case (timed cb sc expired sc')
  have sc': "sc' = snd (scheduler_remove i t sc)" and ex: "expired \<longleftrightarrow> scheduler_expired i t sc"
    using timed(4) by (auto simp: scheduler_remove_def scheduler_expired_def split: option.splits)
  have live: "live_wf sc" using due_invD(1) [OF I] timed(2) by (simp add: sched_inv_def)
  obtain d where "registered L i = Some d" "scheduler_expired i t sc \<longleftrightarrow> d \<le> t"
    using due_expired [OF I timed(1,2)] by blast
  then have "decided L i (if expired then Timeout else Acknowledged) (if expired then JNull else data) t"
    using ex by (simp add: decided_def fits_def)
  moreover have "sched_inv s'"
    using due_invD(1) [OF I] timed acks.inv_remove [OF live] sc' by (auto simp: sched_inv_def)
  moreover have "deadline_of s' = (deadline_of s)(i := None)"
    using timed sc' acks.lookup_remove [OF live] by (simp add: deadline_of_def)
  ultimately have "due_inv s' t (add_mset (Call_timed i cb (if expired then Timeout else Acknowledged)
      (if expired then JNull else data) t) M) L"
    by (intro due_resolve [OF I]) (simp_all add: k timed(5))
  then show ?thesis using timed(3,6) by simp
qed

lemma due_cancel:
  assumes I: "due_inv s t (add_mset k M) L" and k: "k = Cancel_timed_acks" and x: "exec t k s = Inr (s', new, ob)"
  shows "due_inv s' t (mset new + M) (L @ ob)"
proof -
  have s': "new = []" "ob = []" "timed_acks s' = []" "next_ack_id s' = next_ack_id s"
    "scheduler s' = map_option scheduler_clear (scheduler s)"
    using x k by (auto simp: section_defs)
  moreover have "deadline_of s' = Map.empty"
    using s'(5) by (simp add: deadline_of_def scheduler_clear_def split: option.split)
  moreover have "sched_inv s'"
    using due_invD(1) [OF I] s' by (auto simp: sched_inv_def live_wf_def scheduler_frames wf_intros)
  ultimately show ?thesis using I k by (auto simp: due_inv_def)
qed

lemma due_run:
  assumes "due_inv s t (add_mset k M) L" and "exec t k s = Inr (s', new, ob)"
  shows "due_inv s' t (mset new + M) (L @ ob)"
proof (cases "is_timed k")
  case True
  then show ?thesis
    by (cases rule: is_timed_cases)
      (rule due_register [OF assms(1) _ assms(2)] due_expire [OF assms(1) _ assms(2)]
         due_dispatch [OF assms(1) _ assms(2)] due_cancel [OF assms(1) _ assms(2)]; assumption)+
qed (rule due_untimed [OF assms])

lemma due_turn:
  assumes I: "due_inv s t M L" and sc: "scheduler s = Some sc" and w: "worker_turn t sc = Inr sc'"
  shows "due_inv (s\<lparr>scheduler := Some sc'\<rparr>) t (mset (claimed (worker sc')) + M) L"
proof -
  have live: "live_wf sc" using due_invD(1) [OF I] sc by (simp add: sched_inv_def)
  then have "scheduler_wf sc" by (simp add: live_wf_def)
  then show ?thesis
  proof (cases rule: worker_turn_cases [where t = t])
    case (claim d rest)
    let ?s = "s\<lparr>scheduler := Some sc'\<rparr>"
    have "worker_claim t sc = Some (ack d, worker_wake sc')" using claim w by (auto simp: worker_claim_def)
    from acks.claim_Some [OF live this] have "live_wf sc'" by (simp add: live_wf_def)
    then have "sched_inv ?s" using due_invD(1) [OF I] sc by (simp add: sched_inv_def)
    moreover have dl: "deadline_of ?s = (deadline_of s)(ack d := None)"
      using claim w sc by (auto simp: deadline_of_def alist_simps)
    moreover have "deadline_of s (ack d) = Some (due d)"
      using earliest(1) [OF \<open>scheduler_wf sc\<close> claim(2)] sc by (simp add: deadline_of_def)
    then have "registered L (ack d) = Some (due d)" using due_invD(3) [OF I] by blast
    moreover have "claimed (worker sc') = [Expire (ack d)]" using claim w by auto
    moreover have "deadline_of ?s i = Some e \<Longrightarrow> registered L i = Some e" for i e
      using due_invD(3) [OF I, of i e] dl by (auto split: if_splits)
    ultimately show ?thesis
      using due_invD(2,4,5,6,7) [OF I] claim(3) by (intro due_invI) auto
  qed (use I sc w live in \<open>auto simp: due_inv_def sched_inv_def deadline_of_def live_wf_def\<close>)
qed

interpretation due: task_invariant due_inv
proof unfold_locales
  show "due_inv (socket_new ns a) t {#} []" for ns a t
    by (simp add: due_inv_def sched_inv_def deadline_of_def socket_new_def)
  show "due_inv s t (add_mset k M) L" if "due_inv s t M L" "is_api k" for s t M L k
    using that by (auto simp: due_inv_def)
  show "due_inv s t' M L" if "due_inv s t M L" "t \<le> t'" for s t t' M L
    using that by (fastforce simp: due_inv_def)
  show "due_inv (s\<lparr>scheduler := Some (worker_wake sc)\<rparr>) t M L" if "due_inv s t M L" "scheduler s = Some sc" for s t M L sc
    using that by (auto simp: due_inv_def sched_inv_def deadline_of_def live_wf_def)
qed (rule due_run due_turn; assumption)+
section \<open>What the send buffer holds\<close>

text \<open>
  An id belongs to one emission, and a buffered packet of a timed emission belongs to one that is
  still waiting for its outcome.
\<close>

definition owner_inv :: "socket \<Rightarrow> task multiset \<Rightarrow> obs list \<Rightarrow> bool" where
  "owner_inv s M L \<longleftrightarrow> 0 \<le> next_ack_id s \<and> registered L (-1) = None \<and>
     (\<forall>i cb. map_of (pending_acks s) i = Some cb \<longrightarrow> i < next_ack_id s \<and> registered L i = None) \<and>
     (\<forall>p. Send_or_buffer p \<in># M \<longrightarrow> pk_id p < next_ack_id s \<and> registered L (pk_id p) = None) \<and>
     (\<forall>p \<in> set (send_buffer s). pk_id p < next_ack_id s \<and>
        (registered L (pk_id p) \<noteq> None \<longrightarrow> map_of (timed_acks s) (pk_id p) \<noteq> None))"

definition buffer_inv :: "socket \<Rightarrow> time \<Rightarrow> task multiset \<Rightarrow> obs list \<Rightarrow> bool" where
  "buffer_inv s t M L \<longleftrightarrow> due_inv s t M L \<and> owner_inv s M L"

lemma exec_owner_frame:
  assumes "exec t k s = Inr (s', new, ob)" and "\<not> is_timed k"
  shows "p \<in> set (send_buffer s') \<Longrightarrow> p \<in> set (send_buffer s) \<or> k = Send_or_buffer p"
    and "map_of (pending_acks s') i = Some cb \<Longrightarrow>
      map_of (pending_acks s) i = Some cb \<or> (i = next_ack_id s \<and> next_ack_id s' = i + 1)"
    and "Send_or_buffer p \<in> set new \<Longrightarrow>
      pk_id p = -1 \<or> (pk_id p = next_ack_id s \<and> next_ack_id s' = next_ack_id s + 1)"
proof -
  show "p \<in> set (send_buffer s') \<Longrightarrow> p \<in> set (send_buffer s) \<or> k = Send_or_buffer p"
    using assms by (cases k; auto simp: section_defs Let_def dest: list.set_sel(2) split: section_splits)
  show "map_of (pending_acks s') i = Some cb \<Longrightarrow>
      map_of (pending_acks s) i = Some cb \<or> (i = next_ack_id s \<and> next_ack_id s' = i + 1)"
    using assms by (cases k; auto simp: section_defs Let_def alist_simps split: section_splits)
  show "Send_or_buffer p \<in> set new \<Longrightarrow>
      pk_id p = -1 \<or> (pk_id p = next_ack_id s \<and> next_ack_id s' = next_ack_id s + 1)"
    using assms
    by (cases k; auto simp: section_defs Let_def event_packet_def default_packet_def split: section_splits)
qed

lemma owner_untimed:
  assumes D: "due_inv s t (add_mset k M) L" and I: "owner_inv s (add_mset k M) L"
    and x: "exec t k s = Inr (s', new, ob)" and u: "\<not> is_timed k"
  shows "owner_inv s' (mset new + M) (L @ ob)"
proof -
  have "registered ob = Map.empty" using exec_untimed_log(2) [OF x u] by (simp add: registered_def)
  then have reg: "registered (L @ ob) = registered L" by simp
  have fresh: "registered L (next_ack_id s) = None" using due_fresh(1) [OF D] by auto
  note f = exec_untimed [OF x u] and g = exec_owner_frame [OF x u]
  show ?thesis
    unfolding owner_inv_def reg f(1)
  proof (intro conjI allI impI ballI)
    show "0 \<le> next_ack_id s'" "registered L (-1) = None" using I f(3) by (auto simp: owner_inv_def)
    show "i < next_ack_id s'" "registered L i = None" if "map_of (pending_acks s') i = Some cb" for i cb
      using g(2) [OF that] I f(3) fresh by (fastforce simp: owner_inv_def)+
    show "pk_id p < next_ack_id s'" "registered L (pk_id p) = None"
      if "Send_or_buffer p \<in># mset new + M" for p
      using that g(3) [of p] I f(3) fresh by (fastforce simp: owner_inv_def)+
    show "pk_id p < next_ack_id s'" if "p \<in> set (send_buffer s')" for p
      using g(1) [OF that] I f(3) by (fastforce simp: owner_inv_def)
    show "map_of (timed_acks s) (pk_id p) \<noteq> None"
      if "p \<in> set (send_buffer s')" "registered L (pk_id p) \<noteq> None" for p
      using g(1) [OF that(1)] that(2) I by (auto simp: owner_inv_def)
  qed
qed

lemma owner_register:
  assumes D: "due_inv s t (add_mset k M) L" and I: "owner_inv s (add_mset k M) L"
    and k: "k = Register_timed p d cb" and x: "exec t k s = Inr (s', new, ob)"
  shows "owner_inv s' (mset new + M) (L @ ob)"
  using x [unfolded k]
proof (cases rule: register_cases)
  case (refused e)
  then show ?thesis using I k by (auto simp: owner_inv_def registered_Cons)
next
  case (accepted sc i)
  have "registered L i = None" using due_fresh [OF D, of i] accepted(1) by auto
  moreover have "registered ob = [i \<mapsto> d]" using accepted(10) by (auto simp: registered_Cons)
  ultimately have reg: "registered (L @ ob) = (registered L)(i \<mapsto> d)"
    by (auto simp: map_add_def fun_eq_iff split: option.split)
  show ?thesis
    unfolding owner_inv_def reg
    using I accepted(1,5,6,8,10,11) by (fastforce simp: owner_inv_def emplace_def)
qed

lemma owner_run:
  assumes D: "due_inv s t (add_mset k M) L" and I: "owner_inv s (add_mset k M) L"
    and x: "exec t k s = Inr (s', new, ob)"
  shows "owner_inv s' (mset new + M) (L @ ob)"
proof (cases "is_timed k")
  case True
  then show ?thesis
  proof (cases rule: is_timed_cases)
    case (register p d cb)
    then show ?thesis by (rule owner_register [OF D I _ x])
  next
    case (expire i)
    from x [unfolded expire] show ?thesis
      by (cases rule: expire_cases) (use I in \<open>auto simp: owner_inv_def alist_simps without_id_def\<close>)
  next
    case (dispatch i d)
    from x [unfolded dispatch] show ?thesis
      by (cases rule: dispatch_cases)
        (use I in \<open>auto simp: owner_inv_def alist_simps without_id_def split: option.splits if_splits\<close>)
  next
    case cancel
    then show ?thesis using x I by (auto simp: owner_inv_def section_defs)
  qed
qed (rule owner_untimed [OF D I x])

lemma api_not_internal: "is_api k \<Longrightarrow> k \<noteq> Send_or_buffer p"
  by (cases k) auto

interpretation buffer: task_invariant buffer_inv
proof unfold_locales
  show "buffer_inv (socket_new ns a) t {#} []" for ns a t
    by (simp add: buffer_inv_def due.I_start) (simp add: owner_inv_def socket_new_def)
  show "buffer_inv s t (add_mset k M) L" if "buffer_inv s t M L" "is_api k" for s t M L k
    using that due.I_api api_not_internal [OF that(2)] by (auto simp: buffer_inv_def owner_inv_def)
  show "buffer_inv s t' M L" if "buffer_inv s t M L" "t \<le> t'" for s t t' M L
    using that due.I_pass by (auto simp: buffer_inv_def)
  show "buffer_inv (s\<lparr>scheduler := Some sc'\<rparr>) t (mset (claimed (worker sc')) + M) L"
    if "buffer_inv s t M L" "scheduler s = Some sc" "worker_turn t sc = Inr sc'" for s t M L sc sc'
    using that due_turn [OF _ that(2,3), of M L] by (cases "worker sc'") (auto simp: buffer_inv_def owner_inv_def)
  show "buffer_inv (s\<lparr>scheduler := Some (worker_wake sc)\<rparr>) t M L" if "buffer_inv s t M L" "scheduler s = Some sc" for s t M L sc
    using that due.I_wake by (auto simp: buffer_inv_def owner_inv_def)
  show "buffer_inv s' t (mset new + M) (L @ ob)"
    if "buffer_inv s t (add_mset k M) L" "exec t k s = Inr (s', new, ob)" for s t k M L s' new ob
    using that due_run owner_run by (auto simp: buffer_inv_def)
qed

section \<open>No undefined behaviour\<close>

lemma exec_defined:
  assumes "sched_inv s" and "next_ack_id s < int_max"
  shows "exec t k s \<noteq> Inl e"
proof -
  have "scheduler s \<noteq> None" if "map_of (timed_acks s) i = Some cb" for i cb
    using that assms(1) by (auto simp: sched_inv_def)
  then show ?thesis
    using assms(2) by (cases k) (fastforce simp: section_defs Let_def split: section_splits)+
qed
section \<open>Properties\<close>

text \<open>
  C1. The callback of an emission with a deadline runs at most once. In every reachable state, for
  every acknowledgement id, the emission is either still waiting, or its callback is about to
  run, or it has run, and never two of these, whatever the interleaving of acknowledgements,
  expiry by the worker, expiry while flushing, cancellation and reconnection.
\<close>

theorem timed_callback_at_most_once:
  assumes "reach system_init system_step S"
  shows "waiting i (sk S) + calls i (tasks S) + called i (log S) \<le> 1"
proof -
  from once.sys.reachable_inv [OF assms] have
    "waiting i (sk S) + calls i (tasks S) + called i (log S) \<le> (if i < next_ack_id (sk S) then 1 else 0)"
    by (simp add: once_inv_def)
  then show ?thesis by (rule order_trans) simp
qed

theorem timed_callback_at_most_once_witness:
  "waiting 0 (sk scenario_end) + calls 0 (tasks scenario_end) + called 0 (log scenario_end) \<le> 1 \<and>
   called 0 (log scenario_end) = 1"
  using timed_callback_at_most_once [OF scenario_reach, of 0] by (intro conjI) (assumption, code_simp)

text \<open>
  C5. The deadline decides the outcome. Every timed callback that ran belongs to a registered
  emission; it was told \<^verbatim>\<open>timeout\<close>, with no data, exactly if the decision was made at its deadline
  or later, and \<^verbatim>\<open>acknowledged\<close> exactly if it was made before.
\<close>

theorem deadline_decides_outcome:
  assumes "reach system_init system_step S" and "Called_timed i cb st data at \<in> set (log S)"
  shows "\<exists>d. registered (log S) i = Some d \<and> (st = Timeout \<longleftrightarrow> d \<le> at) \<and> (st = Timeout \<longrightarrow> data = JNull)"
  using due.sys.reachable_inv [OF assms(1)] due_invD(7) assms(2)
  by (fastforce simp: decided_def fits_def)

theorem deadline_decides_outcome_witness:
  "\<exists>d. registered (log scenario_end) 0 = Some d \<and> (Timeout = Timeout \<longleftrightarrow> d \<le> 2000100) \<and>
     (Timeout = Timeout \<longrightarrow> JNull = JNull)"
proof -
  have "Called_timed 0 7 Timeout JNull 2000100 \<in> set (log scenario_end)" by code_simp
  from deadline_decides_outcome [OF scenario_reach this] show ?thesis .
qed

text \<open>
  C12. No emission with a deadline is forgotten: as long as one is waiting, its deadline is
  registered with a well-formed scheduler whose worker will claim it, or a thread is about to
  expire it; and the worker's next turn at or after the deadline cannot overlook it.
\<close>

theorem timed_emission_not_forgotten:
  assumes "reach system_init system_step S" and "map_of (timed_acks (sk S)) i = Some cb"
  shows "\<exists>sc d. scheduler (sk S) = Some sc \<and> scheduler_wf sc \<and> \<not> stopped sc \<and>
     registered (log S) i = Some d \<and>
     ((map_of (deadlines sc) i = Some d \<and> (d \<le> clock S \<longrightarrow> (\<exists>j sc'. worker_claim (clock S) sc = Some (j, sc')))) \<or>
      Expire i \<in># tasks S)"
proof -
  from due.sys.reachable_inv [OF assms(1)] have I: "due_inv (sk S) (clock S) (tasks S) (log S)" by simp
  from due_invD(1) [OF I] assms(2) obtain sc where sc: "scheduler (sk S) = Some sc" "live_wf sc"
    by (auto simp: sched_inv_def)
  obtain d where d: "registered (log S) i = Some d" "deadline_of (sk S) i = Some d \<or> deadline_of (sk S) i = None"
    using due_registered [OF I assms(2)] by blast
  from d(2) due_invD(5) [OF I assms(2)] have "map_of (deadlines sc) i = Some d \<or> Expire i \<in># tasks S"
    using sc(1) by (auto simp: deadline_of_def)
  moreover have "\<exists>j sc'. worker_claim (clock S) sc = Some (j, sc')"
    if "map_of (deadlines sc) i = Some d" "d \<le> clock S"
    using that acks.claim_iff_due [OF sc(2)] by blast
  ultimately show ?thesis using sc d(1) by (auto simp: live_wf_def)
qed

theorem timed_emission_not_forgotten_witness:
  "\<exists>sc d. scheduler (sk scenario_mid) = Some sc \<and> scheduler_wf sc \<and> registered (log scenario_mid) 0 = Some d"
proof -
  have "map_of (timed_acks (sk scenario_mid)) 0 = Some 7" by code_simp
  from timed_emission_not_forgotten [OF scenario_mid_reach this] show ?thesis by blast
qed

text \<open>
  C16. \<^verbatim>\<open>sync_close\<close> does not return early: \<^verbatim>\<open>wait_for_timed_acks\<close> returns in a reachable state exactly
  if no timed callback is running or about to run; and once the timed acknowledgements have been
  cancelled and not resumed, none is waiting either, so that none can start.
\<close>

theorem waiting_for_callbacks_is_exact:
  assumes "reach system_init system_step S"
  shows "(wait_for_timed_acks (sk S) \<longleftrightarrow> list_all (\<lambda>k. \<not> is_running k) (concat (stacks S))) \<and>
     0 \<le> active_timed_acks (sk S) \<and>
     (timed_acks_closed (sk S) \<longrightarrow> timed_acks (sk S) = [])"
proof -
  from active.sys.reachable_inv [OF assms] have
    a: "active_timed_acks (sk S) = int (size (filter_mset is_running (tasks S)))" by (simp add: active_inv_def)
  from due.sys.reachable_inv [OF assms] have "sched_inv (sk S)" using due_invD(1) by blast
  with a show ?thesis
    by (auto simp: wait_for_timed_acks_def tasks_def sched_inv_def list_all_iff)
qed

theorem waiting_for_callbacks_is_exact_witness:
  "wait_for_timed_acks (sk scenario_end) \<and> list_all (\<lambda>k. \<not> is_running k) (concat (stacks scenario_end))"
proof -
  have "wait_for_timed_acks (sk scenario_end)" by code_simp
  with waiting_for_callbacks_is_exact [OF scenario_reach] show ?thesis by blast
qed

text \<open>
  C17. Buffered emissions leave in the order they were buffered and none twice: at most one thread
  flushes at any time, and the packets flushed so far, followed by those still in the buffer, form
  a subsequence of the packets that were put into the buffer.
\<close>

theorem flush_in_order_by_one_thread:
  assumes "reach system_init system_step S"
  shows "size (filter_mset is_flusher (tasks S)) = (if flushing_send_buffer (sk S) then 1 else 0) \<and>
     subseq (flushed (log S) @ send_buffer (sk S)) (buffered (log S))"
proof -
  from flush.sys.reachable_inv [OF assms] have I: "flush_inv (sk S) (clock S) (tasks S) (log S)" by simp
  have "subseq (xs @ zs) (xs @ in_flight k @ zs)" for xs zs k
    by (intro list_emb_append_mono subseq_order.refl) (cases k; auto intro: list_emb_Cons)
  with I show ?thesis
    by (auto simp: flush_inv_def intro: subseq_order.trans split: if_splits)
qed

theorem flush_in_order_by_one_thread_witness:
  "subseq (flushed (log scenario_end) @ send_buffer (sk scenario_end)) (buffered (log scenario_end)) \<and>
   flushed (log scenario_end) = [event_packet ''/'' ''c'' JNull] \<and> length (buffered (log scenario_end)) = 3"
  using flush_in_order_by_one_thread [OF scenario_reach] by (intro conjI) (blast, code_simp, code_simp)



text \<open>
  A timed emission whose outcome is settled (acknowledged, expired or cancelled) is no longer in
  the send buffer, and acknowledgement ids of plain and timed emissions never coincide.
\<close>

theorem settled_emission_not_buffered:
  assumes "reach system_init system_step S"
  shows "(\<forall>p. p \<in> set (send_buffer (sk S)) \<longrightarrow> registered (log S) (pk_id p) \<noteq> None \<longrightarrow>
        waiting (pk_id p) (sk S) = 1) \<and>
     (\<forall>i cb. map_of (pending_acks (sk S)) i = Some cb \<longrightarrow> registered (log S) i = None)"
  using buffer.sys.reachable_inv [OF assms] by (auto simp: buffer_inv_def owner_inv_def waiting_def)

theorem settled_emission_not_buffered_witness:
  "length (send_buffer (sk scenario_mid)) = 1 \<and> waiting (pk_id (hd (send_buffer (sk scenario_mid)))) (sk scenario_mid) = 1"
proof -
  have "length (send_buffer (sk scenario_mid)) = 1"
    and "registered (log scenario_mid) (pk_id (hd (send_buffer (sk scenario_mid)))) \<noteq> None" by code_simp+
  moreover from this have "hd (send_buffer (sk scenario_mid)) \<in> set (send_buffer (sk scenario_mid))"
    by (intro hd_in_set) auto
  ultimately show ?thesis using settled_emission_not_buffered [OF scenario_mid_reach] by blast
qed

text \<open>
  C21. No operation of a reachable socket runs into undefined behaviour, in particular none
  dereferences the scheduler before it exists, as long as fewer than \<^verbatim>\<open>INT_MAX\<close> acknowledgement ids
  have been used.
\<close>

theorem socket_operations_defined:
  assumes "reach system_init system_step S" and "next_ack_id (sk S) < int_max"
  shows "exec (clock S) k (sk S) \<noteq> Inl e"
proof -
  from due.sys.reachable_inv [OF assms(1)] have "sched_inv (sk S)" using due_invD(1) by blast
  then show ?thesis using assms(2) by (rule exec_defined)
qed
theorem socket_operations_defined_witness:
  "exec (clock scenario_end) (Dispatch_ack 0 JNull) (sk scenario_end) \<noteq> Inl Undefined_behaviour"
proof -
  have "next_ack_id (sk scenario_end) < int_max" by code_simp
  from socket_operations_defined [OF scenario_reach this] show ?thesis .
qed

end
