(* ===== verification/Client_System.thy ===== *)
theory Client_System
  imports Client Socket_System
begin

text \<open>
  A client shared by any number of threads: threads of the application, of the transports, of the
  heartbeats, of the sockets' deadline workers, and the reconnecting threads the client starts.
  Each thread has a stack of tasks (theory \<open>Client\<close>). At any moment a thread performs its next
  section, if nothing blocks it; a thread that is idle or inside a call out of the client makes a
  call into it; a connection receives an event from its transport or its heartbeat; a deadline
  worker takes a turn; time passes; or a connection to which no reference is left is destroyed.
\<close>

section \<open>The system\<close>

record csystem =
  cl :: client
  now :: time
  threads :: "ctask list list"
  clog :: "cobs list"

fun user_task :: "task \<Rightarrow> bool" where
  "user_task Cancel_timed_acks = False"
| "user_task Wait_for_timed_acks = False"
| "user_task Resume_timed_acks = False"
| "user_task k = is_api k"

text \<open>The operations that application code can call.\<close>

fun user_call :: "ctask \<Rightarrow> bool" where
  "user_call (C_connect uri) = True"
| "user_call C_close = True"
| "user_call C_sync_close = True"
| "user_call (C_socket ns a) = True"
| "user_call (C_set_handler h b) = True"
| "user_call (On_socket ns k) = user_task k"
| "user_call k = False"

lemma user_call_forward: "user_call k \<longleftrightarrow> (\<exists>a. k = forward a) \<or> (\<exists>ns t. k = On_socket ns t \<and> user_task t)"
proof
  assume u: "user_call k"
  show "(\<exists>a. k = forward a) \<or> (\<exists>ns t. k = On_socket ns t \<and> user_task t)"
  proof (cases k)
    case (C_set_handler h b)
    then show ?thesis by (cases h) (metis forward.simps(6-11))+
  qed (use u in \<open>auto intro: forward.simps [symmetric]\<close>)
next
  assume "(\<exists>a. k = forward a) \<or> (\<exists>ns t. k = On_socket ns t \<and> user_task t)"
  moreover have "user_call (forward a)" for a by (cases a) simp_all
  ultimately show "user_call k" by auto
qed

fun transport_event :: "eio_event \<Rightarrow> bool" where
  "transport_event (E_message pl bin) = True"
| "transport_event (E_transport_close h reason) = True"
| "transport_event (E_transport_error msg) = True"
| "transport_event E_heartbeat = True"
| "transport_event e = False"

text \<open>The references to a connection that tasks hold, and all references to it.\<close>

fun mentions :: "ctask \<Rightarrow> nat list" where
  "mentions (Install n why) = [n]"
| "mentions (Open_engine n why) = [n]"
| "mentions (Release n) = [n]"
| "mentions (Handle_open n) = [n]"
| "mentions (Handle_close n reason) = [n]"
| "mentions (Handle_frame n pl bin) = [n]"
| "mentions (Handle_error n msg) = [n]"
| "mentions (Reconnect_open n uri) = [n]"
| "mentions (Engine_close n) = [n]"
| "mentions (Engine_sync_close n) = [n]"
| "mentions k = []"

definition pending :: "ctask list list \<Rightarrow> ctask set" where
  "pending T = set (concat T)"

definition referenced :: "csystem \<Rightarrow> nat \<Rightarrow> bool" where
  "referenced S n \<longleftrightarrow> current (cl S) = Some n \<or> (\<exists>k \<in> pending (threads S). n \<in> set (mentions k)) \<or>
     hb (engine (engines (cl S) ! n)) \<noteq> Hb_exit"

definition can_call :: "ctask list \<Rightarrow> bool" where
  "can_call st \<longleftrightarrow> st = [] \<or> hd st = In_call"

definition context_for :: "json_lib \<Rightarrow> (real \<Rightarrow> real) \<Rightarrow> real \<Rightarrow> nat \<Rightarrow> csystem \<Rightarrow> context_of" where
  "context_for lib rnd u i S =
     \<lparr>ctx_lib = lib, ctx_rnd = rnd, ctx_time = now S, ctx_sample = u, ctx_me = i,
      ctx_next = length (threads S), ctx_finished = (\<lambda>r. r < length (threads S) \<and> threads S ! r = [])\<rparr>"

definition push_on :: "nat \<Rightarrow> ctask list \<Rightarrow> ctask list list \<Rightarrow> ctask list list" where
  "push_on i ts T = T[i := ts @ T ! i]"

definition spawned :: "ctask list option \<Rightarrow> ctask list list" where
  "spawned sp = (case sp of None \<Rightarrow> [] | Some st \<Rightarrow> [st])"

definition destroy :: "nat \<Rightarrow> client \<Rightarrow> client \<times> cobs list" where
  "destroy n c =
     (case eio_sync_close False (engine (engines c ! n)) of
        (e, outs) \<Rightarrow>
          (c\<lparr>engines := (engines c)[n := (engines c ! n)\<lparr>engine := e, destroyed := True\<rparr>]\<rparr>, engine_obs n outs))"

definition set_scheduler :: "string \<Rightarrow> socket \<Rightarrow> ack_scheduler \<Rightarrow> client \<Rightarrow> client" where
  "set_scheduler ns s sc c = c\<lparr>sockets := map_put ns (s\<lparr>scheduler := Some sc\<rparr>) (sockets c)\<rparr>"

datatype client_event =
    Time_passes time
  | New_thread
  | Call nat ctask
  | Section nat real
  | Transport nat nat eio_event
  | Deadline_turn nat string
  | Deadline_wake string
  | Destruction nat

inductive client_init :: "client_options \<Rightarrow> csystem \<Rightarrow> bool" for opts where
  "client_new opts = Inr c \<Longrightarrow> client_init opts \<lparr>cl = c, now = t, threads = [], clog = []\<rparr>"

inductive client_step :: "json_lib \<Rightarrow> (real \<Rightarrow> real) \<Rightarrow> csystem \<Rightarrow> client_event \<Rightarrow> csystem \<Rightarrow> bool" for lib rnd where
  c_time: "0 \<le> d \<Longrightarrow> client_step lib rnd S (Time_passes d) (S\<lparr>now := now S + d\<rparr>)"
| c_thread: "client_step lib rnd S New_thread (S\<lparr>threads := threads S @ [[]]\<rparr>)"
| c_call: "user_call k \<Longrightarrow> i < length (threads S) \<Longrightarrow> can_call (threads S ! i) \<Longrightarrow>
     (\<forall>ns t. k = On_socket ns t \<longrightarrow> map_of (sockets (cl S)) ns \<noteq> None) \<Longrightarrow>
     client_step lib rnd S (Call i k) (S\<lparr>threads := push_on i [k] (threads S)\<rparr>)"
| c_section: "i < length (threads S) \<Longrightarrow> threads S ! i = k # ks \<Longrightarrow>
     cexec (context_for lib rnd u i S) k (cl S) = Some (c', new, ob, sp) \<Longrightarrow>
     client_step lib rnd S (Section i u)
       (S\<lparr>cl := c', threads := (threads S)[i := new @ ks] @ spawned sp, clog := clog S @ ob\<rparr>)"
| c_transport: "i < length (threads S) \<Longrightarrow> can_call (threads S ! i) \<Longrightarrow> n < length (engines (cl S)) \<Longrightarrow>
     \<not> destroyed (engines (cl S) ! n) \<Longrightarrow> transport_event e \<Longrightarrow>
     eio_step lib (now S div ticks_per_ms) e (engine (engines (cl S) ! n)) = (e', outs) \<Longrightarrow>
     client_step lib rnd S (Transport i n e)
       (S\<lparr>cl := set_engine n e' (cl S), threads := push_on i (bind_engineio_callbacks n outs) (threads S),
          clog := clog S @ engine_obs n outs\<rparr>)"
| c_turn: "i < length (threads S) \<Longrightarrow> can_call (threads S ! i) \<Longrightarrow> map_of (sockets (cl S)) ns = Some s \<Longrightarrow>
     scheduler s = Some sc \<Longrightarrow> worker sc = Running \<Longrightarrow> worker_turn (now S) sc = Inr sc' \<Longrightarrow>
     client_step lib rnd S (Deadline_turn i ns)
       (S\<lparr>cl := set_scheduler ns s sc' (cl S),
          threads := push_on i (map (On_socket ns) (claimed (worker sc'))) (threads S)\<rparr>)"
| c_wake: "map_of (sockets (cl S)) ns = Some s \<Longrightarrow> scheduler s = Some sc \<Longrightarrow> worker sc \<noteq> Exited \<Longrightarrow>
     client_step lib rnd S (Deadline_wake ns) (S\<lparr>cl := set_scheduler ns s (worker_wake sc) (cl S)\<rparr>)"
| c_destroy: "n < length (engines (cl S)) \<Longrightarrow> \<not> destroyed (engines (cl S) ! n) \<Longrightarrow> \<not> referenced S n \<Longrightarrow>
     destroy n (cl S) = (c', ob) \<Longrightarrow>
     client_step lib rnd S (Destruction n) (S\<lparr>cl := c', clog := clog S @ ob\<rparr>)"

section \<open>Tasks\<close>

text \<open>The tasks that arrive from outside a section: calls, callbacks of connections, expiries.\<close>

fun incoming :: "ctask \<Rightarrow> bool" where
  "incoming (Handle_open n) = True"
| "incoming (Handle_close n reason) = True"
| "incoming (Handle_frame n pl bin) = True"
| "incoming (Handle_error n msg) = True"
| "incoming (On_socket ns (Expire i)) = True"
| "incoming k = user_call k"

lemma bound_callback_incoming:
  assumes "k \<in> set (bind_engineio_callbacks n outs)"
  shows "incoming k" and "mentions k = [n]"
proof -
  obtain out where "k \<in> set (bound_callback n out)"
    using assms by (auto simp: bind_engineio_callbacks_def)
  then have "incoming k \<and> mentions k = [n]" by (cases out) auto
  then show "incoming k" and "mentions k = [n]" by simp_all
qed

lemma claimed_incoming: "k \<in> set (map (On_socket ns) (claimed w)) \<Longrightarrow> incoming k \<and> (\<exists>i. k = On_socket ns (Expire i))"
  by (cases w) auto

lemma user_incoming: "user_call k \<Longrightarrow> incoming k"
  by (cases k rule: incoming.cases) auto

lemma user_mentions: "user_call k \<Longrightarrow> mentions k = []"
  by (cases k) auto

lemma pending_push [simp]: "i < length T \<Longrightarrow> pending (push_on i ts T) = set ts \<union> pending T"
proof -
  assume "i < length T"
  then have "T = take i T @ T ! i # drop (Suc i) T" by (rule id_take_nth_drop)
  then have "set (concat T) = set (concat (take i T)) \<union> set (T ! i) \<union> set (concat (drop (Suc i) T))"
    by (metis concat.simps(2) concat_append set_append sup_assoc)
  with \<open>i < length T\<close> show ?thesis
    by (auto simp: pending_def push_on_def upd_conv_take_nth_drop)
qed

lemma length_push [simp]: "length (push_on i ts T) = length T"
  by (simp add: push_on_def)

lemma pending_section:
  assumes "i < length T" and "T ! i = k # ks"
  shows "set new \<subseteq> pending (T[i := new @ ks] @ spawned sp)"
    and "\<And>st. sp = Some st \<Longrightarrow> set st \<subseteq> pending (T[i := new @ ks] @ spawned sp)"
    and "w \<in> pending T \<Longrightarrow> w \<noteq> k \<Longrightarrow> w \<in> pending (T[i := new @ ks] @ spawned sp)"
    and "pending (T[i := new @ ks] @ spawned sp) \<subseteq> pending T \<union> set new \<union> (case sp of None \<Rightarrow> {} | Some st \<Rightarrow> set st)"
    and "k \<in> pending T"
proof -
  have T: "T = take i T @ (k # ks) # drop (Suc i) T" using id_take_nth_drop [OF assms(1)] assms(2) by simp
  then have s: "pending T = set (concat (take i T)) \<union> insert k (set ks) \<union> set (concat (drop (Suc i) T))"
    unfolding pending_def by (metis concat.simps(2) concat_append list.simps(15) set_append sup_assoc)
  have u: "pending (T[i := new @ ks] @ spawned sp) = set (concat (take i T)) \<union> set new \<union> set ks
      \<union> set (concat (drop (Suc i) T)) \<union> (case sp of None \<Rightarrow> {} | Some st \<Rightarrow> set st)"
    using assms(1) by (auto simp: pending_def spawned_def upd_conv_take_nth_drop split: option.split)
  show "set new \<subseteq> pending (T[i := new @ ks] @ spawned sp)"
    and "\<And>st. sp = Some st \<Longrightarrow> set st \<subseteq> pending (T[i := new @ ks] @ spawned sp)"
    and "w \<in> pending T \<Longrightarrow> w \<noteq> k \<Longrightarrow> w \<in> pending (T[i := new @ ks] @ spawned sp)"
    and "pending (T[i := new @ ks] @ spawned sp) \<subseteq> pending T \<union> set new \<union> (case sp of None \<Rightarrow> {} | Some st \<Rightarrow> set st)"
    and "k \<in> pending T"
    using s u by auto
qed

section \<open>Invariants, rule by rule\<close>

locale client_invariant =
  fixes opts :: client_options and I :: "client \<Rightarrow> ctask list list \<Rightarrow> bool"
  assumes C_start: "client_new opts = Inr c \<Longrightarrow> I c []"
    and C_thread: "I c T \<Longrightarrow> I c (T @ [[]])"
    and C_incoming: "I c T \<Longrightarrow> i < length T \<Longrightarrow> \<forall>k \<in> set ts. incoming k \<Longrightarrow>
      \<forall>k \<in> set ts. \<forall>n \<in> set (mentions k). n < length (engines c) \<Longrightarrow>
      \<forall>k \<in> set ts. \<forall>ns t. k = On_socket ns t \<longrightarrow> map_of (sockets c) ns \<noteq> None \<Longrightarrow> I c (push_on i ts T)"
    and C_section: "I c T \<Longrightarrow> i < length T \<Longrightarrow> T ! i = k # ks \<Longrightarrow> ctx_me x = i \<Longrightarrow> ctx_next x = length T \<Longrightarrow>
      cexec x k c = Some (c', new, ob, sp) \<Longrightarrow> I c' (T[i := new @ ks] @ spawned sp)"
    and C_engine: "I c T \<Longrightarrow> n < length (engines c) \<Longrightarrow> transport_event e \<Longrightarrow>
      eio_step lib t e (engine (engines c ! n)) = (e', outs) \<Longrightarrow> I (set_engine n e' c) T"
    and C_scheduler: "I c T \<Longrightarrow> map_of (sockets c) ns = Some s \<Longrightarrow> I (set_scheduler ns s sc c) T"
    and C_destroy: "I c T \<Longrightarrow> n < length (engines c) \<Longrightarrow> current c \<noteq> Some n \<Longrightarrow> destroy n c = (c', ob) \<Longrightarrow> I c' T"
begin

lemma C_step:
  assumes "I (cl S) (threads S)" and "client_step lib rnd S e S'"
  shows "I (cl S') (threads S')"
  using assms(2)
proof cases
  case (c_call k i)
  then show ?thesis
    using assms(1) user_incoming user_mentions by (auto intro!: C_incoming)
next
  case (c_section i k ks u c' new ob sp)
  then show ?thesis
    using C_section [OF assms(1) c_section(3,4) _ _ c_section(5)] by (simp add: context_for_def)
next
  case (c_transport i n e e' outs)
  have "I (set_engine n e' (cl S)) (threads S)" using c_transport by (intro C_engine [OF assms(1)]) simp_all
  then show ?thesis
    using c_transport bound_callback_incoming [of _ n outs]
    by (auto intro!: C_incoming) force
next
  case (c_turn i ns s sc sc')
  have "I (set_scheduler ns s sc' (cl S)) (threads S)" using c_turn by (intro C_scheduler [OF assms(1)]) simp_all
  then show ?thesis
    using c_turn claimed_incoming [of _ ns "worker sc'"]
    by (auto intro!: C_incoming simp: set_scheduler_def)
next
  case (c_destroy n c' ob)
  then show ?thesis using assms(1) by (auto simp: referenced_def intro: C_destroy)
qed (use assms(1) in \<open>auto intro: C_thread C_scheduler\<close>)

end

sublocale client_invariant \<subseteq> sys: invariant "client_init opts" "client_step lib rnd" "\<lambda>S. I (cl S) (threads S)" for lib rnd
  by unfold_locales (auto simp: client_init.simps C_start intro: C_step)

section \<open>Well-formed clients\<close>

fun names :: "ctask \<Rightarrow> string list" where
  "names (On_socket ns k) = [ns]"
| "names (Close_disconnect ns) = [ns]"
| "names k = []"

fun joins :: "ctask \<Rightarrow> nat list" where
  "joins (Join r) = [r]"
| "joins k = []"

definition engine_ok :: "engineio \<Rightarrow> bool" where
  "engine_ok e \<longleftrightarrow> hb_inv e \<and> has_transport e \<and> has_on_frame e \<and> has_on_open e \<and> has_on_close e \<and> has_on_error e"

definition sockets_ok :: "(string \<times> socket) list \<Rightarrow> bool" where
  "sockets_ok m \<longleftrightarrow> sorted_wrt (<) (map fst m) \<and> (\<forall>(ns, s) \<in> set m. nsp s = ns \<and> ns \<noteq> [])"

definition task_ok :: "client \<Rightarrow> nat \<Rightarrow> ctask \<Rightarrow> bool" where
  "task_ok c m k \<longleftrightarrow> (\<forall>n \<in> set (mentions k). n < length (engines c)) \<and>
     (\<forall>ns \<in> set (names k). map_of (sockets c) ns \<noteq> None) \<and> (\<forall>r \<in> set (joins k). r < m)"

definition client_ok :: "client \<Rightarrow> nat \<Rightarrow> bool" where
  "client_ok c m \<longleftrightarrow> (\<forall>n. current c = Some n \<longrightarrow> n < length (engines c)) \<and> sockets_ok (sockets c) \<and>
     (\<forall>e \<in> set (engines c). engine_ok (engine e)) \<and>
     0 \<le> attempts_used c \<and> attempts_used c \<le> max 0 (reconnect_attempts (options c)) \<and>
     (\<forall>r. reconnect_thread c = Some r \<longrightarrow> r < m)"

lemma exec_nsp: "exec t k s = Inr (s', ks, ob) \<Longrightarrow> nsp s' = nsp s"
  by (cases k) (auto simp: section_defs Let_def split: section_splits)

lemma engine_ok_close: "engine_ok e \<Longrightarrow> eio_close e = (e', outs) \<Longrightarrow> engine_ok e'"
  by (auto simp: engine_ok_def eio_close_def request_heartbeat_stop_def hb_inv_def Let_def split: if_splits)

lemma engine_ok_open: "engine_ok e \<Longrightarrow> eio_open_url url e = (e', outs, ex) \<Longrightarrow> engine_ok e'"
  by (auto simp: engine_ok_def eio_open_url_def hb_inv_def Let_def split: if_splits)

lemma engine_ok_stop: "engine_ok e \<Longrightarrow> stop_heartbeat_timer False e = (e', outs) \<Longrightarrow> engine_ok e'"
  using stop_heartbeat_facts [of False e e' outs] by (simp add: engine_ok_def)

lemma engine_ok_sync: "engine_ok e \<Longrightarrow> eio_sync_close False e = (e', outs) \<Longrightarrow> engine_ok e'"
  by (auto simp: eio_sync_close_def split: prod.splits dest: engine_ok_close engine_ok_stop)

text \<open>What the events of a connection leave alone.\<close>

definition same_binding :: "engineio \<Rightarrow> engineio \<Rightarrow> bool" where
  "same_binding s s' \<longleftrightarrow> has_transport s' = has_transport s \<and> has_on_frame s' = has_on_frame s \<and>
     has_on_open s' = has_on_open s \<and> has_on_close s' = has_on_close s \<and> has_on_error s' = has_on_error s \<and>
     eio_closing s' = eio_closing s"

lemma same_binding_trans [trans]: "same_binding s s1 \<Longrightarrow> same_binding s1 s2 \<Longrightarrow> same_binding s s2"
  by (simp add: same_binding_def)

lemma same_binding_stop: "stop_heartbeat_timer h s = (s', outs) \<Longrightarrow> same_binding s s'"
  by (auto simp: same_binding_def stop_heartbeat_timer_def request_heartbeat_stop_def Let_def split: if_splits)

lemma same_binding_start: "same_binding s0 s \<Longrightarrow> same_binding s0 (fst (start_heartbeat_timer s))"
  by (auto simp: same_binding_def start_heartbeat_timer_def)

lemma same_binding_turn: "hb_turn t s = (s', outs) \<Longrightarrow> same_binding s s'"
  by (auto simp: same_binding_def hb_turn_def split: if_splits hb_state.splits)

lemma same_binding_update:
  "same_binding s0 s \<Longrightarrow> same_binding s0 (s\<lparr>ping_interval := a\<rparr>)"
  "same_binding s0 s \<Longrightarrow> same_binding s0 (s\<lparr>ping_timeout := b\<rparr>)"
  "same_binding s0 s \<Longrightarrow> same_binding s0 (s\<lparr>last_pong := t\<rparr>)"
  "same_binding s0 s \<Longrightarrow> same_binding s0 (s\<lparr>session_id := i\<rparr>)"
  "same_binding s0 s \<Longrightarrow> same_binding s0 (s\<lparr>eio_open := x\<rparr>)"
  by (simp_all add: same_binding_def)

lemma same_binding_open:
  assumes "handle_open_packet lib t rest s = (s', outs, ex)"
  shows "same_binding s s'"
proof -
  obtain s1 o1 where st: "stop_heartbeat_timer False s = (s1, o1)" by (cases "stop_heartbeat_timer False s")
  note h = assms [unfolded handle_open_packet_def st Let_def prod.case]
  note intros = same_binding_start same_binding_update same_binding_stop [OF st]
  show ?thesis
  proof (cases "lib_parse lib rest")
    case None
    then have "s' = fst (start_heartbeat_timer (s1\<lparr>last_pong := t, session_id := [], eio_open := True\<rparr>))"
      using h by (simp split: prod.splits)
    then show ?thesis by (simp add: intros)
  next
    case (Some j)
    show ?thesis
    proof (cases "value_int lib j ''pingInterval'' 25000")
      case (Inl e)
      then show ?thesis using h Some same_binding_stop [OF st] by simp
    next
      case a: (Inr a)
      show ?thesis
      proof (cases "value_int lib j ''pingTimeout'' 20000")
        case (Inl e)
        then have "s' = s1\<lparr>ping_interval := a\<rparr>" using h Some a by simp
        then show ?thesis by (simp add: intros)
      next
        case b: (Inr b)
        show ?thesis
        proof (cases "value_string j ''sid'' []")
          case (Inl e)
          then have "s' = s1\<lparr>ping_interval := a, ping_timeout := b, last_pong := t\<rparr>" using h Some a b by simp
          then show ?thesis by (simp add: intros)
        next
          case (Inr i)
          then have "s' = fst (start_heartbeat_timer
              (s1\<lparr>ping_interval := a, ping_timeout := b, last_pong := t, session_id := i, eio_open := True\<rparr>))"
            using h Some a b by (simp split: prod.splits)
          then show ?thesis by (simp add: intros)
        qed
      qed
    qed
  qed
qed

lemma same_binding_message:
  assumes "handle_transport_message lib t pl bin s = (s', outs, ex)"
  shows "same_binding s s'"
proof -
  obtain s1 o1 where st: "stop_heartbeat_timer False (s\<lparr>eio_open := False\<rparr>) = (s1, o1)"
    by (cases "stop_heartbeat_timer False (s\<lparr>eio_open := False\<rparr>)")
  have stop: "same_binding s s1" using same_binding_stop [OF st] by (simp add: same_binding_def)
  consider (kept) "same_binding s s'"
    | (opens) rest where "handle_open_packet lib t rest s = (s', outs, ex)"
    | (closing) "s' = s1"
  proof (cases "bin \<or> pl = []")
    case True
    then have "s' = s" using assms by (cases bin) (auto simp: handle_transport_message_def)
    then show thesis using kept by (simp add: same_binding_def)
  next
    case False
    then obtain ch rest where pl: "pl = ch # rest" by (cases pl) auto
    show thesis
    proof (cases "ch = CHR ''0'' \<or> ch = CHR ''1''")
      case True
      then show thesis using assms opens closing False pl by (auto simp: handle_transport_message_def st)
    next
      case other: False
      then have "same_binding s (fst (handle_transport_message lib t pl bin s))"
        using False pl by (auto simp: handle_transport_message_def same_binding_def)
      then have "same_binding s s'" unfolding assms by simp
      then show thesis by (rule kept)
    qed
  qed
  then show ?thesis using stop same_binding_open by cases auto
qed

lemma same_binding_step:
  assumes "eio_step lib t e s = (s', outs)" and "transport_event e"
  shows "same_binding s s'"
proof (cases e)
  case (E_message pl bin)
  then show ?thesis using assms same_binding_message by (auto split: prod.splits)
next
  case (E_transport_close h reason)
  have stop: "same_binding s s1" if "stop_heartbeat_timer g (s\<lparr>eio_open := False\<rparr>) = (s1, o1)" for g s1 o1
    using same_binding_stop [OF that] by (simp add: same_binding_def)
  then show ?thesis using assms E_transport_close by (auto simp: handle_transport_close_def split: prod.splits)
next
  case E_heartbeat
  then show ?thesis using assms same_binding_turn by auto
qed (use assms in \<open>auto simp: same_binding_def\<close>)

lemma engine_ok_step: "engine_ok s \<Longrightarrow> eio_step lib t e s = (s', outs) \<Longrightarrow> transport_event e \<Longrightarrow> engine_ok s'"
  using eio_step_inv [of s lib t e s' outs] same_binding_step [of lib t e s s' outs]
  by (simp add: engine_ok_def same_binding_def)

lemma engine_ok_new: "engine_ok (set_handlers True True True True (set_transport engineio_new))"
  by (simp add: engine_ok_def set_handlers_def set_transport_def hb_inv_def engineio_new_def)

lemma engines_set_engine:
  "\<forall>e \<in> set (engines c). engine_ok (engine e) \<Longrightarrow> engine_ok e' \<Longrightarrow> \<forall>e \<in> set (engines (set_engine n e' c)). engine_ok (engine e)"
  by (auto simp: set_engine_def dest!: set_update_subset_insert [THEN subsetD])

lemma sockets_ok_put:
  assumes "sockets_ok m" and "nsp s = ns" and "ns \<noteq> []"
  shows "sockets_ok (map_put ns s m)"
  using assms sorted_map_put [of m ns s] set_map_put [of ns s m] by (auto simp: sockets_ok_def)

lemma sockets_ok_found: "sockets_ok m \<Longrightarrow> map_of m ns = Some s \<Longrightarrow> nsp s = ns \<and> ns \<noteq> []"
  by (auto simp: sockets_ok_def dest!: map_of_SomeD)

lemmas client_splits = if_splits option.splits sum.splits prod.splits

text \<open>
  The outcomes of a section: those of the longer sections one by one, and the sections whose
  definitions are short enough to be unfolded.
\<close>

fun plain :: "ctask \<Rightarrow> bool" where
  "plain (C_socket ns a) = False"
| "plain (Ensure_engineio why) = False"
| "plain (Install n why) = False"
| "plain (Open_engine n why) = False"
| "plain (Engine_close n) = False"
| "plain (Engine_sync_close n) = False"
| "plain (On_socket ns k) = False"
| "plain k = True"

lemma section_cases:
  assumes "cexec x k c = Some (c', new, ob, sp)"
  obtains (known) ns a s where "k = C_socket ns a" "map_of (sockets c) (if ns = [] then ''/'' else ns) = Some s"
      "c' = (if is_null a then c else c\<lparr>sockets := map_put (if ns = [] then ''/'' else ns) (socket_set_auth a s) (sockets c)\<rparr>)"
      "new = []" "sp = None" "sockets_owner c = None"
  | (fresh) ns a n s c1 where "k = C_socket ns a" "n = (if ns = [] then ''/'' else ns)" "map_of (sockets c) n = None"
      "sockets_owner c = None" "s = (if intentional_close c then cancel_timed_acks (socket_new n a) else socket_new n a)"
      "c1 = c\<lparr>sockets := map_put n s (sockets c)\<rparr>" "sp = None"
      "c' = c1 \<and> new = [] \<or> c' = c1\<lparr>sockets_owner := Some (ctx_me x)\<rparr> \<and> new = [On_socket n Send_connect, Unlock_sockets]"
  | (failed) why n where "k = Ensure_engineio why \<or> k = Open_engine n why" "c' = c" "sp = None" "new = [] \<or> (\<exists>call. new = [Call_handler call])"
  | (made) why e where "k = Ensure_engineio why" "c' = c\<lparr>engines := engines c @ [e]\<rparr>" "sp = None"
      "new = [Install (length (engines c)) why]" "engine e = set_handlers True True True True (set_transport engineio_new)"
  | (refused) n why where "k = Install n why" "intentional_close c" "c' = c" "sp = None" "new = Release n # after_refusal why"
  | (installed) n why where "k = Install n why" "\<not> intentional_close c" "c' = c\<lparr>current := Some n\<rparr>" "sp = None"
      "new = (case current c of None \<Rightarrow> [] | Some old \<Rightarrow> [Release old]) @ after_install n why"
  | (opened) n why e' outs ex url where "k = Open_engine n why" "eio_open_url url (engine (engines c ! n)) = (e', outs, ex)"
      "c' = set_engine n e' c" "sp = None" "\<And>k. k \<in> set new \<Longrightarrow> \<exists>call. k = Call_handler call"
  | (socket) ns t s s' ks obs where "k = On_socket ns t" "map_of (sockets c) ns = Some s" "exec (ctx_time x) t s = Inr (s', ks, obs)"
      "c' = c\<lparr>sockets := map_put ns s' (sockets c)\<rparr>" "sp = None"
      "new = concat (map obs_tasks obs) @ map (On_socket ns) ks"
  | (closing) n e' outs where "k = Engine_close n \<and> eio_close (engine (engines c ! n)) = (e', outs) \<and> new = [In_call] \<or>
        k = Engine_sync_close n \<and> eio_sync_close False (engine (engines c ! n)) = (e', outs) \<and>
        new = bind_engineio_callbacks n outs @ [In_call]"
      "c' = set_engine n e' c" "sp = None"
  | (plain) "plain k"
proof (cases "plain k")
  case True
  then show ?thesis by (rule plain)
next
  case False
  then consider (C_socket) ns a where "k = C_socket ns a"
    | (Ensure_engineio) why where "k = Ensure_engineio why"
    | (Install) n why where "k = Install n why"
    | (Open_engine) n why where "k = Open_engine n why"
    | (Engine_close) n where "k = Engine_close n"
    | (Engine_sync_close) n where "k = Engine_sync_close n"
    | (On_socket) ns t where "k = On_socket ns t"
    by (cases k) auto
  then show ?thesis
  proof cases
      case (C_socket ns a)
      with assms have "client_socket (ctx_me x) ns a c = Some (c', new, ob, sp)" by simp
      then show ?thesis using known fresh C_socket by (cases rule: client_socket_cases) blast+
    next
      case (Ensure_engineio why)
      with assms have "ensure_engineio why c = Some (c', new, ob, sp)" by simp
      then show ?thesis using failed made Ensure_engineio by (cases rule: ensure_engineio_cases) blast+
    next
      case (Install n why)
      with assms have "install_engineio n why c = Some (c', new, ob, sp)" by simp
      then show ?thesis
        using refused [OF Install] installed [OF Install] by (auto simp: install_engineio_def continue_with_def split: if_splits)
    next
      case (Open_engine n why)
      with assms have "open_engine (ctx_lib x) n why c = Some (c', new, ob, sp)" by simp
      then show ?thesis using failed opened Open_engine by (cases rule: open_engine_cases) blast+
    next
      case (Engine_close n)
      obtain e' outs where "eio_close (engine (engines c ! n)) = (e', outs)" by (cases "eio_close (engine (engines c ! n))")
      then show ?thesis using assms Engine_close by (intro closing [of n e' outs]) (simp_all add: engine_close_def observed_def)
    next
      case (Engine_sync_close n)
      obtain e' outs where "eio_sync_close False (engine (engines c ! n)) = (e', outs)"
        by (cases "eio_sync_close False (engine (engines c ! n))")
      then show ?thesis using assms Engine_sync_close by (intro closing [of n e' outs]) (simp_all add: engine_sync_close_def observed_def)
    next
      case (On_socket ns t)
      with assms have "on_socket (ctx_time x) ns t c = Some (c', new, ob, sp)" by simp
      then show ?thesis using socket On_socket by (cases rule: on_socket_cases) blast
  qed
qed

lemma section_grows:
  assumes "cexec x k c = Some (c', new, ob, sp)"
  shows "length (engines c) \<le> length (engines c') \<and>
    (\<forall>ns. map_of (sockets c) ns \<noteq> None \<longrightarrow> map_of (sockets c') ns \<noteq> None) \<and> options c' = options c"
  using assms
proof (cases rule: section_cases)
  case plain
  then show ?thesis using assms by (cases k) (auto simp: client_sections Let_def split: client_splits)
qed auto

lemma section_spawns:
  assumes "cexec x k c = Some (c', new, ob, sp)" and "sp = Some st"
  shows "\<exists>delay uri. k = Spawn_reconnect delay uri \<and> st = [Reconnect_wait delay uri]"
  using assms(1)
proof (cases rule: section_cases)
  case plain
  then show ?thesis using assms by (cases k) (auto simp: client_sections Let_def split: client_splits)
qed (use assms(2) in auto)

lemma after_install_tasks:
  assumes "k \<in> set (after_install n why)"
  shows "set (mentions k) \<subseteq> {n}" and "names k = []" and "joins k = []"
  using assms by (cases why; auto)+

lemma after_refusal_tasks:
  assumes "k \<in> set (after_refusal why)"
  shows "mentions k = []" and "names k = []" and "joins k = []"
  using after_refusal_handlers [OF assms] by auto

lemma bound_callback_tasks:
  assumes "k \<in> set (bind_engineio_callbacks n outs)"
  shows "mentions k = [n] \<and> names k = [] \<and> joins k = []"
  using bound_callback_incoming [OF assms] by (cases k) simp_all

lemma section_tasks_ok:
  assumes "cexec x k c = Some (c', new, ob, sp)" and "client_ok c m" and "task_ok c m k" and "k' \<in> set new"
  shows "task_ok c' m k'"
proof -
  have c: "\<forall>n. current c = Some n \<longrightarrow> n < length (engines c)" "\<forall>r. reconnect_thread c = Some r \<longrightarrow> r < m"
    using assms(2) by (simp_all add: client_ok_def)
  show ?thesis
    using assms(1)
  proof (cases rule: section_cases)
    case (socket ns t s s' ks obs)
    have "k' \<in> set (concat (map obs_tasks obs)) \<or> (\<exists>t'. k' = On_socket ns t')" using assms(4) socket(6) by auto
    then have "k' = In_call \<or> (\<exists>p. k' = Send_packet p) \<or> (\<exists>t'. k' = On_socket ns t')" using obs_task_plain by blast
    then show ?thesis using socket(2,4) by (auto simp: task_ok_def)
  next
    case (refused n why)
    then have "k' = Release n \<or> k' \<in> set (after_refusal why)" using assms(4) by auto
    then show ?thesis using refused assms(3) after_refusal_tasks [of k' why] by (auto simp: task_ok_def)
  next
    case (installed n why)
    then have "(\<exists>old. current c = Some old \<and> k' = Release old) \<or> k' \<in> set (after_install n why)"
      using assms(4) by (auto split: option.splits)
    then show ?thesis using installed(1,3) assms(3) c(1) after_install_tasks [of k' n why]
      by (auto simp: task_ok_def)
  next
    case (closing n e' outs)
    then have "k' = In_call \<or> k' \<in> set (bind_engineio_callbacks n outs)" using assms(4) by auto
    then show ?thesis using closing(1,2) assms(3) bound_callback_tasks [of k' n outs] by (auto simp: task_ok_def)
  next
    case plain
    then show ?thesis using c assms(1,3,4)
      by (cases k) (auto simp: task_ok_def client_sections Let_def 
          dest!: weak_map_of_SomeI split: client_splits)
  qed (use assms(4) in \<open>fastforce simp: task_ok_def\<close>)+
qed


lemma plain_frame:
  assumes "cexec x k c = Some (c', new, ob, sp)" and "plain k"
  shows "engines c' = engines c" and "sockets c' = sockets c" and "current c' = current c" and "options c' = options c"
    and "0 \<le> attempts_used c \<Longrightarrow> attempts_used c \<le> max 0 (reconnect_attempts (options c)) \<Longrightarrow>
      0 \<le> attempts_used c' \<and> attempts_used c' \<le> max 0 (reconnect_attempts (options c))"
    and "reconnect_thread c' = reconnect_thread c \<or> reconnect_thread c' = None \<or> reconnect_thread c' = Some (ctx_next x) \<and> sp \<noteq> None"
  using assms by (cases k; auto simp: client_sections Let_def split: client_splits)+

lemma section_client_ok:
  assumes "cexec x k c = Some (c', new, ob, sp)" and ok: "client_ok c m" and "task_ok c m k" and "ctx_next x = m"
  shows "client_ok c' (m + length (spawned sp))"
proof -
  note parts = ok [unfolded client_ok_def]
  have engine_at: "engine_ok (engine (engines c ! n))" if "n < length (engines c)" for n using parts that by simp
  show ?thesis
    using assms(1)
  proof (cases rule: section_cases)
    case (known ns a s)
    let ?n = "if ns = [] then ''/'' else ns"
    have "sockets_ok (map_put ?n (socket_set_auth a s) (sockets c))"
      using parts sockets_ok_found [OF _ known(2)] by (intro sockets_ok_put) (auto simp: socket_set_auth_def)
    then show ?thesis using known(3,5) parts by (auto simp: client_ok_def spawned_def)
  next
    case (fresh ns a n s c1)
    have "sockets_ok (map_put n s (sockets c))"
      using parts fresh(2,5) by (intro sockets_ok_put) (auto simp: cancel_timed_acks_def socket_new_def)
    then have "client_ok c1 m" using fresh(6) parts by (auto simp: client_ok_def)
    then show ?thesis using fresh(7,8) by (auto simp: client_ok_def spawned_def)
  next
    case (made why e)
    then show ?thesis using parts engine_ok_new by (auto simp: client_ok_def spawned_def less_Suc_eq)
  next
    case (installed n why)
    then show ?thesis using parts assms(3) by (auto simp: client_ok_def spawned_def task_ok_def)
  next
    case (opened n why e' outs ex url)
    have "engine_ok e'" using engine_at assms(3) opened(1) engine_ok_open [OF _ opened(2)] by (auto simp: task_ok_def)
    with opened(3,4) parts engines_set_engine [of c e' n] show ?thesis by (auto simp: client_ok_def spawned_def)
  next
    case (socket ns t s s' ks obs)
    have "sockets_ok (map_put ns s' (sockets c))"
      using parts sockets_ok_found [OF _ socket(2)] exec_nsp [OF socket(3)] by (intro sockets_ok_put) auto
    then show ?thesis using socket(4,5) parts by (auto simp: client_ok_def spawned_def)
  next
    case (closing n e' outs)
    have "engine_ok e'"
      using closing(1) engine_at [of n] engine_ok_close [of _ e' outs] engine_ok_sync [of _ e' outs] assms(3) by (auto simp: task_ok_def)
    then show ?thesis using closing(2,3) parts engines_set_engine [of c e' n] unfolding client_ok_def by (simp add: spawned_def)
  next
    case plain
    note f = plain_frame [OF assms(1) plain]
    have "r < m + length (spawned sp)" if "reconnect_thread c' = Some r" for r
      using that f(6) parts assms(4) by (auto simp: spawned_def trans_less_add1)
    then show ?thesis unfolding client_ok_def f(1-4) using parts f(5) by simp
  qed (use ok in \<open>simp add: spawned_def\<close>)+
qed


definition type_inv :: "client_options \<Rightarrow> client \<Rightarrow> ctask list list \<Rightarrow> bool" where
  "type_inv opts c T \<longleftrightarrow> options c = opts \<and> client_ok c (length T) \<and> (\<forall>k \<in> pending T. task_ok c (length T) k)"

lemma client_new_fields:
  assumes "client_new opts = Inr c"
  shows "options c = opts" "engines c = []" "current c = None" "sockets c = []" "attempts_used c = 0"
    "reconnect_thread c = None" "sockets_owner c = None" "reconnect_owner c = None" "\<not> intentional_close c"
  using assms by (auto simp: client_new_def split: sum.splits)

lemma task_ok_mono:
  assumes "task_ok c m k" and "length (engines c) \<le> length (engines c')" and "m \<le> m'"
    and "\<And>ns. map_of (sockets c) ns \<noteq> None \<Longrightarrow> map_of (sockets c') ns \<noteq> None"
  shows "task_ok c' m' k"
  using assms unfolding task_ok_def by (meson order.strict_trans2)

lemma type_section:
  assumes I: "type_inv opts c T" and i: "i < length T" "T ! i = k # ks" and x: "ctx_next x = length T"
    and e: "cexec x k c = Some (c', new, ob, sp)"
  shows "type_inv opts c' (T[i := new @ ks] @ spawned sp)"
proof -
  let ?T = "T[i := new @ ks] @ spawned sp"
  have ok: "client_ok c (length T)" "task_ok c (length T) k"
    using I pending_section(5) [OF i] by (auto simp: type_inv_def)
  have len: "length ?T = length T + length (spawned sp)" by simp
  note g = section_grows [OF e]
  have "task_ok c' (length ?T) w" if w: "w \<in> pending ?T" for w
  proof -
    consider "w \<in> pending T" | "w \<in> set new" | st where "sp = Some st" "w \<in> set st"
      using pending_section(4) [OF i, of new sp] w by (auto split: option.splits)
    then show ?thesis
    proof cases
      case 1
      then have "task_ok c (length T) w" using I by (simp add: type_inv_def)
      then show ?thesis by (rule task_ok_mono) (use g in auto)
    next
      case 2
      show ?thesis by (rule task_ok_mono [OF section_tasks_ok [OF e ok 2]]) simp_all
    next
      case 3
      then show ?thesis using section_spawns [OF e 3(1)] by (auto simp: task_ok_def)
    qed
  qed
  moreover have "client_ok c' (length ?T)" unfolding len by (rule section_client_ok [OF e ok x])
  ultimately show ?thesis using I g by (auto simp: type_inv_def)
qed

lemma client_ok_mono: "client_ok c m \<Longrightarrow> m \<le> m' \<Longrightarrow> client_ok c m'"
  unfolding client_ok_def by (meson order.strict_trans2)

lemma task_ok_engine [simp]: "task_ok (set_engine n e c) m k = task_ok c m k"
  by (simp add: task_ok_def)

lemma destroy_facts:
  assumes "destroy n c = (c', ob)"
  obtains e outs where "eio_sync_close False (engine (engines c ! n)) = (e, outs)"
    "c' = c\<lparr>engines := (engines c)[n := (engines c ! n)\<lparr>engine := e, destroyed := True\<rparr>]\<rparr>"
  using assms by (auto simp: destroy_def split: prod.splits)

interpretation typed: client_invariant opts "type_inv opts" for opts
proof unfold_locales
  show "type_inv opts c []" if "client_new opts = Inr c" for c
    using client_new_fields [OF that] by (simp add: type_inv_def client_ok_def pending_def sockets_ok_def)
  show "type_inv opts c (T @ [[]])" if "type_inv opts c T" for c T
    using that client_ok_mono [of c "length T" "Suc (length T)"] task_ok_mono [of c "length T" _ c "Suc (length T)"]
    by (simp add: type_inv_def pending_def)
  show "type_inv opts c (push_on i ts T)"
    if inv: "type_inv opts c T" and i: "i < length T" and ts: "\<forall>k \<in> set ts. incoming k" "\<forall>k \<in> set ts. \<forall>n \<in> set (mentions k). n < length (engines c)"
      "\<forall>k \<in> set ts. \<forall>ns t. k = On_socket ns t \<longrightarrow> map_of (sockets c) ns \<noteq> None"
    for c T i ts
  proof -
    have "task_ok c (length T) k" if k: "k \<in> set ts" for k
    proof -
      have "incoming k" using k ts(1) by blast
      then have "joins k = []" "\<And>ns. ns \<in> set (names k) \<Longrightarrow> \<exists>t. k = On_socket ns t" by (cases k; auto)+
      then show ?thesis using k ts(2,3) unfolding task_ok_def by fastforce
    qed
    then show ?thesis using inv i by (auto simp: type_inv_def)
  qed
  show "type_inv opts (set_engine n e' c) T"
    if "type_inv opts c T" "n < length (engines c)" "transport_event e" "eio_step lib t e (engine (engines c ! n)) = (e', outs)"
    for c T n e e' lib t outs
  proof -
    have "engine_ok e'" using that engine_ok_step [OF _ that(4,3)] by (simp add: type_inv_def client_ok_def)
    then show ?thesis using that(1) engines_set_engine [of c e' n] by (auto simp: type_inv_def client_ok_def)
  qed
  show "type_inv opts (set_scheduler ns s sc c) T" if "type_inv opts c T" "map_of (sockets c) ns = Some s" for c T ns s sc
  proof -
    have "sockets_ok (map_put ns (s\<lparr>scheduler := Some sc\<rparr>) (sockets c))"
      using that sockets_ok_found [OF _ that(2)] by (intro sockets_ok_put) (auto simp: type_inv_def client_ok_def)
    then show ?thesis using that by (auto simp: type_inv_def client_ok_def set_scheduler_def task_ok_def)
  qed
  show "type_inv opts c' T" if "type_inv opts c T" "n < length (engines c)" "destroy n c = (c', ob)" for c T n c' ob
    using that(3)
  proof (cases rule: destroy_facts)
    case (1 e outs)
    have "engine_ok e" using that(1,2) engine_ok_sync [OF _ 1(1)] by (simp add: type_inv_def client_ok_def)
    then have "\<forall>e \<in> set (engines c'). engine_ok (engine e)"
      using that(1) 1(2) by (auto simp: type_inv_def client_ok_def dest!: set_update_subset_insert [THEN subsetD])
    then show ?thesis using that(1) 1(2) by (auto simp: type_inv_def client_ok_def task_ok_def)
  qed
qed (rule type_section)

section \<open>Executing scenarios\<close>

text \<open>The step relation as a function of the event, for running concrete interleavings.\<close>

fun cperform :: "json_lib \<Rightarrow> (real \<Rightarrow> real) \<Rightarrow> csystem \<Rightarrow> client_event \<Rightarrow> csystem option" where
  "cperform lib rnd S (Time_passes d) = (if 0 \<le> d then Some (S\<lparr>now := now S + d\<rparr>) else None)"
| "cperform lib rnd S New_thread = Some (S\<lparr>threads := threads S @ [[]]\<rparr>)"
| "cperform lib rnd S (Call i k) =
     (if user_call k \<and> i < length (threads S) \<and> can_call (threads S ! i) \<and>
         (\<forall>ns \<in> set (names k). map_of (sockets (cl S)) ns \<noteq> None)
      then Some (S\<lparr>threads := push_on i [k] (threads S)\<rparr>) else None)"
| "cperform lib rnd S (Section i u) =
     (if i < length (threads S)
      then (case threads S ! i of
              [] \<Rightarrow> None
            | k # ks \<Rightarrow>
                (case cexec (context_for lib rnd u i S) k (cl S) of
                   None \<Rightarrow> None
                 | Some (c', new, ob, sp) \<Rightarrow>
                     Some (S\<lparr>cl := c', threads := (threads S)[i := new @ ks] @ spawned sp, clog := clog S @ ob\<rparr>)))
      else None)"
| "cperform lib rnd S (Transport i n e) =
     (if i < length (threads S) \<and> can_call (threads S ! i) \<and> n < length (engines (cl S)) \<and>
         \<not> destroyed (engines (cl S) ! n) \<and> transport_event e
      then (case eio_step lib (now S div ticks_per_ms) e (engine (engines (cl S) ! n)) of
              (e', outs) \<Rightarrow>
                Some (S\<lparr>cl := set_engine n e' (cl S), threads := push_on i (bind_engineio_callbacks n outs) (threads S),
                   clog := clog S @ engine_obs n outs\<rparr>))
      else None)"
| "cperform lib rnd S (Deadline_turn i ns) =
     (if i < length (threads S) \<and> can_call (threads S ! i)
      then (case map_of (sockets (cl S)) ns of
              None \<Rightarrow> None
            | Some s \<Rightarrow>
                (case scheduler s of
                   None \<Rightarrow> None
                 | Some sc \<Rightarrow>
                     (if worker sc = Running
                      then (case worker_turn (now S) sc of
                              Inl e \<Rightarrow> None
                            | Inr sc' \<Rightarrow>
                                Some (S\<lparr>cl := set_scheduler ns s sc' (cl S),
                                   threads := push_on i (map (On_socket ns) (claimed (worker sc'))) (threads S)\<rparr>))
                      else None)))
      else None)"
| "cperform lib rnd S (Deadline_wake ns) =
     (case map_of (sockets (cl S)) ns of
        None \<Rightarrow> None
      | Some s \<Rightarrow>
          (case scheduler s of
             None \<Rightarrow> None
           | Some sc \<Rightarrow>
               (if worker sc \<noteq> Exited then Some (S\<lparr>cl := set_scheduler ns s (worker_wake sc) (cl S)\<rparr>) else None)))"
| "cperform lib rnd S (Destruction n) =
     (if n < length (engines (cl S)) \<and> \<not> destroyed (engines (cl S) ! n) \<and> \<not> referenced S n
      then (case destroy n (cl S) of (c', ob) \<Rightarrow> Some (S\<lparr>cl := c', clog := clog S @ ob\<rparr>))
      else None)"

fun cperform_all :: "json_lib \<Rightarrow> (real \<Rightarrow> real) \<Rightarrow> csystem \<Rightarrow> client_event list \<Rightarrow> csystem option" where
  "cperform_all lib rnd S [] = Some S"
| "cperform_all lib rnd S (e # es) =
     (case cperform lib rnd S e of None \<Rightarrow> None | Some S' \<Rightarrow> cperform_all lib rnd S' es)"

lemma cperform_step: "cperform lib rnd S e = Some S' \<Longrightarrow> client_step lib rnd S e S'"
  by (cases e) (auto split: if_splits list.splits option.splits sum.splits prod.splits intro: client_step.intros)

lemma cperform_reach:
  "cperform_all lib rnd S es = Some S' \<Longrightarrow> reach I (client_step lib rnd) S \<Longrightarrow> reach I (client_step lib rnd) S'"
  by (induction es arbitrary: S) (auto split: option.splits intro: reach_step cperform_step)

text \<open>The client with default options, except for three reconnection attempts, and threads \<open>0\<close> and \<open>1\<close>.\<close>

definition retry_options :: client_options where
  "retry_options = default_options\<lparr>reconnect_attempts := 3\<rparr>"

definition client_start :: csystem where
  "client_start = \<lparr>cl = projr (client_new retry_options), now = 0, threads = [], clog = []\<rparr>"

definition sections :: "nat \<Rightarrow> nat \<Rightarrow> client_event list" where
  "sections i n = replicate n (Section i 0)"

definition open_events :: "client_event list" where
  "open_events =
     [New_thread, New_thread, Call 0 (C_socket [] JNull)] @ sections 0 1
     @ [Call 0 (C_connect ''ws://h:80'')] @ sections 0 9
     @ [Transport 1 0 (E_message ''0{}'' False)] @ sections 1 7"

lemma client_start_init: "client_init retry_options client_start"
proof -
  have "client_new retry_options = Inr (projr (client_new retry_options))"
    by (simp add: client_new_def retry_options_def default_options_def)
  then show ?thesis unfolding client_start_def by (rule client_init.intros)
qed

lemma scenario_reachable:
  assumes "cperform_all lib rnd client_start es \<noteq> None"
  shows "reach (client_init retry_options) (client_step lib rnd) (the (cperform_all lib rnd client_start es))"
  using assms cperform_reach [OF _ reach_init [of "client_init retry_options", OF client_start_init]] by fastforce

definition after_events :: "client_event list \<Rightarrow> csystem" where
  "after_events es = the (cperform_all sample_lib (\<lambda>x. x) client_start (open_events @ es))"

definition final_threads :: "client_event list \<Rightarrow> ctask list list option" where
  "final_threads es = map_option threads (cperform_all sample_lib (\<lambda>x. x) client_start (open_events @ es))"

lemma after_events_reach:
  assumes "final_threads es = Some T"
  shows "reach (client_init retry_options) (client_step sample_lib (\<lambda>x. x)) (after_events es)" and "threads (after_events es) = T"
  using scenario_reachable [of sample_lib "\<lambda>x. x" "open_events @ es"] assms by (auto simp: after_events_def final_threads_def)

lemma open_final: "final_threads [] = Some [[], []]"
  by code_simp

lemmas open_reach = after_events_reach [OF open_final]

section \<open>Properties\<close>

text \<open>
  C13. The client is well formed in every reachable state, under all interleavings: the current
  connection is one the client has made, and each connection has its transport and all four
  handlers bound; the sockets are in key order, without duplicates, each under its own non-empty
  namespace; the attempts used stay between zero and the configured number; and every task that any
  thread still has to do names only connections, sockets and threads that exist.
\<close>

theorem client_well_formed:
  assumes "reach (client_init opts) (client_step lib rnd) S"
  shows "options (cl S) = opts \<and> client_ok (cl S) (length (threads S))
    \<and> (\<forall>k \<in> pending (threads S). task_ok (cl S) (length (threads S)) k)"
  using typed.sys.reachable_inv [OF assms] by (simp add: type_inv_def)

theorem client_well_formed_witness:
  "client_ok (cl (after_events [])) (length (threads (after_events []))) \<and> current (cl (after_events [])) = Some 0
   \<and> map fst (sockets (cl (after_events []))) = [''/'']"
proof (intro conjI)
  show "client_ok (cl (after_events [])) (length (threads (after_events [])))"
    using client_well_formed [OF open_reach(1)] by blast
qed code_simp+

end
