(* ===== verification/Client_Shutdown.thy ===== *)
theory Client_Shutdown
  imports Client_System
begin

text \<open>
  Shutdown of the client under every interleaving of threads (theory \<open>Client_System\<close>): after
  \<^verbatim>\<open>close()\<close> no connection installed by the client stays unclosed and no acknowledgement deadline
  survives, although connections are replaced, sockets are created and \<^verbatim>\<open>connect()\<close> is called
  concurrently. The theory also exhibits the interleavings in which the client's threads block each
  other for ever.
\<close>

section \<open>The current connection is closed\<close>

definition closing_inv :: "client_options \<Rightarrow> client \<Rightarrow> ctask list list \<Rightarrow> bool" where
  "closing_inv opts c T \<longleftrightarrow> type_inv opts c T \<and>
     (intentional_close c \<longrightarrow>
        (\<forall>n. current c = Some n \<longrightarrow> eio_closing (engine (engines c ! n)) \<or> Close_snapshot \<in> pending T \<or>
           Close_engine \<in> pending T \<or> Engine_close n \<in> pending T))"

lemma closing_invI:
  assumes "type_inv opts c T"
    and "\<And>n. intentional_close c \<Longrightarrow> current c = Some n \<Longrightarrow> n < length (engines c) \<Longrightarrow> \<not> eio_closing (engine (engines c ! n)) \<Longrightarrow>
      Close_snapshot \<in> pending T \<or> Close_engine \<in> pending T \<or> Engine_close n \<in> pending T"
  shows "closing_inv opts c T"
  using assms by (auto simp: closing_inv_def type_inv_def client_ok_def)

lemma plain_closing:
  assumes "cexec x k c = Some (c', new, ob, sp)" and "plain k"
  shows "intentional_close c' \<Longrightarrow> intentional_close c \<or> Close_snapshot \<in> set new"
    and "k = Close_snapshot \<Longrightarrow> Close_engine \<in> set new"
    and "k = Close_engine \<Longrightarrow> current c = Some n \<Longrightarrow> Engine_close n \<in> set new"
  using assms by (cases k; auto simp: client_sections Let_def split: client_splits)+

lemma closing_engine:
  assumes "eio_close e = (e', outs) \<or> eio_sync_close False e = (e', outs)"
  shows "eio_closing e'"
proof -
  obtain e1 o1 where c: "eio_close e = (e1, o1)" by (cases "eio_close e")
  obtain e2 o2 where st: "stop_heartbeat_timer False e1 = (e2, o2)" by (cases "stop_heartbeat_timer False e1")
  have "eio_closing (fst (eio_close e))"
    by (simp add: eio_close_def request_heartbeat_stop_def Let_def)
  then have e1: "eio_closing e1" by (simp add: c)
  then have "eio_closing e2" using same_binding_stop [OF st] by (simp add: same_binding_def)
  moreover have "e' = e1 \<or> e' = e2" using assms c st by (auto simp: eio_sync_close_def)
  ultimately show ?thesis using e1 by blast
qed

lemma open_url_closing: "eio_open_url url e = (e', outs, ex) \<Longrightarrow> eio_closing e' = eio_closing e"
  by (auto simp: eio_open_url_def Let_def split: if_splits)

lemma closing_section:
  assumes I: "closing_inv opts c T" and i: "i < length T" "T ! i = k # ks" and x: "ctx_next x = length T"
    and e: "cexec x k c = Some (c', new, ob, sp)"
  shows "closing_inv opts c' (T[i := new @ ks] @ spawned sp)"
proof (rule closing_invI)
  let ?T = "T[i := new @ ks] @ spawned sp"
  have ty: "type_inv opts c T" using I by (simp add: closing_inv_def)
  then show "type_inv opts c' ?T" by (rule type_section [OF _ i x e])
  fix n assume n: "intentional_close c'" "current c' = Some n" "n < length (engines c')" "\<not> eio_closing (engine (engines c' ! n))"
  note new = pending_section(1) [OF i, of new sp, THEN subsetD]
  note kept = pending_section(3) [OF i, where new = new and sp = sp]
  have old: "Close_snapshot \<in> pending T \<or> Close_engine \<in> pending T \<or> Engine_close n \<in> pending T"
    if "intentional_close c" "current c = Some n" "\<not> eio_closing (engine (engines c ! n))"
    using I that by (auto simp: closing_inv_def)
  have bound: "n < length (engines c)" if "current c = Some n" using ty that by (auto simp: type_inv_def client_ok_def)
  show "Close_snapshot \<in> pending ?T \<or> Close_engine \<in> pending ?T \<or> Engine_close n \<in> pending ?T"
    using e
  proof (cases rule: section_cases)
    case (known ns a s)
    then show ?thesis using n old kept by (auto split: if_splits)
  next
    case (fresh ns a m s c1)
    then show ?thesis using n old kept by auto
  next
    case (failed why m)
    then show ?thesis using n old kept by auto
  next
    case (made why e)
    then show ?thesis using n old kept bound by (auto simp: nth_append)
  next
    case (refused m why)
    then show ?thesis using n old kept by auto
  next
    case (installed m why)
    then show ?thesis using n by simp
  next
    case (opened m why e' outs ex url)
    then have "\<not> eio_closing (engine (engines c ! n))"
      using n open_url_closing [OF opened(2)] by (auto simp: engine_set_engine split: if_splits)
    then show ?thesis using n old kept opened by auto
  next
    case (socket ns t s s' ks obs)
    then show ?thesis using n old kept by auto
  next
    case (closing m e' outs)
    have "eio_closing e'" using closing(1) closing_engine by blast
    then have "m \<noteq> n" "\<not> eio_closing (engine (engines c ! n))"
      using n closing(2) by (auto simp: engine_set_engine split: if_splits)
    then show ?thesis using n old kept closing by auto
  next
    case plain
    note f = plain_frame [OF e plain] and g = plain_closing [OF e plain]
    show ?thesis
    proof (cases "intentional_close c")
      case True
      with n f(1,3) old have "Close_snapshot \<in> pending T \<or> Close_engine \<in> pending T \<or> Engine_close n \<in> pending T" by simp
      moreover have "Engine_close n \<noteq> k" using plain by auto
      ultimately show ?thesis using new kept g(2) g(3) [of n] n(2) f(3) by metis
    next
      case False
      then show ?thesis using g(1) n new by blast
    qed
  qed
qed

interpretation closing: client_invariant opts "closing_inv opts" for opts
proof unfold_locales
  show "closing_inv opts c []" if "client_new opts = Inr c" for c
    using typed.C_start [OF that] client_new_fields [OF that] by (simp add: closing_inv_def)
  show "closing_inv opts c (T @ [[]])" if "closing_inv opts c T" for c T
    using that typed.C_thread [of opts c T] by (simp add: closing_inv_def pending_def)
  show "closing_inv opts c (push_on i ts T)"
    if "closing_inv opts c T" "i < length T" "\<forall>k \<in> set ts. incoming k" "\<forall>k \<in> set ts. \<forall>n \<in> set (mentions k). n < length (engines c)"
      "\<forall>k \<in> set ts. \<forall>ns t. k = On_socket ns t \<longrightarrow> map_of (sockets c) ns \<noteq> None" for c T i ts
    using that(1,2) typed.C_incoming [OF _ that(2-5)] unfolding closing_inv_def by auto
  show "closing_inv opts (set_engine n e' c) T"
    if "closing_inv opts c T" "n < length (engines c)" "transport_event e" "eio_step lib t e (engine (engines c ! n)) = (e', outs)"
    for c T n e e' lib t outs
  proof (rule closing_invI)
    show "type_inv opts (set_engine n e' c) T"
      using that(1) typed.C_engine [OF _ that(2-4)] by (simp add: closing_inv_def)
    have "eio_closing e' = eio_closing (engine (engines c ! n))" using same_binding_step [OF that(4,3)] by (simp add: same_binding_def)
    then show "Close_snapshot \<in> pending T \<or> Close_engine \<in> pending T \<or> Engine_close m \<in> pending T"
      if "intentional_close (set_engine n e' c)" "current (set_engine n e' c) = Some m" "m < length (engines (set_engine n e' c))"
        "\<not> eio_closing (engine (engines (set_engine n e' c) ! m))" for m
      using that \<open>closing_inv opts c T\<close> by (auto simp: closing_inv_def engine_set_engine split: if_splits)
  qed
  show "closing_inv opts (set_scheduler ns s sc c) T" if "closing_inv opts c T" "map_of (sockets c) ns = Some s" for c T ns s sc
    using that(1) typed.C_scheduler [OF _ that(2), of opts T sc] by (simp add: closing_inv_def set_scheduler_def)
  show "closing_inv opts c' T" if "closing_inv opts c T" "n < length (engines c)" "current c \<noteq> Some n" "destroy n c = (c', ob)" for c T n c' ob
  proof -
    have "type_inv opts c' T" using that(1) typed.C_destroy [OF _ that(2-4)] by (simp add: closing_inv_def)
    moreover have "current c' = current c" "intentional_close c' = intentional_close c" "m \<noteq> n \<Longrightarrow> engines c' ! m = engines c ! m" for m
      using that(4) by (auto elim!: destroy_facts)
    ultimately show ?thesis using that(1,3) by (auto simp: closing_inv_def)
  qed
qed (rule closing_section)

section \<open>The mutex of the sockets\<close>

text \<open>
  The thread that holds \<^verbatim>\<open>sockets_mutex_\<close> over several sections has exactly one \<open>Unlock_sockets\<close> in its
  stack, and acknowledgements are resumed only by the holder, before it unlocks.
\<close>

fun guarded :: "ctask \<Rightarrow> bool" where
  "guarded Unlock_sockets = True"
| "guarded (On_socket ns Resume_timed_acks) = True"
| "guarded k = False"

fun lock_stack :: "bool \<Rightarrow> ctask list \<Rightarrow> bool" where
  "lock_stack b [] = (\<not> b)"
| "lock_stack b (k # ks) =
     (if k = Unlock_sockets then b \<and> lock_stack False ks
      else if guarded k then b \<and> lock_stack b ks else lock_stack b ks)"

definition lock_inv :: "client \<Rightarrow> ctask list list \<Rightarrow> bool" where
  "lock_inv c T \<longleftrightarrow> (\<forall>i. sockets_owner c = Some i \<longrightarrow> i < length T) \<and>
     (\<forall>i < length T. lock_stack (sockets_owner c = Some i) (T ! i))"

lemma lock_stack_append: "\<forall>k \<in> set ts. \<not> guarded k \<Longrightarrow> lock_stack b (ts @ st) = lock_stack b st"
  by (induction ts) auto

lemma lock_stack_unlock: "Unlock_sockets \<notin> set ts \<Longrightarrow> lock_stack True (ts @ Unlock_sockets # st) = lock_stack False st"
  by (induction ts) auto

lemma lock_stack_free: "lock_stack False st \<Longrightarrow> k \<in> set st \<Longrightarrow> \<not> guarded k"
  by (induction st) (auto split: if_splits)

lemma incoming_not_guarded: "incoming k \<Longrightarrow> \<not> guarded k"
  by (cases k rule: incoming.cases) (auto elim: guarded.elims)

lemma bound_callback_not_guarded: "k \<in> set (bind_engineio_callbacks n outs) \<Longrightarrow> \<not> guarded k"
  using bound_callback_incoming(1) incoming_not_guarded by blast

lemma guarded_iff: "guarded k \<longleftrightarrow> k = Unlock_sockets \<or> (\<exists>ns. k = On_socket ns Resume_timed_acks)"
  by (cases k rule: guarded.cases) auto

lemma exec_no_resume: "exec t k s = Inr (s', ks, ob) \<Longrightarrow> Resume_timed_acks \<notin> set ks"
  by (cases k) (auto simp: section_defs Let_def split: section_splits)

lemma event_task_user: "k \<in> set (event_task v i) \<Longrightarrow> user_task k"
  by (cases "(v, i)" rule: event_task.cases) auto

lemma route_user: "k \<in> set (route p) \<Longrightarrow> user_task k"
  by (cases "pk_type p") (auto simp: route_def ack_task_def dest: event_task_user split: if_splits)

lemma route_no_resume [simp]: "\<forall>k \<in> set (route p). k \<noteq> Resume_timed_acks"
  using route_user by fastforce

text \<open>What a section does to the mutex: nothing, unlock, or lock and leave the unlocking to a later task.\<close>

lemma section_locks:
  assumes "cexec x k c = Some (c', new, ob, sp)"
  obtains (same) "k \<noteq> Unlock_sockets" "sockets_owner c' = sockets_owner c" "\<forall>k \<in> set new. \<not> guarded k"
  | (unlock) "k = Unlock_sockets" "sockets_owner c' = None" "new = []"
  | (lock) as bs where "\<not> guarded k" "sockets_owner c = None" "sockets_owner c' = Some (ctx_me x)"
      "new = as @ Unlock_sockets # bs" "Unlock_sockets \<notin> set as" "\<forall>k \<in> set bs. \<not> guarded k"
  using assms
proof (cases rule: section_cases)
  case (known ns a s)
  then show ?thesis by (intro same) auto
next
  case (fresh ns a n s c1)
  from fresh(8) show ?thesis
  proof
    assume "c' = c1 \<and> new = []"
    then show ?thesis using fresh by (intro same) auto
  next
    assume "c' = c1\<lparr>sockets_owner := Some (ctx_me x)\<rparr> \<and> new = [On_socket n Send_connect, Unlock_sockets]"
    then show ?thesis using fresh by (intro lock [of "[On_socket n Send_connect]" "[]"]) auto
  qed
next
  case (failed why n)
  then show ?thesis by (intro same) auto
next
  case (made why e)
  then show ?thesis by (intro same) auto
next
  case (refused n why)
  then show ?thesis by (intro same) (auto dest: after_refusal_handlers)
next
  case (installed n why)
  have "\<not> guarded k" if "k \<in> set (after_install n why)" for k using that by (cases why) auto
  then show ?thesis using installed by (intro same) (auto split: option.splits)
next
  case (opened n why e' outs ex url)
  then have "\<not> guarded k" if "k \<in> set new" for k using that by fastforce
  then show ?thesis using opened by (intro same) auto
next
  case (socket ns t s s' ks obs)
  have "\<not> guarded k" if "k \<in> set new" for k
    using that socket(6) obs_task_plain [of k obs] exec_no_resume [OF socket(3)] by (auto simp: guarded_iff)
  then show ?thesis using socket by (intro same) auto
next
  case (closing n e' outs)
  then show ?thesis by (intro same) (auto dest: bound_callback_not_guarded)
next
  case plain
  consider "k = Unlock_sockets" | uri where "k = Connect_reset uri" | "k = On_open" | r where "k = On_close r" | "k = Close_snapshot" | "k = Wait_snapshot"
    | (other) "k \<noteq> Unlock_sockets" "sockets_owner c' = sockets_owner c" "\<forall>k \<in> set new. \<not> guarded k"
    using plain assms by (cases k) (auto simp: client_sections Let_def guarded_iff split: client_splits)
  then show ?thesis
  proof cases
    case (2 uri)
    then show ?thesis using assms
      by (intro lock [of "map (\<lambda>(ns, s). On_socket ns Resume_timed_acks) (sockets c)" "[Connect_engine uri]"])
        (auto simp: connect_reset_def continue_with_def split: if_splits)
  next
    case 3
    then show ?thesis using assms
      by (intro lock [of "map (\<lambda>(ns, s). On_socket ns Send_connect) (sockets c)" "[Call_handler Open_call]"])
        (auto simp: on_engineio_open_def continue_with_def split: if_splits)
  next
    case (4 r)
    then show ?thesis using assms
      by (intro lock [of "map (\<lambda>(ns, s). On_socket ns (Mark_connected False [])) (sockets c)" "[Call_handler (Close_call r), Reconnect_decision]"])
        (auto simp: on_engineio_close_def continue_with_def split: if_splits)
  qed (use assms in \<open>auto simp: client_sections guarded_iff split: client_splits intro: same unlock\<close>)
qed

lemma lock_section:
  assumes I: "lock_inv c T" and i: "i < length T" "T ! i = k # ks" and me: "ctx_me x = i"
    and e: "cexec x k c = Some (c', new, ob, sp)"
  shows "lock_inv c' (T[i := new @ ks] @ spawned sp)"
proof -
  let ?T = "T[i := new @ ks] @ spawned sp"
  have own: "j < length T" if "sockets_owner c = Some j" for j using I that by (simp add: lock_inv_def)
  have old: "lock_stack (sockets_owner c = Some j) (T ! j)" if "j < length T" for j using I that by (simp add: lock_inv_def)
  have here: "lock_stack (sockets_owner c = Some i) (k # ks)" using old [OF i(1)] i(2) by simp
  have owner: "sockets_owner c' = Some i \<or> (\<exists>j. sockets_owner c' = Some j \<and> sockets_owner c = Some j) \<or> sockets_owner c' = None"
    using e by (cases rule: section_locks) (auto simp: me)
  have mine: "lock_stack (sockets_owner c' = Some i) (new @ ks)"
    using e
  proof (cases rule: section_locks)
    case same
    then show ?thesis using here by (auto simp: lock_stack_append split: if_splits)
  next
    case unlock
    then show ?thesis using here by simp
  next
    case (lock as bs)
    then have "k \<noteq> Unlock_sockets" by auto
    then have "lock_stack False ks" using lock here by simp
    then show ?thesis using lock me by (simp add: lock_stack_unlock lock_stack_append)
  qed
  have others: "lock_stack (sockets_owner c' = Some j) (T ! j)" if j: "j < length T" "j \<noteq> i" for j
    using e
  proof (cases rule: section_locks)
    case same
    then show ?thesis using old [OF j(1)] by simp
  next
    case unlock
    then have "sockets_owner c = Some i" using here by simp
    then show ?thesis using old [OF j(1)] j(2) unlock by simp
  next
    case (lock as bs)
    then show ?thesis using old [OF j(1)] j(2) me by simp
  qed
  have spawn: "lock_stack False st" if "sp = Some st" for st
    using section_spawns [OF e that] by auto
  have "lock_stack (sockets_owner c' = Some j) (?T ! j)" if j: "j < length ?T" for j
  proof (cases "j < length T")
    case True
    then show ?thesis using mine others by (cases "j = i") (auto simp: nth_append)
  next
    case False
    then obtain st where st: "sp = Some st" "j = length T"
      using j by (auto simp: spawned_def split: option.splits)
    then have "sockets_owner c' \<noteq> Some j" using owner own i(1) by auto
    then show ?thesis using st spawn by (simp add: spawned_def nth_append)
  qed
  moreover have "j < length ?T" if "sockets_owner c' = Some j" for j using owner own i(1) that by fastforce
  ultimately show ?thesis by (simp add: lock_inv_def)
qed

interpretation locked: client_invariant opts lock_inv for opts
proof unfold_locales
  show "lock_inv c []" if "client_new opts = Inr c" for c
    using client_new_fields [OF that] by (simp add: lock_inv_def)
  show "lock_inv c (T @ [[]])" if "lock_inv c T" for c T
    using that by (auto simp: lock_inv_def nth_append less_Suc_eq)
  show "lock_inv c (push_on i ts T)" if "lock_inv c T" "i < length T" "\<forall>k \<in> set ts. incoming k" for c T i ts
    using that incoming_not_guarded by (simp add: lock_inv_def push_on_def nth_list_update lock_stack_append)
  show "lock_inv c' T" if "lock_inv c T" "destroy n c = (c', ob)" for c T n c' ob
    using that by (auto simp: lock_inv_def elim!: destroy_facts)
qed (rule lock_section, assumption+, auto simp: lock_inv_def set_scheduler_def)

lemma lock_inv_resume:
  assumes "lock_inv c T" and "On_socket ns Resume_timed_acks \<in> pending T"
  shows "sockets_owner c \<noteq> None"
proof
  assume "sockets_owner c = None"
  moreover obtain i where "i < length T" "On_socket ns Resume_timed_acks \<in> set (T ! i)"
    using assms(2) by (auto simp: pending_def) (metis in_set_conv_nth)
  ultimately show False
    using assms(1) lock_stack_free [of "T ! i" "On_socket ns Resume_timed_acks"] by (auto simp: lock_inv_def)
qed

section \<open>Acknowledgement deadlines are cancelled\<close>

definition acks_inv :: "client \<Rightarrow> ctask list list \<Rightarrow> bool" where
  "acks_inv c T \<longleftrightarrow> lock_inv c T \<and>
     (\<forall>ns s. map_of (sockets c) ns = Some s \<longrightarrow> timed_acks_closed s \<longrightarrow> timed_acks s = []) \<and>
     (intentional_close c \<longrightarrow> Close_snapshot \<in> pending T \<or>
        (\<forall>ns. On_socket ns Resume_timed_acks \<notin> pending T) \<and>
        (\<forall>ns s. map_of (sockets c) ns = Some s \<longrightarrow> timed_acks_closed s \<or> On_socket ns Cancel_timed_acks \<in> pending T))"

lemma exec_closed:
  assumes "exec t k s = Inr (s', ks, ob)"
  shows "k \<noteq> Resume_timed_acks \<Longrightarrow> timed_acks_closed s \<Longrightarrow> timed_acks_closed s'"
    and "k = Cancel_timed_acks \<Longrightarrow> timed_acks_closed s'"
    and "timed_acks_closed s \<longrightarrow> timed_acks s = [] \<Longrightarrow> timed_acks_closed s' \<Longrightarrow> timed_acks s' = []"
  using assms by (cases k; auto simp: section_defs Let_def split: section_splits)+


lemma plain_acks:
  assumes "cexec x k c = Some (c', new, ob, sp)" and "plain k"
  shows "intentional_close c' \<Longrightarrow> On_socket ns Resume_timed_acks \<notin> set new"
    and "k = Close_snapshot \<Longrightarrow> sockets_owner c = None"
    and "k = Close_snapshot \<Longrightarrow> map_of (sockets c) ns = Some s \<Longrightarrow> On_socket ns Cancel_timed_acks \<in> set new"
  using assms by (cases k; auto simp: client_sections Let_def guarded_iff image_iff split: client_splits dest: route_user map_of_SomeD)+

text \<open>Where a socket comes from.\<close>

lemma section_sockets:
  assumes "cexec x k c = Some (c', new, ob, sp)" and "map_of (sockets c') ns = Some s'"
  obtains (kept) s where "map_of (sockets c) ns = Some s" "timed_acks_closed s' = timed_acks_closed s" "timed_acks s' = timed_acks s"
      "k \<noteq> On_socket ns Cancel_timed_acks" "k \<noteq> On_socket ns Resume_timed_acks"
  | (made) "timed_acks_closed s' = intentional_close c" "timed_acks s' = []" "intentional_close c' = intentional_close c"
  | (task) t s ks obs where "k = On_socket ns t" "map_of (sockets c) ns = Some s" "exec (ctx_time x) t s = Inr (s', ks, obs)"
      "intentional_close c' = intentional_close c" "\<forall>ns. On_socket ns Resume_timed_acks \<notin> set new"
  using assms(1)
proof (cases rule: section_cases)
  case (known m a s)
  then show ?thesis
    using assms(2) kept by (auto simp: socket_set_auth_def split: if_splits)
next
  case (fresh m a n s c1)
  have c': "sockets c' = map_put n s (sockets c)" "intentional_close c' = intentional_close c" using fresh(6,8) by auto
  show ?thesis
  proof (cases "ns = n")
    case True
    then have "s' = s" using assms(2) c' by simp
    then show ?thesis using fresh(5) c' by (intro made) (auto simp: cancel_timed_acks_def socket_new_def)
  next
    case False
    then show ?thesis using assms(2) c' fresh(1) by (intro kept [of s']) auto
  qed
next
  case (socket m t s s1 ks obs)
  have r: "\<forall>ns. On_socket ns Resume_timed_acks \<notin> set new"
    using socket(6) obs_task_plain [of _ obs] exec_no_resume [OF socket(3)] by fastforce
  show ?thesis
  proof (cases "ns = m")
    case True
    then show ?thesis using assms(2) socket r by (intro task [of t s ks obs]) auto
  next
    case False
    then show ?thesis using assms(2) socket by (intro kept [of s']) auto
  qed
next
  case plain
  then show ?thesis using assms(2) plain_frame(2) [OF assms(1) plain] by (intro kept [of s']) auto
qed (use assms(2) kept in auto)

lemma section_intent:
  assumes "cexec x k c = Some (c', new, ob, sp)" and "intentional_close c'"
  shows "intentional_close c \<or> Close_snapshot \<in> set new" and "On_socket ns Resume_timed_acks \<notin> set new"
proof -
  show "intentional_close c \<or> Close_snapshot \<in> set new"
    using assms(1)
  proof (cases rule: section_cases)
    case plain
    then show ?thesis using plain_closing(1) [OF assms(1)] assms(2) by blast
  qed (use assms(2) in \<open>auto split: if_splits\<close>)
  show "On_socket ns Resume_timed_acks \<notin> set new"
    using assms(1)
  proof (cases rule: section_locks)
    case same
    then show ?thesis by (auto simp: guarded_iff)
  next
    case (lock as bs)
    show ?thesis
      using assms(1)
    proof (cases rule: section_cases)
      case plain
      then show ?thesis using plain_acks(1) [OF assms(1)] assms(2) by blast
    qed (use lock in \<open>auto dest: after_refusal_handlers split: if_splits\<close>)
  qed simp
qed

lemma acks_section:
  assumes I: "acks_inv c T" and i: "i < length T" "T ! i = k # ks" and me: "ctx_me x = i" and x: "ctx_next x = length T"
    and e: "cexec x k c = Some (c', new, ob, sp)"
  shows "acks_inv c' (T[i := new @ ks] @ spawned sp)"
proof -
  let ?T = "T[i := new @ ks] @ spawned sp"
  have lock: "lock_inv c T" and empty: "\<And>ns s. map_of (sockets c) ns = Some s \<Longrightarrow> timed_acks_closed s \<Longrightarrow> timed_acks s = []"
    using I by (auto simp: acks_inv_def)
  note new = pending_section(1) [OF i, of new sp, THEN subsetD]
  note stays = pending_section(3) [OF i, where new = new and sp = sp]
  have resume: "On_socket ns Resume_timed_acks \<in> pending T \<or> On_socket ns Resume_timed_acks \<in> set new"
    if "On_socket ns Resume_timed_acks \<in> pending ?T" for ns
    using pending_section(4) [OF i, of new sp] that section_spawns [OF e] by (auto split: option.splits)
  have "timed_acks s = []" if s: "map_of (sockets c') ns = Some s" "timed_acks_closed s" for ns s
    using e s(1)
  proof (cases rule: section_sockets)
    case (task t s0 ks obs)
    then show ?thesis using empty [OF task(2)] exec_closed(3) [OF task(3)] s(2) by blast
  qed (use empty s(2) in simp_all)
  moreover have "Close_snapshot \<in> pending ?T \<or>
      (\<forall>ns. On_socket ns Resume_timed_acks \<notin> pending ?T) \<and>
      (\<forall>ns s. map_of (sockets c') ns = Some s \<longrightarrow> timed_acks_closed s \<or> On_socket ns Cancel_timed_acks \<in> pending ?T)"
    if intent: "intentional_close c'"
  proof (cases "Close_snapshot \<in> pending ?T")
    case False
    then have closed: "intentional_close c" using section_intent(1) [OF e intent] new by blast
    show ?thesis
    proof (cases "Close_snapshot \<in> pending T")
      case True
      then have k: "k = Close_snapshot" using False stays by blast
      have free: "sockets_owner c = None" and cancels: "map_of (sockets c) ns = Some s \<Longrightarrow> On_socket ns Cancel_timed_acks \<in> set new" for ns s
        using plain_acks(2,3) [OF e] k by simp_all
      have "sockets c' = sockets c" using plain_frame(2) [OF e] k by simp
      moreover have "On_socket ns Resume_timed_acks \<notin> pending ?T" for ns
        using resume lock_inv_resume [OF lock] free section_intent(2) [OF e intent] by blast
      ultimately show ?thesis using cancels new by (metis)
    next
      case no: False
      have old: "\<And>ns. On_socket ns Resume_timed_acks \<notin> pending T"
        "\<And>ns s. map_of (sockets c) ns = Some s \<Longrightarrow> timed_acks_closed s \<or> On_socket ns Cancel_timed_acks \<in> pending T"
        using I closed no by (auto simp: acks_inv_def)
      have "timed_acks_closed s \<or> On_socket ns Cancel_timed_acks \<in> pending ?T" if "map_of (sockets c') ns = Some s" for ns s
        using e that
      proof (cases rule: section_sockets)
        case (kept s0)
        then show ?thesis using old(2) [OF kept(1)] stays by auto
      next
        case made
        then show ?thesis using closed by simp
      next
        case (task t s0 ks obs)
        then have "t \<noteq> Resume_timed_acks" using old(1) pending_section(5) [OF i] by auto
        show ?thesis
        proof (cases "timed_acks_closed s0 \<or> t = Cancel_timed_acks")
          case True
          then show ?thesis using exec_closed(1,2) [OF task(3)] \<open>t \<noteq> Resume_timed_acks\<close> by blast
        next
          case False
          then show ?thesis using old(2) [OF task(2)] stays task(1) by auto
        qed
      qed
      then show ?thesis using resume old(1) section_intent(2) [OF e intent] by blast
    qed
  qed simp
  ultimately show ?thesis using lock_section [OF lock i me e] by (simp add: acks_inv_def)
qed


interpretation acks: client_invariant opts acks_inv for opts
proof unfold_locales
  show "acks_inv c []" if "client_new opts = Inr c" for c
    using locked.C_start [OF that] client_new_fields [OF that] by (simp add: acks_inv_def)
  show "acks_inv c (T @ [[]])" if "acks_inv c T" for c T
    using that locked.C_thread [of c T] by (simp add: acks_inv_def pending_def)
  show "acks_inv c (push_on i ts T)"
    if "acks_inv c T" "i < length T" "\<forall>k \<in> set ts. incoming k" "\<forall>k \<in> set ts. \<forall>n \<in> set (mentions k). n < length (engines c)"
      "\<forall>k \<in> set ts. \<forall>ns t. k = On_socket ns t \<longrightarrow> map_of (sockets c) ns \<noteq> None" for c T i ts
  proof -
    have "lock_inv c (push_on i ts T)" using that(1) locked.C_incoming [OF _ that(2-5)] by (simp add: acks_inv_def)
    moreover have "On_socket ns Resume_timed_acks \<notin> set ts" for ns using that(3) incoming_not_guarded by fastforce
    ultimately show ?thesis using that(1,2) unfolding acks_inv_def by auto
  qed
  show "acks_inv (set_engine n e' c) T" if "acks_inv c T" for c T n e'
    using that by (simp add: acks_inv_def lock_inv_def)
  show "acks_inv (set_scheduler ns s sc c) T" if "acks_inv c T" "map_of (sockets c) ns = Some s" for c T ns s sc
    using that by (auto simp: acks_inv_def lock_inv_def set_scheduler_def)
  show "acks_inv c' T" if "acks_inv c T" "destroy n c = (c', ob)" for c T n c' ob
  proof -
    have "sockets c' = sockets c" "intentional_close c' = intentional_close c" "sockets_owner c' = sockets_owner c"
      using that(2) by (auto elim!: destroy_facts)
    then show ?thesis using that(1) by (simp add: acks_inv_def lock_inv_def)
  qed
qed (rule acks_section)

section \<open>Properties\<close>

text \<open>The sections of a call of \<^verbatim>\<open>close()\<close> that has begun.\<close>

fun part_of_close :: "ctask \<Rightarrow> bool" where
  "part_of_close Close_snapshot = True"
| "part_of_close (On_socket ns Cancel_timed_acks) = True"
| "part_of_close Close_engine = True"
| "part_of_close (Engine_close n) = True"
| "part_of_close k = False"

text \<open>
  C4. Shutdown is complete under every interleaving. Whenever the client is marked as closed and no
  thread is in the middle of a call of \<^verbatim>\<open>close()\<close>, the current connection is closed, so a connection
  that a reconnecting thread, the polling fallback or another thread was installing meanwhile does
  not survive; and on every socket, those created meanwhile included, deadlines are refused and none
  is waiting.
\<close>

theorem close_is_complete:
  assumes "reach (client_init opts) (client_step lib rnd) S" and "intentional_close (cl S)"
    and "\<forall>k \<in> pending (threads S). \<not> part_of_close k"
  shows "(\<forall>n. current (cl S) = Some n \<longrightarrow> eio_closing (engine (engines (cl S) ! n)))
    \<and> (\<forall>ns s. map_of (sockets (cl S)) ns = Some s \<longrightarrow> timed_acks_closed s \<and> timed_acks s = [])"
proof -
  have no: "Close_snapshot \<notin> pending (threads S)" "Close_engine \<notin> pending (threads S)"
    "Engine_close n \<notin> pending (threads S)" "On_socket ns Cancel_timed_acks \<notin> pending (threads S)" for n ns
    using assms(3) by auto
  have "closing_inv opts (cl S) (threads S)" by (rule closing.sys.reachable_inv [OF assms(1)])
  moreover have "acks_inv (cl S) (threads S)" by (rule acks.sys.reachable_inv [OF assms(1)])
  ultimately show ?thesis using assms(2) no by (simp add: closing_inv_def acks_inv_def)
qed

definition close_events :: "client_event list" where
  "close_events = [Call 0 C_close] @ sections 0 7"

lemma close_final: "final_threads close_events = Some [[], []]"
  by code_simp

lemmas close_reach = after_events_reach [OF close_final]

theorem close_is_complete_witness:
  "eio_closing (engine (engines (cl (after_events close_events)) ! 0))
   \<and> list_all (\<lambda>(ns, s). timed_acks_closed s) (sockets (cl (after_events close_events)))"
proof -
  let ?S = "after_events close_events"
  have closed: "intentional_close (cl ?S)" and cur: "current (cl ?S) = Some 0" by code_simp+
  have idle: "\<forall>k \<in> pending (threads ?S). \<not> part_of_close k" by (simp add: close_reach(2) pending_def)
  have "eio_closing (engine (engines (cl ?S) ! 0))"
    using close_is_complete [OF close_reach(1) closed idle] cur by blast
  moreover have "list_all (\<lambda>(ns, s). timed_acks_closed s) (sockets (cl ?S))" by code_simp
  ultimately show ?thesis by (rule conjI)
qed

end
