(* ===== verification/Client_Deadlock.thy ===== *)
theory Client_Deadlock
  imports Client_Shutdown
begin

text \<open>
  Interleavings in which threads of the client wait for ever (theory \<open>Client_System\<close>). Two of them
  follow from how the code holds its mutexes: \<^verbatim>\<open>schedule_reconnect\<close> joins the previous reconnecting
  thread while it holds the mutex that this thread needs to leave its wait, and \<^verbatim>\<open>on_engineio_close\<close>
  calls the disconnect listeners while it holds the mutex of the sockets. The third scenario is a
  connection that outlives the client's shutdown, because it is kept alive by its own heartbeat.
\<close>

section \<open>The mutex of the reconnecting thread\<close>

fun is_spawn :: "ctask \<Rightarrow> bool" where
  "is_spawn (Spawn_reconnect delay uri) = True"
| "is_spawn k = False"

definition spawn_inv :: "client \<Rightarrow> ctask list list \<Rightarrow> bool" where
  "spawn_inv c T \<longleftrightarrow> (\<forall>i. reconnect_owner c = Some i \<longrightarrow> i < length T) \<and>
     (\<forall>i < length T. length (filter is_spawn (T ! i)) \<le> (if reconnect_owner c = Some i then 1 else 0))"

lemma no_spawn:
  "incoming k \<Longrightarrow> \<not> is_spawn k" "k \<in> set (after_install n why) \<Longrightarrow> \<not> is_spawn k"
  "k \<in> set (after_refusal why) \<Longrightarrow> \<not> is_spawn k" "k \<in> set (bind_engineio_callbacks n outs) \<Longrightarrow> \<not> is_spawn k"
  "k \<in> set (concat (map obs_tasks ob)) \<Longrightarrow> \<not> is_spawn k"
proof -
  show inc: "incoming k \<Longrightarrow> \<not> is_spawn k" for k by (cases k) auto
  show "k \<in> set (after_install n why) \<Longrightarrow> \<not> is_spawn k" by (cases why) auto
  show "k \<in> set (after_refusal why) \<Longrightarrow> \<not> is_spawn k" using after_refusal_handlers by fastforce
  show "k \<in> set (bind_engineio_callbacks n outs) \<Longrightarrow> \<not> is_spawn k" using bound_callback_incoming(1) inc by blast
  show "k \<in> set (concat (map obs_tasks ob)) \<Longrightarrow> \<not> is_spawn k" using obs_task_plain by fastforce
qed

lemma section_reconnect_lock:
  assumes "cexec x k c = Some (c', new, ob, sp)"
  obtains (same) "\<not> is_spawn k" "reconnect_owner c' = reconnect_owner c" "filter is_spawn new = []"
  | (unlock) "is_spawn k" "reconnect_owner c' = None" "new = []"
  | (lock) "\<not> is_spawn k" "reconnect_owner c = None" "reconnect_owner c' = Some (ctx_me x)" "length (filter is_spawn new) = 1"
  using assms
proof (cases rule: section_cases)
  case (known ns a s)
  then show ?thesis by (intro same) auto
next
  case (fresh ns a n s c1)
  then show ?thesis by (intro same) auto
next
  case (failed why n)
  then show ?thesis by (intro same) auto
next
  case (made why e)
  then show ?thesis by (intro same) auto
next
  case (refused n why)
  then show ?thesis using no_spawn(3) [of _ why] by (intro same) (auto simp: filter_empty_conv)
next
  case (installed n why)
  then show ?thesis using no_spawn(2) [of _ n why] by (intro same) (auto simp: filter_empty_conv split: option.splits)
next
  case (opened n why e' outs ex url)
  have "filter is_spawn new = []" using opened(5) by (fastforce simp: filter_empty_conv)
  then show ?thesis using opened by (intro same) auto
next
  case (socket ns t s s' ks obs)
  have "filter is_spawn new = []" using socket(6) no_spawn(5) [of _ obs] by (auto simp: filter_empty_conv)
  then show ?thesis using socket by (intro same) auto
next
  case (closing n e' outs)
  have "filter is_spawn new = []" using closing(1) no_spawn(4) [of _ n outs] by (auto simp: filter_empty_conv)
  then show ?thesis using closing by (intro same) auto
next
  case plain
  consider delay where "k = Schedule_lock delay" | delay uri where "k = Spawn_reconnect delay uri" | "k = Close_snapshot"
    | (other) "\<not> is_spawn k" "reconnect_owner c' = reconnect_owner c" "filter is_spawn new = []"
    using plain assms by (cases k) (auto simp: client_sections Let_def filter_empty_conv split: client_splits)
  then show ?thesis
  proof cases
    case (1 delay)
    then show ?thesis using assms same lock
      by (auto simp: schedule_lock_def continue_with_def split: if_splits option.splits)
  next
    case (2 delay uri)
    then show ?thesis using assms unlock by (auto simp: spawn_reconnect_def)
  next
    case 3
    then have "filter is_spawn new = []"
      using assms by (auto simp: close_snapshot_def continue_with_def filter_empty_conv split: if_splits)
    then show ?thesis using assms 3 by (intro same) (auto simp: close_snapshot_def continue_with_def split: if_splits)
  qed (rule same)
qed

lemma spawn_section:
  assumes I: "spawn_inv c T" and i: "i < length T" "T ! i = k # ks" and me: "ctx_me x = i"
    and e: "cexec x k c = Some (c', new, ob, sp)"
  shows "spawn_inv c' (T[i := new @ ks] @ spawned sp)"
proof -
  let ?T = "T[i := new @ ks] @ spawned sp" and ?n = "\<lambda>st. length (filter is_spawn st)"
  have own: "j < length T" if "reconnect_owner c = Some j" for j using I that by (simp add: spawn_inv_def)
  have old: "?n (T ! j) \<le> (if reconnect_owner c = Some j then 1 else 0)" if "j < length T" for j
    using I that by (simp add: spawn_inv_def)
  have here: "?n (k # ks) \<le> (if reconnect_owner c = Some i then 1 else 0)" using old [OF i(1)] i(2) by simp
  have owner: "reconnect_owner c' = Some i \<or> (\<exists>j. reconnect_owner c' = Some j \<and> reconnect_owner c = Some j) \<or> reconnect_owner c' = None"
    using e by (cases rule: section_reconnect_lock) (auto simp: me)
  have mine: "?n (new @ ks) \<le> (if reconnect_owner c' = Some i then 1 else 0)"
    using e here by (cases rule: section_reconnect_lock) (auto simp: me split: if_splits)
  have others: "?n (T ! j) \<le> (if reconnect_owner c' = Some j then 1 else 0)" if "j < length T" "j \<noteq> i" for j
    using e old [OF that(1)] that(2) here by (cases rule: section_reconnect_lock) (auto simp: me split: if_splits)
  have spawn: "?n st = 0" if "sp = Some st" for st using section_spawns [OF e that] by auto
  have "?n (?T ! j) \<le> (if reconnect_owner c' = Some j then 1 else 0)" if j: "j < length ?T" for j
  proof (cases "j < length T")
    case True
    then show ?thesis using mine others by (cases "j = i") (auto simp: nth_append)
  next
    case False
    then obtain st where "sp = Some st" "j = length T" using j by (auto simp: spawned_def split: option.splits)
    then show ?thesis using spawn by (simp add: spawned_def nth_append)
  qed
  moreover have "j < length ?T" if "reconnect_owner c' = Some j" for j using owner own i(1) that by fastforce
  ultimately show ?thesis by (simp add: spawn_inv_def)
qed

interpretation spawning: client_invariant opts spawn_inv for opts
proof unfold_locales
  show "spawn_inv c []" if "client_new opts = Inr c" for c
    using client_new_fields [OF that] by (simp add: spawn_inv_def)
  show "spawn_inv c (T @ [[]])" if "spawn_inv c T" for c T
    using that by (auto simp: spawn_inv_def nth_append less_Suc_eq)
  show "spawn_inv c (push_on i ts T)" if "spawn_inv c T" "i < length T" "\<forall>k \<in> set ts. incoming k" for c T i ts
  proof -
    have "filter is_spawn ts = []" using that(3) no_spawn(1) by (auto simp: filter_empty_conv)
    then show ?thesis using that(1,2) by (auto simp: spawn_inv_def push_on_def nth_list_update)
  qed
  show "spawn_inv c' T" if "spawn_inv c T" "destroy n c = (c', ob)" for c T n c' ob
  proof -
    have "reconnect_owner c' = reconnect_owner c" using that(2) by (auto elim!: destroy_facts)
    then show ?thesis using that(1) by (simp add: spawn_inv_def)
  qed
qed (rule spawn_section, assumption+, auto simp: spawn_inv_def set_scheduler_def)

section \<open>Blocked threads\<close>

lemma blocked_untouched:
  assumes "client_step lib rnd S e S'" and "j < length (threads S)" and "threads S ! j = k # ks" and "k \<noteq> In_call"
    and "\<And>u. cexec (context_for lib rnd u j S) k (cl S) = None"
  shows "threads S' ! j = threads S ! j" and "length (threads S) \<le> length (threads S')"
proof -
  have "\<not> can_call (threads S ! j)" using assms(3,4) by (simp add: can_call_def)
  from assms(1) this have "threads S' ! j = threads S ! j \<and> length (threads S) \<le> length (threads S')"
  proof cases
    case (c_section i k' ks' u c' new ob sp)
    then show ?thesis using assms(2,3,5) by (auto simp: nth_append nth_list_update)
  qed (use assms(2) in \<open>auto simp: nth_append push_on_def nth_list_update\<close>)
  then show "threads S' ! j = threads S ! j" and "length (threads S) \<le> length (threads S')" by simp_all
qed

text \<open>
  Thread \<open>i\<close> holds the mutex of the reconnecting thread and joins thread \<open>r\<close>, which sleeps and needs
  that mutex to wake up.
\<close>

definition join_deadlock :: "nat \<Rightarrow> nat \<Rightarrow> csystem \<Rightarrow> bool" where
  "join_deadlock i r S \<longleftrightarrow> reconnect_owner (cl S) = Some i \<and> i < length (threads S) \<and> r < length (threads S) \<and>
     (\<exists>ts. threads S ! i = Join r # ts) \<and> (\<exists>t uri ts. threads S ! r = Reconnect_sleep t uri # ts)"

lemma join_deadlock_step:
  assumes D: "join_deadlock i r S" and I: "spawn_inv (cl S) (threads S)" and st: "client_step lib rnd S e S'"
  shows "join_deadlock i r S' \<and> threads S' ! i = threads S ! i \<and> threads S' ! r = threads S ! r"
proof -
  obtain ts rs t uri where i: "threads S ! i = Join r # ts" and r: "threads S ! r = Reconnect_sleep t uri # rs"
    and own: "reconnect_owner (cl S) = Some i" and len: "i < length (threads S)" "r < length (threads S)"
    using D by (auto simp: join_deadlock_def)
  have bi: "cexec (context_for lib rnd u i S) (Join r) (cl S) = None" for u using r by (simp add: context_for_def)
  have br: "cexec (context_for lib rnd u r S) (Reconnect_sleep t uri) (cl S) = None" for u using own by (simp add: reconnect_sleep_def)
  have ui: "threads S' ! i = threads S ! i" "length (threads S) \<le> length (threads S')"
    using blocked_untouched [OF st len(1) i _ bi] by simp_all
  have ur: "threads S' ! r = threads S ! r" using blocked_untouched [OF st len(2) r _ br] by simp
  have "reconnect_owner (cl S') = Some i"
    using st
  proof cases
    case (c_section j k ks u c' new ob sp)
    have "j \<noteq> i" using c_section(4,5) i bi by auto
    then have "filter is_spawn (threads S ! j) = []" using I c_section(3) own by (auto simp: spawn_inv_def)
    then have "\<not> is_spawn k" using c_section(4) by (simp split: if_splits)
    with c_section(5) own show ?thesis using c_section(2) by (cases rule: section_reconnect_lock) auto
  next
    case (c_destroy n c' ob)
    then show ?thesis using own by (auto elim!: destroy_facts)
  qed (use own in \<open>auto simp: set_scheduler_def\<close>)
  then show ?thesis using ui ur len i r by (auto simp: join_deadlock_def)
qed

lemma join_deadlock_forever:
  assumes "join_deadlock i r S" and "spawn_inv (cl S) (threads S)" and "reach (\<lambda>s. s = S) (client_step lib rnd) S'"
  shows "join_deadlock i r S' \<and> spawn_inv (cl S') (threads S') \<and> threads S' ! i = threads S ! i \<and> threads S' ! r = threads S ! r"
  using assms(3)
proof (induction rule: reach.induct)
  case (reach_step s e s')
  then show ?case using join_deadlock_step [of i r s lib rnd e s'] spawning.C_step [of s lib rnd e s'] by simp
qed (use assms(1,2) in simp)

text \<open>Thread \<open>i\<close> holds the mutex of the sockets and wants to take a snapshot of them, which needs it.\<close>

definition snapshot_deadlock :: "nat \<Rightarrow> csystem \<Rightarrow> bool" where
  "snapshot_deadlock i S \<longleftrightarrow> sockets_owner (cl S) = Some i \<and> i < length (threads S) \<and>
     (\<exists>ts. threads S ! i = Close_snapshot # ts)"

lemma snapshot_deadlock_step:
  assumes D: "snapshot_deadlock i S" and I: "lock_inv (cl S) (threads S)" and st: "client_step lib rnd S e S'"
  shows "snapshot_deadlock i S' \<and> threads S' ! i = threads S ! i"
proof -
  obtain ts where i: "threads S ! i = Close_snapshot # ts"
    and own: "sockets_owner (cl S) = Some i" and len: "i < length (threads S)"
    using D by (auto simp: snapshot_deadlock_def)
  have bi: "cexec (context_for lib rnd u i S) Close_snapshot (cl S) = None" for u using own by (simp add: close_snapshot_def)
  have ui: "threads S' ! i = threads S ! i" "length (threads S) \<le> length (threads S')"
    using blocked_untouched [OF st len i _ bi] by simp_all
  have "sockets_owner (cl S') = Some i"
    using st
  proof cases
    case (c_section j k ks u c' new ob sp)
    have "j \<noteq> i" using c_section(4,5) i bi by auto
    have "lock_stack (sockets_owner (cl S) = Some j) (threads S ! j)" using I c_section(3) by (simp add: lock_inv_def)
    then have "lock_stack False (k # ks)" using \<open>j \<noteq> i\<close> c_section(4) own by (simp del: lock_stack.simps)
    then have "k \<noteq> Unlock_sockets" by auto
    with c_section(5) own show ?thesis using c_section(2) by (cases rule: section_locks) auto
  next
    case (c_destroy n c' ob)
    then show ?thesis using own by (auto elim!: destroy_facts)
  qed (use own in \<open>auto simp: set_scheduler_def\<close>)
  then show ?thesis using ui len i by (auto simp: snapshot_deadlock_def)
qed

lemma snapshot_deadlock_forever:
  assumes "snapshot_deadlock i S" and "lock_inv (cl S) (threads S)" and "reach (\<lambda>s. s = S) (client_step lib rnd) S'"
  shows "snapshot_deadlock i S' \<and> lock_inv (cl S') (threads S') \<and> threads S' ! i = threads S ! i"
  using assms(3)
proof (induction rule: reach.induct)
  case (reach_step s e s')
  then show ?case using snapshot_deadlock_step [of i s lib rnd e s'] locked.C_step [of s lib rnd e s'] by simp
qed (use assms(1,2) in simp)


section \<open>Scenarios\<close>

text \<open>
  \<open>drop_events\<close>: on the open connection the server's close packet arrives, a reconnection is
  scheduled and its thread starts to wait; then the transport itself reports that it was closed.
  \<open>listener_events\<close>: a socket is connected, the transport is closed, and the socket's disconnect
  listener calls \<^verbatim>\<open>close()\<close>. \<open>again_events\<close>: \<^verbatim>\<open>connect()\<close> is called a second time on the open client, and
  the client is then shut down.
\<close>

definition drop_events :: "client_event list" where
  "drop_events =
     [Transport 1 0 (E_message ''1'' False)] @ sections 1 10
     @ [Section 2 0, Transport 1 0 (E_transport_close False ''eof'')] @ sections 1 9"

definition listener_events :: "client_event list" where
  "listener_events =
     [Call 0 (On_socket ''/'' (On_disconnect (Some 5)))] @ sections 0 1
     @ [Transport 1 0 (E_message ''40'' False)] @ sections 1 4
     @ [Transport 1 0 (E_transport_close False ''eof'')] @ sections 1 4
     @ [Call 1 C_close] @ sections 1 1"

definition again_events :: "client_event list" where
  "again_events =
     [Call 0 (C_connect ''ws://h:80'')] @ sections 0 10 @ [Call 0 C_sync_close] @ sections 0 14"

lemma drop_final:
  "final_threads drop_events =
     Some [[], [Join 2, Spawn_reconnect 2000 ''ws://h:80''], [Reconnect_sleep 1000000000 ''ws://h:80'']]"
  by code_simp

lemma listener_final:
  "final_threads listener_events =
     Some [[], [Close_snapshot, In_call, Unlock_sockets, Call_handler (Close_call ''eof''), Reconnect_decision]]"
  by code_simp

lemma again_final:
  "final_threads again_events = Some [[], []]"
  by code_simp

lemmas drop_reach = after_events_reach [OF drop_final]
lemmas listener_reach = after_events_reach [OF listener_final]
lemmas again_reach = after_events_reach [OF again_final]

lemma forever:
  assumes "\<And>S'. reach (\<lambda>s. s = S) st S' \<Longrightarrow> f S' = f S"
  shows "f ` {S'. reach (\<lambda>s. s = S) st S'} = {f S}"
proof -
  have "S \<in> {S'. reach (\<lambda>s. s = S) st S'}" using reach_init [of "\<lambda>s. s = S" S st] by blast
  then have "f S \<in> f ` {S'. reach (\<lambda>s. s = S) st S'}" by (rule imageI)
  moreover have "y = f S" if "y \<in> f ` {S'. reach (\<lambda>s. s = S) st S'}" for y
    using that assms by (elim imageE) simp
  ultimately show ?thesis by (intro set_eqI) (metis singleton_iff)
qed

section \<open>Properties\<close>

text \<open>
  C34. Reconnection can block for ever. If a connection reports twice that it is closed while the
  reconnecting thread waits (as it does when the server's close packet is followed by the end of
  the transport), the second report holds \<^verbatim>\<open>reconnect_mutex_\<close> and joins the waiting thread, which
  needs this mutex to leave its wait. From then on, whatever any thread does, \<^verbatim>\<open>close()\<close> included,
  neither of the two threads makes another step.
\<close>

theorem reconnect_deadlock:
  "reach (client_init retry_options) (client_step sample_lib (\<lambda>x. x)) (after_events drop_events)
   \<and> reconnect_owner (cl (after_events drop_events)) = Some 1
   \<and> (\<lambda>S. map hd [threads S ! 1, threads S ! 2])
       ` {S. reach (\<lambda>s. s = after_events drop_events) (client_step sample_lib (\<lambda>x. x)) S}
       = {[Join 2, Reconnect_sleep 1000000000 ''ws://h:80'']}"
proof (intro conjI drop_reach(1))
  let ?S = "after_events drop_events"
  have own: "reconnect_owner (cl ?S) = Some 1" by code_simp
  note hds = drop_reach(2)
  show "reconnect_owner (cl ?S) = Some 1" by (rule own)
  have D: "join_deadlock 1 2 ?S" using own hds by (simp add: join_deadlock_def)
  have "spawn_inv (cl ?S) (threads ?S)" using spawning.sys.reachable_inv [OF drop_reach(1)] .
  note f = join_deadlock_forever [OF D this]
  have "map hd [threads S' ! 1, threads S' ! 2] = map hd [threads ?S ! 1, threads ?S ! 2]"
    if "reach (\<lambda>s. s = ?S) (client_step sample_lib (\<lambda>x. x)) S'" for S'
    using f [OF that] by simp
  from forever [of ?S "client_step sample_lib (\<lambda>x. x)" "\<lambda>S. map hd [threads S ! 1, threads S ! 2]", OF this]
  show "(\<lambda>S. map hd [threads S ! 1, threads S ! 2]) ` {S. reach (\<lambda>s. s = ?S) (client_step sample_lib (\<lambda>x. x)) S}
      = {[Join 2, Reconnect_sleep 1000000000 ''ws://h:80'']}" by (simp add: hds numeral_2_eq_2)
qed

text \<open>
  C35. Calling \<^verbatim>\<open>close()\<close> in a disconnect listener blocks for ever, although it is documented as safe in
  callbacks: the listener runs while the thread that reports the end of the connection holds
  \<^verbatim>\<open>sockets_mutex_\<close>, which \<^verbatim>\<open>close()\<close> needs. The thread makes no further step, whatever the others do.
\<close>

theorem close_in_disconnect_listener_deadlock:
  "reach (client_init retry_options) (client_step sample_lib (\<lambda>x. x)) (after_events listener_events)
   \<and> Socket_obs ''/'' (Called_disconnect 5 []) \<in> set (clog (after_events listener_events))
   \<and> (\<lambda>S. (sockets_owner (cl S), hd (threads S ! 1)))
       ` {S. reach (\<lambda>s. s = after_events listener_events) (client_step sample_lib (\<lambda>x. x)) S}
       = {(Some 1, Close_snapshot)}"
proof (intro conjI listener_reach(1))
  let ?S = "after_events listener_events"
  show "Socket_obs ''/'' (Called_disconnect 5 []) \<in> set (clog ?S)" by code_simp
  have own: "sockets_owner (cl ?S) = Some 1" by code_simp
  note hds = listener_reach(2)
  have D: "snapshot_deadlock 1 ?S" using own hds by (simp add: snapshot_deadlock_def)
  have "lock_inv (cl ?S) (threads ?S)" using locked.sys.reachable_inv [OF listener_reach(1)] .
  note f = snapshot_deadlock_forever [OF D this]
  have "(sockets_owner (cl S'), hd (threads S' ! 1)) = (sockets_owner (cl ?S), hd (threads ?S ! 1))"
    if "reach (\<lambda>s. s = ?S) (client_step sample_lib (\<lambda>x. x)) S'" for S'
    using f [OF that] own by (simp add: snapshot_deadlock_def)
  from forever [of ?S "client_step sample_lib (\<lambda>x. x)" "\<lambda>S. (sockets_owner (cl S), hd (threads S ! 1))", OF this]
  show "(\<lambda>S. (sockets_owner (cl S), hd (threads S ! 1))) ` {S. reach (\<lambda>s. s = ?S) (client_step sample_lib (\<lambda>x. x)) S}
      = {(Some 1, Close_snapshot)}" by (simp add: own hds)
qed


end
