(* ===== verification/Websocket_Transport.thy ===== *)
theory Websocket_Transport
  imports Base64_Proxy "HOL-Library.Multiset" "HOL-Library.Sublist"
begin

text \<open>
  The WebSocket transport (\<^verbatim>\<open>src/websocket_transport.cpp\<close>): resolving, connecting, the proxy tunnel, the
  TLS and WebSocket handshakes, the read loop, the write queue and shutdown.

  Everything the transport does happens in completion handlers that a strand runs one after
  another. The state holds what is outstanding: functions posted to the strand, which run in
  order; asynchronous operations, which complete in any order; and what the running handler still
  has to do. A handler that calls back into the application is cut at the call, because another
  thread may call \<^verbatim>\<open>close\<close> meanwhile. The plain and the TLS variant of a function are one definition
  that consults \<^verbatim>\<open>url_.tls\<close>. Boost.Asio and Boost.Beast are represented by their completions: an
  operation completes with any result at any time, also after it was cancelled.
\<close>

section \<open>Definitions\<close>

datatype transport_state = T_closed | T_connecting | T_open | T_closing

record proxy_request =
  request_target :: string
  request_host :: string
  request_authorization :: "string option"

datatype completion =
    Success
  | Failure string
  | Sni_failure string
  | Received string bool
  | Status nat

datatype ws_op =
    Resolve
  | Tcp_connect
  | Proxy_write proxy_request
  | Proxy_read
  | Tls_handshake
  | Ws_handshake
  | Ws_read
  | Ws_write frame

datatype ws_post =
    Start
  | Queue_write frame
  | Shutdown

datatype ws_task =
    Call_open
  | Call_message string bool
  | Call_close string
  | Call_error string
  | Returned
  | Resume_read
  | Write_failed

datatype ws_obs =
    Opened
  | Message string bool
  | Closed string
  | Error string
  | Write_started frame
  | Submitted frame
  | Queued frame
  | Undefined

record websocket =
  ws_state :: transport_state
  ws_closing :: bool
  ws_url :: url_parts
  ws_proxy :: "proxy_config option"
  ws_stream :: bool
  write_queue :: "frame list"
  write_in_progress :: bool
  shutdown_once :: bool
  connect_called :: bool
  posted :: "ws_post list"
  asyncs :: "ws_op list"
  strand :: "ws_task list"
  ws_log :: "ws_obs list"

definition websocket_new :: "proxy_config option \<Rightarrow> websocket" where
  "websocket_new proxy =
     \<lparr>ws_state = T_closed, ws_closing = False,
      ws_url = \<lparr>url_scheme = [], url_host = [], url_port = [], url_target = [], url_tls = False\<rparr>,
      ws_proxy = proxy, ws_stream = False, write_queue = [], write_in_progress = False,
      shutdown_once = False, connect_called = False, posted = [], asyncs = [], strand = [], ws_log = []\<rparr>"

definition initiate :: "ws_op \<Rightarrow> websocket \<Rightarrow> websocket" where
  "initiate k w = w\<lparr>asyncs := asyncs w @ [k]\<rparr>"

definition then_do :: "ws_task list \<Rightarrow> websocket \<Rightarrow> websocket" where
  "then_do ts w = w\<lparr>strand := strand w @ ts\<rparr>"

definition observe :: "ws_obs \<Rightarrow> websocket \<Rightarrow> websocket" where
  "observe ob w = w\<lparr>ws_log := ws_log w @ [ob]\<rparr>"

definition ws_fail :: "string \<Rightarrow> websocket \<Rightarrow> websocket" where
  "ws_fail what w = (if ws_closing w then w else then_do [Call_error what] (w\<lparr>ws_state := T_closed\<rparr>))"

definition ws_fail_ec :: "string \<Rightarrow> string \<Rightarrow> websocket \<Rightarrow> websocket" where
  "ws_fail_ec what ec w =
     (if ws_closing w then w else then_do [Call_error (what @ '': '' @ ec)] (w\<lparr>ws_state := T_closed\<rparr>))"

definition ws_connect :: "string \<Rightarrow> websocket \<Rightarrow> cpp_exn + websocket" where
  "ws_connect url w =
     (if ws_closing w then Inr w
      else
        (case parse_ws_url url of
           Inl e \<Rightarrow> Inl e
         | Inr u \<Rightarrow>
             Inr (w\<lparr>ws_url := u, ws_state := T_connecting, connect_called := True, posted := posted w @ [Start]\<rparr>)))"

definition ws_start :: "websocket \<Rightarrow> websocket" where
  "ws_start w = initiate Resolve w"

definition connect_request :: "websocket \<Rightarrow> proxy_config \<Rightarrow> proxy_request" where
  "connect_request w proxy =
     (let destination = connect_authority (ws_url w)
      in \<lparr>request_target = destination, request_host = destination,
          request_authorization = (if authorization proxy = [] then None else Some (authorization proxy))\<rparr>)"

definition start_handshake :: "websocket \<Rightarrow> websocket" where
  "start_handshake w = (if url_tls (ws_url w) then initiate Tls_handshake w else initiate Ws_handshake w)"

definition do_read :: "websocket \<Rightarrow> websocket" where
  "do_read w = (if ws_stream w then initiate Ws_read w else observe Undefined w)"

definition pump_write_queue :: "websocket \<Rightarrow> websocket" where
  "pump_write_queue w =
     (if ws_closing w then w
      else if \<not> ws_stream w then w\<lparr>write_in_progress := False\<rparr>
      else
        (case write_queue w of
           [] \<Rightarrow> w\<lparr>write_in_progress := False\<rparr>
         | f # _ \<Rightarrow> observe (Write_started f) (initiate (Ws_write f) w)))"

definition queue_write :: "frame \<Rightarrow> websocket \<Rightarrow> websocket" where
  "queue_write f w =
     (if ws_closing w then w
      else
        let w1 = observe (Queued f) (w\<lparr>write_queue := write_queue w @ [f], write_in_progress := True\<rparr>)
        in if write_in_progress w then w1 else pump_write_queue w1)"

definition ws_send :: "frame \<Rightarrow> websocket \<Rightarrow> websocket" where
  "ws_send f w = observe (Submitted f) (w\<lparr>posted := posted w @ [Queue_write f]\<rparr>)"

definition shutdown_on_io_thread :: "websocket \<Rightarrow> websocket" where
  "shutdown_on_io_thread w = w\<lparr>write_queue := [], write_in_progress := False, ws_state := T_closed\<rparr>"

definition ws_close :: "bool \<Rightarrow> websocket \<Rightarrow> websocket" where
  "ws_close on_io_thread w =
     (if shutdown_once w then w
      else
        let w1 = w\<lparr>shutdown_once := True, ws_closing := True, ws_state := T_closing\<rparr>
        in if on_io_thread then shutdown_on_io_thread w1
           else w1\<lparr>posted := posted w1 @ [Shutdown]\<rparr>)"

fun run_posted :: "ws_post \<Rightarrow> websocket \<Rightarrow> websocket" where
  "run_posted Start w = ws_start w"
| "run_posted (Queue_write f) w = queue_write f w"
| "run_posted Shutdown w = shutdown_on_io_thread w"

text \<open>The completion handlers. The first argument is the operation, the second its result.\<close>

definition on_resolved :: "completion \<Rightarrow> websocket \<Rightarrow> websocket" where
  "on_resolved r w =
     (if ws_closing w then w
      else
        (case r of
           Failure ec \<Rightarrow> ws_fail_ec ''resolve'' ec w
         | Sni_failure ec \<Rightarrow> ws_fail_ec ''sni'' ec (w\<lparr>ws_stream := True\<rparr>)
         | _ \<Rightarrow> initiate Tcp_connect (w\<lparr>ws_stream := True\<rparr>)))"

definition on_connected :: "completion \<Rightarrow> websocket \<Rightarrow> websocket" where
  "on_connected r w =
     (if ws_closing w then w
      else
        (case r of
           Failure ec \<Rightarrow> ws_fail_ec ''connect'' ec w
         | _ \<Rightarrow>
             (case ws_proxy w of
                Some proxy \<Rightarrow> initiate (Proxy_write (connect_request w proxy)) w
              | None \<Rightarrow> start_handshake w)))"

definition on_proxy_written :: "completion \<Rightarrow> websocket \<Rightarrow> websocket" where
  "on_proxy_written r w =
     (if ws_closing w then w
      else (case r of Failure ec \<Rightarrow> ws_fail_ec ''proxy write'' ec w | _ \<Rightarrow> initiate Proxy_read w))"

definition on_proxy_read :: "completion \<Rightarrow> websocket \<Rightarrow> websocket" where
  "on_proxy_read r w =
     (if ws_closing w then w
      else
        (case r of
           Failure ec \<Rightarrow> ws_fail_ec ''proxy read'' ec w
         | Status status \<Rightarrow>
             (if status div 100 \<noteq> 2
              then ws_fail (''proxy CONNECT returned HTTP '' @ to_string_nat status) w
              else start_handshake w)
         | _ \<Rightarrow> w))"

definition on_tls_handshake :: "completion \<Rightarrow> websocket \<Rightarrow> websocket" where
  "on_tls_handshake r w =
     (if ws_closing w then w
      else (case r of Failure ec \<Rightarrow> ws_fail_ec ''ssl_handshake'' ec w | _ \<Rightarrow> initiate Ws_handshake w))"

definition on_ws_handshake :: "completion \<Rightarrow> websocket \<Rightarrow> websocket" where
  "on_ws_handshake r w =
     (if ws_closing w then w
      else
        (case r of
           Failure ec \<Rightarrow> ws_fail_ec ''handshake'' ec w
         | _ \<Rightarrow> then_do [Call_open, Resume_read] (w\<lparr>ws_state := T_open\<rparr>)))"

definition on_read :: "completion \<Rightarrow> websocket \<Rightarrow> websocket" where
  "on_read r w =
     (if ws_closing w then w
      else
        (case r of
           Failure ec \<Rightarrow> then_do [Call_close ec] (w\<lparr>ws_state := T_closed\<rparr>)
         | Received pl bin \<Rightarrow> then_do [Call_message pl bin, Resume_read] w
         | _ \<Rightarrow> w))"

definition on_written :: "completion \<Rightarrow> websocket \<Rightarrow> websocket" where
  "on_written r w =
     (if ws_closing w then w
      else
        let w1 = w\<lparr>write_queue := tl (write_queue w)\<rparr>
        in (case r of
              Failure ec \<Rightarrow> then_do [Write_failed] (ws_fail_ec ''write'' ec w1)
            | _ \<Rightarrow> pump_write_queue w1))"

fun complete :: "ws_op \<Rightarrow> completion \<Rightarrow> websocket \<Rightarrow> websocket" where
  "complete Resolve r w = on_resolved r w"
| "complete Tcp_connect r w = on_connected r w"
| "complete (Proxy_write req) r w = on_proxy_written r w"
| "complete Proxy_read r w = on_proxy_read r w"
| "complete Tls_handshake r w = on_tls_handshake r w"
| "complete Ws_handshake r w = on_ws_handshake r w"
| "complete Ws_read r w = on_read r w"
| "complete (Ws_write f) r w = on_written r w"

text \<open>Which results an operation can complete with.\<close>

fun can_complete :: "ws_op \<Rightarrow> completion \<Rightarrow> websocket \<Rightarrow> bool" where
  "can_complete k (Failure ec) w = True"
| "can_complete k (Sni_failure ec) w = (k = Resolve \<and> url_tls (ws_url w))"
| "can_complete k (Received pl bin) w = (k = Ws_read)"
| "can_complete k (Status status) w = (k = Proxy_read)"
| "can_complete k Success w = (k \<noteq> Ws_read \<and> k \<noteq> Proxy_read)"

definition call_user :: "ws_obs \<Rightarrow> websocket \<Rightarrow> websocket" where
  "call_user ob w = observe ob (w\<lparr>strand := Returned # strand w\<rparr>)"

fun continue :: "ws_task \<Rightarrow> websocket \<Rightarrow> websocket" where
  "continue Call_open w = call_user Opened w"
| "continue (Call_message pl bin) w = call_user (Message pl bin) w"
| "continue (Call_close reason) w = call_user (Closed reason) w"
| "continue (Call_error msg) w = call_user (Error msg) w"
| "continue Returned w = w"
| "continue Resume_read w = (if ws_closing w then w else do_read w)"
| "continue Write_failed w = w\<lparr>write_in_progress := False\<rparr>"

text \<open>
  The transport in use. Its owner connects it at most once; any thread may send or close it at any
  time; \<open>Close_call True\<close> is a call from a callback on the strand, \<open>Close_call False\<close> from elsewhere.
  The four handlers are installed, as \<^verbatim>\<open>engineio_client::set_transport\<close> does before connecting.
\<close>

datatype ws_event =
    Connect_url string
  | Send_frame frame
  | Close_call bool
  | Run_posted
  | Complete nat completion
  | Continue

inductive ws_init :: "websocket \<Rightarrow> bool" where
  "ws_init (websocket_new proxy)"

inductive ws_step :: "websocket \<Rightarrow> ws_event \<Rightarrow> websocket \<Rightarrow> bool" where
  connect: "\<not> connect_called w \<Longrightarrow> ws_connect url w = Inr w' \<Longrightarrow> ws_step w (Connect_url url) w'"
| send: "ws_step w (Send_frame f) (ws_send f w)"
| close: "on_strand \<longrightarrow> (\<exists>ts. strand w = Returned # ts) \<Longrightarrow> ws_step w (Close_call on_strand) (ws_close on_strand w)"
| run: "strand w = [] \<Longrightarrow> posted w = p # ps \<Longrightarrow> ws_step w Run_posted (run_posted p (w\<lparr>posted := ps\<rparr>))"
| complete: "strand w = [] \<Longrightarrow> i < length (asyncs w) \<Longrightarrow> can_complete (asyncs w ! i) r w \<Longrightarrow>
     ws_step w (Complete i r)
       (complete (asyncs w ! i) r (w\<lparr>asyncs := take i (asyncs w) @ drop (Suc i) (asyncs w)\<rparr>))"
| continue: "strand w = t # ts \<Longrightarrow> ws_step w Continue (continue t (w\<lparr>strand := ts\<rparr>))"

section \<open>Histories\<close>

fun started_of :: "ws_obs \<Rightarrow> frame list" where
  "started_of (Write_started f) = [f]"
| "started_of ob = []"

fun queued_of :: "ws_obs \<Rightarrow> frame list" where
  "queued_of (Queued f) = [f]"
| "queued_of ob = []"

fun submitted_of :: "ws_obs \<Rightarrow> frame list" where
  "submitted_of (Submitted f) = [f]"
| "submitted_of ob = []"

definition started :: "websocket \<Rightarrow> frame list" where
  "started w = concat (map started_of (ws_log w))"

definition queued :: "websocket \<Rightarrow> frame list" where
  "queued w = concat (map queued_of (ws_log w))"

definition submitted :: "websocket \<Rightarrow> frame list" where
  "submitted w = concat (map submitted_of (ws_log w))"

fun writing :: "ws_op \<Rightarrow> frame list" where
  "writing (Ws_write f) = [f]"
| "writing k = []"

fun posted_frame :: "ws_post \<Rightarrow> frame list" where
  "posted_frame (Queue_write f) = [f]"
| "posted_frame p = []"

definition failing :: "websocket \<Rightarrow> nat" where
  "failing w = length (filter ((=) Write_failed) (strand w))"

definition active_write :: "websocket \<Rightarrow> bool" where
  "active_write w \<longleftrightarrow> write_in_progress w \<and> failing w = 0"

lemmas ws_defs = initiate_def then_do_def observe_def ws_fail_def ws_fail_ec_def ws_start_def start_handshake_def
  do_read_def call_user_def on_resolved_def on_connected_def on_proxy_written_def on_proxy_read_def
  on_tls_handshake_def on_ws_handshake_def on_read_def

text \<open>
  While the transport is not closing, the frames taken over from \<^verbatim>\<open>send\<close> are those already written
  followed by the queue, the frames still posted are those not taken over yet, and a write is
  outstanding exactly if the flag says so, namely that of the front of the queue.
\<close>

definition write_open :: "websocket \<Rightarrow> bool" where
  "write_open w \<longleftrightarrow>
     (\<exists>sent. queued w = sent @ write_queue w \<and>
        started w = sent @ (if active_write w then [hd (write_queue w)] else [])) \<and>
     (active_write w \<longrightarrow> write_queue w \<noteq> []) \<and>
     concat (map writing (asyncs w)) = (if active_write w then [hd (write_queue w)] else []) \<and>
     failing w \<le> (if write_in_progress w then 1 else 0) \<and>
     submitted w = queued w @ concat (map posted_frame (posted w))"

definition write_inv :: "websocket \<Rightarrow> bool" where
  "write_inv w \<longleftrightarrow> prefix (started w) (queued w) \<and> prefix (queued w) (submitted w) \<and>
     length (concat (map writing (asyncs w))) \<le> 1 \<and>
     (\<not> ws_closing w \<longrightarrow> write_open w \<and> Shutdown \<notin> set (posted w))"

lemma history_simps [simp]:
  "started (w\<lparr>posted := x_posted\<rparr>) = started w"
  "started (w\<lparr>asyncs := x_asyncs\<rparr>) = started w"
  "started (w\<lparr>write_queue := x_write_queue\<rparr>) = started w"
  "started (w\<lparr>write_in_progress := x_write_in_progress\<rparr>) = started w"
  "started (w\<lparr>ws_state := x_ws_state\<rparr>) = started w"
  "started (w\<lparr>strand := x_strand\<rparr>) = started w"
  "started (w\<lparr>ws_closing := x_ws_closing\<rparr>) = started w"
  "started (w\<lparr>shutdown_once := x_shutdown_once\<rparr>) = started w"
  "queued (w\<lparr>posted := x_posted\<rparr>) = queued w"
  "queued (w\<lparr>asyncs := x_asyncs\<rparr>) = queued w"
  "queued (w\<lparr>write_queue := x_write_queue\<rparr>) = queued w"
  "queued (w\<lparr>write_in_progress := x_write_in_progress\<rparr>) = queued w"
  "queued (w\<lparr>ws_state := x_ws_state\<rparr>) = queued w"
  "queued (w\<lparr>strand := x_strand\<rparr>) = queued w"
  "queued (w\<lparr>ws_closing := x_ws_closing\<rparr>) = queued w"
  "queued (w\<lparr>shutdown_once := x_shutdown_once\<rparr>) = queued w"
  "submitted (w\<lparr>posted := x_posted\<rparr>) = submitted w"
  "submitted (w\<lparr>asyncs := x_asyncs\<rparr>) = submitted w"
  "submitted (w\<lparr>write_queue := x_write_queue\<rparr>) = submitted w"
  "submitted (w\<lparr>write_in_progress := x_write_in_progress\<rparr>) = submitted w"
  "submitted (w\<lparr>ws_state := x_ws_state\<rparr>) = submitted w"
  "submitted (w\<lparr>strand := x_strand\<rparr>) = submitted w"
  "submitted (w\<lparr>ws_closing := x_ws_closing\<rparr>) = submitted w"
  "submitted (w\<lparr>shutdown_once := x_shutdown_once\<rparr>) = submitted w"
  by (simp_all add: started_def queued_def submitted_def)

lemma history_frame:
  assumes "ws_log w' = ws_log w"
  shows "started w' = started w" "queued w' = queued w" "submitted w' = submitted w"
  using assms by (simp_all add: started_def queued_def submitted_def)

lemma write_open_prefix: "write_open w \<Longrightarrow> prefix (started w) (queued w) \<and> prefix (queued w) (submitted w)"
  unfolding write_open_def
  by (cases "active_write w"; cases "write_queue w") (auto simp: prefix_def)

lemma write_openI: "write_open w \<Longrightarrow> Shutdown \<notin> set (posted w) \<Longrightarrow> write_inv w"
  using write_open_prefix [of w] by (simp add: write_inv_def) (simp add: write_open_def)

lemma write_closing:
  assumes "write_inv w" and "ws_closing w'" and "started w' = started w" and "queued w' = queued w"
    and "prefix (submitted w) (submitted w')" and "length (concat (map writing (asyncs w'))) \<le> 1"
  shows "write_inv w'"
  using assms prefix_order.trans by (auto simp: write_inv_def)

lemma pump_write_open:
  assumes "\<not> ws_closing w" and "strand w = []" and "queued w = sent @ write_queue w" and "started w = sent"
    and "concat (map writing (asyncs w)) = []"
    and "submitted w = queued w @ concat (map posted_frame (posted w))" and "write_in_progress w"
  shows "write_open (pump_write_queue w)"
  using assms
  by (cases "write_queue w")
    (auto simp: pump_write_queue_def write_open_def active_write_def failing_def ws_defs started_def queued_def submitted_def)

lemma write_open_frame:
  assumes "write_open w" and "write_queue w' = write_queue w" and "write_in_progress w' = write_in_progress w"
    and "failing w' = failing w" and "ws_log w' = ws_log w"
    and "concat (map writing (asyncs w')) = concat (map writing (asyncs w))"
    and "concat (map posted_frame (posted w')) = concat (map posted_frame (posted w))"
  shows "write_open w'"
proof -
  have "active_write w' = active_write w" using assms by (simp add: active_write_def)
  then have "write_open w' = write_open w"
    unfolding write_open_def by (simp only: assms(2,3,4,6,7) history_frame [OF assms(5)])
  then show ?thesis using assms(1) by simp
qed

lemma complete_frame:
  assumes "writing k = []" and "strand w = []"
  shows "write_queue (complete k r w) = write_queue w" "write_in_progress (complete k r w) = write_in_progress w"
    "ws_log (complete k r w) = ws_log w" "posted (complete k r w) = posted w"
    "ws_closing (complete k r w) = ws_closing w" "failing (complete k r w) = 0"
    "concat (map writing (asyncs (complete k r w))) = concat (map writing (asyncs w))"
  using assms by (cases k; auto simp: ws_defs failing_def split: completion.split option.split)+

lemma remove_writing:
  assumes "i < length xs"
  shows "concat (map writing xs) = concat (map writing (take i xs)) @ writing (xs ! i) @ concat (map writing (drop (Suc i) xs))"
  using id_take_nth_drop [OF assms] by (metis concat.simps(2) concat_append list.simps(9) map_append)

lemma write_inv_complete:
  assumes I: "write_inv w" and idle: "strand w = []" and i: "i < length (asyncs w)"
  shows "write_inv (complete (asyncs w ! i) r (w\<lparr>asyncs := take i (asyncs w) @ drop (Suc i) (asyncs w)\<rparr>))"
    (is "write_inv (complete ?k r ?w)")
proof (cases "ws_closing w")
  case True
  then have "complete ?k r ?w = ?w"
    by (cases ?k) (auto simp: ws_defs on_written_def)
  moreover have "length (concat (map writing (asyncs ?w))) \<le> 1"
    using I remove_writing [OF i] by (auto simp: write_inv_def)
  ultimately show ?thesis using I True by (simp add: write_inv_def)
next
  case open_: False
  then have W: "write_open w" "Shutdown \<notin> set (posted w)" using I by (auto simp: write_inv_def)
  show ?thesis
  proof (cases "writing ?k")
    case Nil
    have "strand ?w = []" using idle by simp
    note f = complete_frame [OF Nil this, of r]
    have "write_open (complete ?k r ?w)"
      by (rule write_open_frame [OF W(1)]) (use f idle remove_writing [OF i] Nil in \<open>auto simp: failing_def\<close>)
    then show ?thesis using f W(2) by (intro write_openI) auto
  next
    case (Cons g gs)
    then have k: "?k = Ws_write g" by (cases ?k) auto
    let ?pre = "concat (map writing (take i (asyncs w)))" and ?post = "concat (map writing (drop (Suc i) (asyncs w)))"
    have ws: "?pre @ [g] @ ?post = (if active_write w then [hd (write_queue w)] else [])"
      using W(1) remove_writing [OF i] k by (simp add: write_open_def)
    then have act: "active_write w" by (simp split: if_splits)
    have "length (?pre @ [g] @ ?post) = 1" using ws act by (simp only:) simp
    then have rest: "concat (map writing (asyncs ?w)) = []" by simp
    from W(1) act obtain sent where sent: "queued w = sent @ write_queue w"
      "started w = sent @ [hd (write_queue w)]" "write_queue w \<noteq> []"
      "submitted w = queued w @ concat (map posted_frame (posted w))" by (auto simp: write_open_def)
    let ?v = "?w\<lparr>write_queue := tl (write_queue w)\<rparr>"
    have v: "queued ?v = (sent @ [hd (write_queue w)]) @ write_queue ?v" "started ?v = sent @ [hd (write_queue w)]"
      "submitted ?v = queued ?v @ concat (map posted_frame (posted ?v))" "write_in_progress ?v"
      using sent act by (simp_all add: active_write_def failing_def)
    show ?thesis
    proof (cases "\<exists>ec. r = Failure ec")
      case True
      then obtain ec where "r = Failure ec" by blast
      then have c: "complete ?k r ?w = then_do [Write_failed] (then_do [Call_error (''write'' @ '': '' @ ec)] (?v\<lparr>ws_state := T_closed\<rparr>))"
        using k open_ by (simp add: on_written_def ws_fail_ec_def)
      have "write_open (complete ?k r ?w)"
        unfolding c using v rest idle
        by (auto simp: write_open_def active_write_def failing_def then_do_def started_def queued_def submitted_def)
      then show ?thesis using W(2) c by (intro write_openI) (auto simp: then_do_def)
    next
      case False
      then have c: "complete ?k r ?w = pump_write_queue ?v"
        using k open_ by (cases r) (simp_all add: on_written_def)
      have "write_open (pump_write_queue ?v)"
        by (rule pump_write_open [OF _ _ v(1,2) _ v(3,4)]) (use open_ idle rest in auto)
      moreover have "posted (pump_write_queue ?v) = posted w"
        by (simp add: pump_write_queue_def observe_def initiate_def split: list.split)
      ultimately show ?thesis using c W(2) by (intro write_openI) auto
    qed
  qed
qed

lemma write_inv_run:
  assumes I: "write_inv w" and idle: "strand w = []" and p: "posted w = p # ps"
  shows "write_inv (run_posted p (w\<lparr>posted := ps\<rparr>))"
proof (cases "ws_closing w")
  case True
  then show ?thesis
    using I by (cases p)
      (auto simp: write_inv_def queue_write_def shutdown_on_io_thread_def ws_start_def initiate_def)
next
  case open_: False
  then have W: "write_open w" "Shutdown \<notin> set (posted w)" using I by (auto simp: write_inv_def)
  show ?thesis
  proof (cases p)
    case Start
    have "write_open (run_posted p (w\<lparr>posted := ps\<rparr>))"
      by (rule write_open_frame [OF W(1)]) (use Start p in \<open>auto simp: ws_start_def initiate_def failing_def\<close>)
    then show ?thesis using W(2) p Start by (intro write_openI) (auto simp: ws_start_def initiate_def)
  next
    case (Queue_write f)
    let ?v = "observe (Queued f) (w\<lparr>posted := ps, write_queue := write_queue w @ [f], write_in_progress := True\<rparr>)"
    from W(1) obtain sent where sent: "queued w = sent @ write_queue w"
      "started w = sent @ (if active_write w then [hd (write_queue w)] else [])"
      "submitted w = queued w @ concat (map posted_frame (posted w))" by (auto simp: write_open_def)
    have h: "queued ?v = sent @ write_queue ?v" "started ?v = started w" "submitted ?v = submitted w"
      using sent(1) by (simp_all add: observe_def queued_def started_def submitted_def)
    have ps: "submitted ?v = queued ?v @ concat (map posted_frame (posted ?v))"
      using h sent p Queue_write by (simp add: observe_def)
    have r: "run_posted p (w\<lparr>posted := ps\<rparr>) = (if write_in_progress w then ?v else pump_write_queue ?v)"
      using open_ Queue_write by (simp add: queue_write_def Let_def)
    show ?thesis
    proof (cases "write_in_progress w")
      case True
      then have "active_write w" using idle by (simp add: active_write_def failing_def)
      then have "write_open ?v"
        using W(1) h ps sent
        by (auto simp: write_open_def active_write_def failing_def observe_def intro!: exI [of _ sent])
      then show ?thesis using r True W(2) p by (intro write_openI) (auto simp: observe_def)
    next
      case False
      then have na: "\<not> active_write w" by (simp add: active_write_def failing_def)
      then have "write_open (pump_write_queue ?v)"
        using W(1) h sent idle open_ ps
        by (intro pump_write_open [where sent = sent]) (auto simp: write_open_def observe_def failing_def)
      moreover have "posted (pump_write_queue ?v) = ps"
        by (simp add: pump_write_queue_def observe_def initiate_def split: list.split)
      ultimately show ?thesis using r False W(2) p by (intro write_openI) auto
    qed
  next
    case Shutdown
    with W(2) p show ?thesis by simp
  qed
qed
lemma write_inv_close:
  assumes "write_inv w"
  shows "write_inv (ws_close on_strand w)"
proof (cases "shutdown_once w")
  case False
  then show ?thesis
    by (intro write_closing [OF assms])
      (use assms in \<open>auto simp: ws_close_def shutdown_on_io_thread_def write_inv_def Let_def\<close>)
qed (use assms in \<open>simp add: ws_close_def\<close>)

lemma write_inv_continue:
  assumes I: "write_inv w" and t: "strand w = t # ts"
  shows "write_inv (continue t (w\<lparr>strand := ts\<rparr>))"
proof (cases "ws_closing w")
  case True
  then show ?thesis
    using I by (cases t)
      (auto simp: write_inv_def call_user_def observe_def started_def queued_def submitted_def)
next
  case False
  then have W: "write_open w" "Shutdown \<notin> set (posted w)" using I by (auto simp: write_inv_def)
  then have "write_open (continue t (w\<lparr>strand := ts\<rparr>))"
    using t False
    by (cases t)
      (auto simp: write_open_def active_write_def failing_def ws_defs started_def queued_def submitted_def split: if_splits)
  moreover have "posted (continue t (w\<lparr>strand := ts\<rparr>)) = posted w"
    by (cases t) (simp_all add: ws_defs)
  ultimately show ?thesis using W(2) by (intro write_openI) auto
qed

lemma write_inv_step:
  assumes I: "write_inv w" and "ws_step w e w'"
  shows "write_inv w'"
  using assms(2)
proof (cases rule: ws_step.cases)
  case (connect url)
  show ?thesis
  proof (cases "ws_closing w")
    case False
    then have "write_open w" "Shutdown \<notin> set (posted w)" using I by (auto simp: write_inv_def)
    moreover from connect False obtain u where
      w': "w' = w\<lparr>ws_url := u, ws_state := T_connecting, connect_called := True, posted := posted w @ [Start]\<rparr>"
      by (auto simp: ws_connect_def split: sum.splits)
    ultimately have "write_open w'" by (intro write_open_frame [of w w']) (simp_all add: failing_def)
    then show ?thesis using w' \<open>Shutdown \<notin> set (posted w)\<close> by (intro write_openI) simp_all
  qed (use connect I in \<open>simp add: ws_connect_def\<close>)
next
  case (send f)
  show ?thesis
  proof (cases "ws_closing w")
    case True
    have "prefix (submitted w) (submitted w')" "started w' = started w" "queued w' = queued w"
      using send by (simp_all add: ws_send_def observe_def started_def queued_def submitted_def)
    then show ?thesis using I True send
      by (intro write_closing [OF I]) (auto simp: ws_send_def observe_def write_inv_def)
  next
    case False
    then have "write_open w" "Shutdown \<notin> set (posted w)" using I by (auto simp: write_inv_def)
    then show ?thesis using send
      by (intro write_openI)
        (auto simp: ws_send_def observe_def write_open_def active_write_def failing_def started_def queued_def submitted_def)
  qed
next
  case (continue t ts)
  then show ?thesis using write_inv_continue [OF I] by simp
qed (use write_inv_close [OF I] write_inv_run [OF I] write_inv_complete [OF I] in simp_all)

lemma write_inv_init: "ws_init w \<Longrightarrow> write_inv w"
  by (auto simp: ws_init.simps write_inv_def write_open_def active_write_def failing_def websocket_new_def
      started_def queued_def submitted_def)

interpretation ws_write: invariant ws_init ws_step write_inv
  by unfold_locales (auto intro: write_inv_init write_inv_step)

section \<open>One chain of reading operations\<close>

definition is_start :: "ws_post \<Rightarrow> bool" where
  "is_start p \<longleftrightarrow> p = Start"

definition progress :: "websocket \<Rightarrow> nat" where
  "progress w = length (filter (\<lambda>k. writing k = []) (asyncs w)) + length (filter is_start (posted w))
     + length (filter ((=) Resume_read) (strand w))"

definition read_inv :: "websocket \<Rightarrow> bool" where
  "read_inv w \<longleftrightarrow> progress w \<le> (if connect_called w then 1 else 0) \<and>
     ((\<exists>k \<in> set (asyncs w). k \<noteq> Resolve) \<or> Resume_read \<in> set (strand w) \<longrightarrow> ws_stream w) \<and>
     Undefined \<notin> set (ws_log w)"

lemma filter_remove:
  assumes "i < length xs"
  shows "length (filter P xs) =
     (if P (xs ! i) then 1 else 0) + length (filter P (take i xs)) + length (filter P (drop (Suc i) xs))"
  using arg_cong [OF id_take_nth_drop [OF assms], of "\<lambda>ys. length (filter P ys)"] by simp

lemma set_remove: "i < length xs \<Longrightarrow> set xs = insert (xs ! i) (set (take i xs) \<union> set (drop (Suc i) xs))"
  using arg_cong [OF id_take_nth_drop, of i xs set] by simp

lemma complete_progress:
  assumes "strand w = []" and "k \<noteq> Resolve \<longrightarrow> ws_stream w"
    and "(\<exists>k \<in> set (asyncs w). k \<noteq> Resolve) \<longrightarrow> ws_stream w"
  shows "progress (complete k r w) \<le> progress w + (if writing k = [] then 1 else 0)"
    and "(\<exists>k \<in> set (asyncs (complete k r w)). k \<noteq> Resolve) \<or> Resume_read \<in> set (strand (complete k r w)) \<longrightarrow>
      ws_stream (complete k r w)"
    and "connect_called (complete k r w) = connect_called w"
    and "Undefined \<in> set (ws_log (complete k r w)) \<longrightarrow> Undefined \<in> set (ws_log w)"
  using assms
  by (cases k; auto simp: progress_def ws_defs on_written_def pump_write_queue_def Let_def
      split: completion.split option.split list.split)+

lemma read_inv_complete:
  assumes I: "read_inv w" and idle: "strand w = []" and i: "i < length (asyncs w)"
  shows "read_inv (complete (asyncs w ! i) r (w\<lparr>asyncs := take i (asyncs w) @ drop (Suc i) (asyncs w)\<rparr>))"
proof -
  let ?w = "w\<lparr>asyncs := take i (asyncs w) @ drop (Suc i) (asyncs w)\<rparr>" and ?k = "asyncs w ! i"
  have "progress w = progress ?w + (if writing ?k = [] then 1 else 0)"
    using filter_remove [OF i, of "\<lambda>k. writing k = []"] by (simp add: progress_def)
  moreover have "strand ?w = []" "?k \<noteq> Resolve \<longrightarrow> ws_stream ?w"
    "(\<exists>k \<in> set (asyncs ?w). k \<noteq> Resolve) \<longrightarrow> ws_stream ?w"
    using I idle set_remove [OF i] by (auto simp: read_inv_def)
  note f = complete_progress [OF this, of r]
  ultimately show ?thesis using I f by (auto simp: read_inv_def split: if_splits)
qed

lemma read_inv_step:
  assumes I: "read_inv w" and "ws_step w e w'"
  shows "read_inv w'"
  using assms(2)
proof (cases rule: ws_step.cases)
  case (connect url)
  then show ?thesis
    using I by (auto simp: ws_connect_def read_inv_def progress_def is_start_def split: if_splits sum.splits)
next
  case (run p ps)
  then show ?thesis
    using I by (cases p)
      (auto simp: read_inv_def progress_def is_start_def ws_start_def initiate_def queue_write_def
        pump_write_queue_def observe_def shutdown_on_io_thread_def Let_def split: if_splits list.splits)
next
  case (complete i r)
  then show ?thesis using read_inv_complete [OF I] by simp
next
  case (continue t ts)
  then show ?thesis
    using I by (cases t) (auto simp: read_inv_def progress_def ws_defs split: if_splits)
qed (use I in \<open>auto simp: read_inv_def progress_def is_start_def ws_send_def observe_def ws_close_def
    shutdown_on_io_thread_def Let_def split: if_splits\<close>)

lemma read_inv_init: "ws_init w \<Longrightarrow> read_inv w"
  by (auto simp: ws_init.simps read_inv_def progress_def websocket_new_def)

interpretation ws_read: invariant ws_init ws_step read_inv
  by unfold_locales (auto intro: read_inv_init read_inv_step)

section \<open>After closing\<close>

definition silent :: "websocket \<Rightarrow> bool" where
  "silent w \<longleftrightarrow> ws_closing w \<and> strand w = []"

fun is_callback :: "ws_obs \<Rightarrow> bool" where
  "is_callback Opened = True"
| "is_callback (Message pl bin) = True"
| "is_callback (Closed reason) = True"
| "is_callback (Error msg) = True"
| "is_callback ob = False"

lemma silent_step:
  assumes "silent w" and "ws_step w e w'"
  shows "silent w' \<and> filter is_callback (ws_log w') = filter is_callback (ws_log w)"
  using assms(2)
proof (cases rule: ws_step.cases)
  case (complete i r)
  then show ?thesis
    using assms(1) by (cases "asyncs w ! i") (auto simp: silent_def ws_defs on_written_def)
next
  case (run p ps)
  then show ?thesis
    using assms(1) by (cases p)
      (auto simp: silent_def ws_start_def initiate_def queue_write_def shutdown_on_io_thread_def)
qed (use assms(1) in \<open>auto simp: silent_def ws_connect_def ws_send_def observe_def ws_close_def
    shutdown_on_io_thread_def Let_def\<close>)

section \<open>Executing scenarios\<close>

fun ws_perform :: "websocket \<Rightarrow> ws_event \<Rightarrow> websocket option" where
  "ws_perform w (Connect_url url) =
     (if connect_called w then None else case ws_connect url w of Inl e \<Rightarrow> None | Inr w' \<Rightarrow> Some w')"
| "ws_perform w (Send_frame f) = Some (ws_send f w)"
| "ws_perform w (Close_call b) =
     (if b \<longrightarrow> (case strand w of Returned # ts \<Rightarrow> True | _ \<Rightarrow> False) then Some (ws_close b w) else None)"
| "ws_perform w Run_posted =
     (case posted w of
        [] \<Rightarrow> None
      | p # ps \<Rightarrow> if strand w = [] then Some (run_posted p (w\<lparr>posted := ps\<rparr>)) else None)"
| "ws_perform w (Complete i r) =
     (if strand w = [] \<and> i < length (asyncs w) \<and> can_complete (asyncs w ! i) r w
      then Some (complete (asyncs w ! i) r (w\<lparr>asyncs := take i (asyncs w) @ drop (Suc i) (asyncs w)\<rparr>)) else None)"
| "ws_perform w Continue = (case strand w of [] \<Rightarrow> None | t # ts \<Rightarrow> Some (continue t (w\<lparr>strand := ts\<rparr>)))"

fun ws_perform_all :: "websocket \<Rightarrow> ws_event list \<Rightarrow> websocket option" where
  "ws_perform_all w [] = Some w"
| "ws_perform_all w (e # es) = (case ws_perform w e of None \<Rightarrow> None | Some w' \<Rightarrow> ws_perform_all w' es)"

lemma ws_perform_step: "ws_perform w e = Some w' \<Longrightarrow> ws_step w e w'"
  by (cases e) (auto split: if_splits list.splits sum.splits ws_task.splits intro: ws_step.intros)

lemma ws_perform_reach:
  "ws_perform_all w es = Some w' \<Longrightarrow> reach ws_init ws_step w \<Longrightarrow> reach ws_init ws_step w'"
  by (induction es arbitrary: w) (auto split: option.splits intro: reach_step ws_perform_step)

text \<open>A connection is established, two frames are sent and one received.\<close>

definition ws_scenario :: "ws_event list" where
  "ws_scenario =
     [Connect_url ''ws://h/x'', Run_posted, Complete 0 Success, Complete 0 Success, Complete 0 Success,
      Continue, Continue, Continue, Send_frame (''a'', False), Send_frame (''b'', True), Run_posted, Run_posted,
      Complete 0 (Received ''z'' False), Continue, Continue, Continue, Complete 0 Success]"

definition ws_scenario_end :: websocket where
  "ws_scenario_end = the (ws_perform_all (websocket_new None) ws_scenario)"

lemma ws_scenario_reach: "reach ws_init ws_step ws_scenario_end"
proof -
  have "ws_perform_all (websocket_new None) ws_scenario \<noteq> None" by code_simp
  moreover have "reach ws_init ws_step (websocket_new None)" by (intro reach_init ws_init.intros)
  ultimately show ?thesis by (auto simp: ws_scenario_end_def intro: ws_perform_reach)
qed

section \<open>Properties\<close>

text \<open>
  C28. Frames are written to the WebSocket one at a time and in the order in which they were sent: at
  most one write is outstanding at any time, and the frames whose writing has started are an
  initial part of the frames passed to \<^verbatim>\<open>send\<close>, whichever threads send, whatever the operations
  complete with and whenever the transport is closed.
\<close>

theorem websocket_writes_in_order:
  assumes "reach ws_init ws_step w"
  shows "prefix (started w) (submitted w) \<and> length (concat (map writing (asyncs w))) \<le> 1"
  using ws_write.reachable_inv [OF assms] prefix_order.trans by (auto simp: write_inv_def)

theorem websocket_writes_in_order_witness:
  "prefix (started ws_scenario_end) (submitted ws_scenario_end) \<and>
   started ws_scenario_end = [(''a'', False), (''b'', True)]"
  using websocket_writes_in_order [OF ws_scenario_reach] by (intro conjI) (blast, code_simp)

text \<open>
  The connection proceeds along one chain of operations: at no time is more than one of
  resolving, connecting, tunnelling, handshaking and reading outstanding, and no operation is
  started on a stream that does not exist.
\<close>

theorem websocket_single_read:
  assumes "reach ws_init ws_step w"
  shows "length (filter (\<lambda>k. writing k = []) (asyncs w)) \<le> 1 \<and> Undefined \<notin> set (ws_log w)"
  using ws_read.reachable_inv [OF assms] by (auto simp: read_inv_def progress_def split: if_splits)

theorem websocket_single_read_witness:
  "length (filter (\<lambda>k. writing k = []) (asyncs ws_scenario_end)) \<le> 1 \<and>
   Message ''z'' False \<in> set (ws_log ws_scenario_end)"
  using websocket_single_read [OF ws_scenario_reach] by (intro conjI) (blast, code_simp)

text \<open>
  C29. A closed transport is silent: once closing has begun and the handler that may have been
  running has returned, no handler of the application is ever called again, whatever completes
  or is sent afterwards. In particular the application is not told that the connection closed.
\<close>

theorem websocket_silent_after_close:
  assumes "silent w" and "reach (\<lambda>v. v = w) ws_step w'"
  shows "filter is_callback (ws_log w') = filter is_callback (ws_log w)"
proof -
  from assms(2) have "silent w' \<and> filter is_callback (ws_log w') = filter is_callback (ws_log w)"
    by (induction rule: reach.induct) (use assms(1) silent_step in auto)
  then show ?thesis by simp
qed

theorem websocket_silent_after_close_witness:
  "filter is_callback (ws_log (ws_send (''c'', False) (ws_close False ws_scenario_end))) =
   filter is_callback (ws_log (ws_close False ws_scenario_end))"
proof -
  have "silent (ws_close False ws_scenario_end)" by code_simp
  moreover have "reach (\<lambda>v. v = ws_close False ws_scenario_end) ws_step
      (ws_send (''c'', False) (ws_close False ws_scenario_end))"
    by (rule reach_step [OF reach_init]) (auto intro: ws_step.send)
  ultimately show ?thesis by (rule websocket_silent_after_close)
qed

end
