(* ===== verification/Http_Polling_Transport.thy ===== *)
theory Http_Polling_Transport
  imports Websocket_Transport Engineio_Client
begin

text \<open>
  The HTTP long-polling transport (\<^verbatim>\<open>src/http_polling_transport.cpp\<close>): the polling loop, the writer, the
  delivery of packets, failure and shutdown, in both of its modes: with threads of its own, or on a
  strand of an \<^verbatim>\<open>io_context\<close> that the application owns.

  The state holds the requests whose response is awaited, and for each thread what it still has to
  do. In the mode with own threads these are the polling thread, the writer, the thread that ends
  the session, and the threads that call \<^verbatim>\<open>close\<close>; on a strand, everything is done by the strand,
  whose tasks are kept as those of the polling thread. A request is answered with any status and
  body, or fails with any message, at any time.
\<close>

section \<open>Requests\<close>

datatype purpose = Handshake_get | Poll_get | Write_post frame | Close_post

record http_request =
  rq_purpose :: purpose
  rq_target :: string
  rq_host :: string
  rq_proxy_authorization :: "string option"
  rq_body :: string

datatype http_result = Response nat string | Failed string

datatype pthread = Poll_thread | Write_thread | Close_thread | Caller_thread

datatype ptask =
    P_open
  | P_message string bool
  | P_error string
  | P_close string
  | P_returned
  | Handshake_done string
  | Deliver "string list"
  | Poll_next
  | Write_loop

datatype ppost =
    Start_external
  | Post_send frame
  | Post_close

datatype pobs =
    Was_opened
  | Was_message string bool
  | Was_error string
  | Was_closed string
  | Accepted frame
  | Posting frame
  | Escaped cpp_exn

record polling =
  p_external :: bool
  p_state :: transport_state
  p_closing :: bool
  p_url :: url_parts
  p_proxy :: "proxy_config option"
  p_sid :: string
  p_queue :: "frame list"
  p_writing :: bool
  p_shutdown_once :: bool
  p_connected_once :: bool
  p_posted :: "ppost list"
  p_requests :: "http_request list"
  poll_tasks :: "ptask list"
  write_tasks :: "ptask list"
  close_tasks :: "ptask list"
  caller_tasks :: "ptask list"
  p_log :: "pobs list"

definition polling_new :: "bool \<Rightarrow> proxy_config option \<Rightarrow> polling" where
  "polling_new external proxy =
     \<lparr>p_external = external, p_state = T_closed, p_closing = False,
      p_url = \<lparr>url_scheme = [], url_host = [], url_port = [], url_target = [], url_tls = False\<rparr>,
      p_proxy = proxy, p_sid = [], p_queue = [], p_writing = False, p_shutdown_once = False,
      p_connected_once = False, p_posted = [], p_requests = [], poll_tasks = [], write_tasks = [],
      close_tasks = [], caller_tasks = [], p_log = []\<rparr>"

fun tasks_of :: "pthread \<Rightarrow> polling \<Rightarrow> ptask list" where
  "tasks_of th h =
     (if p_external h then poll_tasks h
      else case th of Poll_thread \<Rightarrow> poll_tasks h | Write_thread \<Rightarrow> write_tasks h
        | Close_thread \<Rightarrow> close_tasks h | Caller_thread \<Rightarrow> caller_tasks h)"

fun set_tasks :: "pthread \<Rightarrow> ptask list \<Rightarrow> polling \<Rightarrow> polling" where
  "set_tasks th ts h =
     (if p_external h then h\<lparr>poll_tasks := ts\<rparr>
      else case th of Poll_thread \<Rightarrow> h\<lparr>poll_tasks := ts\<rparr> | Write_thread \<Rightarrow> h\<lparr>write_tasks := ts\<rparr>
        | Close_thread \<Rightarrow> h\<lparr>close_tasks := ts\<rparr> | Caller_thread \<Rightarrow> h\<lparr>caller_tasks := ts\<rparr>)"

definition push :: "pthread \<Rightarrow> ptask list \<Rightarrow> polling \<Rightarrow> polling" where
  "push th ts h = set_tasks th (ts @ tasks_of th h) h"

definition record_obs :: "pobs \<Rightarrow> polling \<Rightarrow> polling" where
  "record_obs ob h = h\<lparr>p_log := p_log h @ [ob]\<rparr>"

definition poll_target :: "polling \<Rightarrow> string" where
  "poll_target h =
     url_target (p_url h)
     @ (if str_find CHR ''?'' (url_target (p_url h)) 0 = None then ''?sid='' else ''&sid='') @ p_sid h"

definition make_request :: "purpose \<Rightarrow> string \<Rightarrow> string \<Rightarrow> polling \<Rightarrow> http_request" where
  "make_request why target body h =
     (let via_proxy = p_proxy h \<noteq> None \<and> \<not> url_tls (p_url h)
      in \<lparr>rq_purpose = why,
          rq_target = (if via_proxy then absolute_http_target (p_url h) target else target),
          rq_host = authority (p_url h),
          rq_proxy_authorization =
            (case p_proxy h of
               None \<Rightarrow> None
             | Some proxy \<Rightarrow> if via_proxy \<and> authorization proxy \<noteq> [] then Some (authorization proxy) else None),
          rq_body = body\<rparr>)"

definition request :: "purpose \<Rightarrow> string \<Rightarrow> string \<Rightarrow> polling \<Rightarrow> polling" where
  "request why target body h = h\<lparr>p_requests := p_requests h @ [make_request why target body h]\<rparr>"

section \<open>Operations\<close>

definition polling_fail :: "pthread \<Rightarrow> string \<Rightarrow> polling \<Rightarrow> polling" where
  "polling_fail th msg h =
     (if p_closing h then h
      else push th [P_error msg, P_close msg] (h\<lparr>p_closing := True, p_state := T_closed, p_queue := []\<rparr>))"

definition polling_connect :: "string \<Rightarrow> polling \<Rightarrow> cpp_exn + polling" where
  "polling_connect url h =
     (if p_closing h then Inr h
      else
        (case parse_ws_url url of
           Inl e \<Rightarrow> Inl e
         | Inr u \<Rightarrow>
             let h1 = h\<lparr>p_url := u, p_state := T_connecting, p_connected_once := True\<rparr>
             in if p_external h1 then Inr (h1\<lparr>p_posted := p_posted h1 @ [Start_external]\<rparr>)
                else Inr (request Handshake_get (url_target u) [] (push Write_thread [Write_loop] h1))))"

definition frame_body :: "frame \<Rightarrow> string" where
  "frame_body f = (if snd f then polling_encode_binary (fst f) else fst f)"

definition post_write :: "polling \<Rightarrow> polling" where
  "post_write h =
     (case p_queue h of
        [] \<Rightarrow> h
      | f # fs \<Rightarrow>
          record_obs (Posting f)
            (request (Write_post f) (poll_target h) (frame_body f) (h\<lparr>p_queue := fs\<rparr>)))"

definition start_next_external_write :: "polling \<Rightarrow> polling" where
  "start_next_external_write h =
     (if p_writing h \<or> p_queue h = [] \<or> p_closing h then h else post_write (h\<lparr>p_writing := True\<rparr>))"

definition accept_frame :: "frame \<Rightarrow> polling \<Rightarrow> polling" where
  "accept_frame f h = record_obs (Accepted f) (h\<lparr>p_queue := p_queue h @ [f]\<rparr>)"

definition polling_send :: "frame \<Rightarrow> polling \<Rightarrow> polling" where
  "polling_send f h =
     (if p_external h then h\<lparr>p_posted := p_posted h @ [Post_send f]\<rparr>
      else if p_closing h \<or> p_state h \<noteq> T_open then h
      else accept_frame f h)"

definition polling_shutdown :: "pthread \<Rightarrow> polling \<Rightarrow> polling" where
  "polling_shutdown th h =
     (if p_shutdown_once h then h
      else
        let notify_close = \<not> p_closing h;
            h1 = h\<lparr>p_shutdown_once := True, p_closing := True, p_state := T_closed\<rparr>;
            h2 = (if p_external h1 then h1\<lparr>p_queue := []\<rparr> else h1);
            h3 = (if p_sid h2 \<noteq> [] then request Close_post (poll_target h2) ''1'' h2 else h2)
        in if notify_close then push th [P_close ''closed''] h3 else h3)"

definition polling_close :: "pthread \<Rightarrow> bool \<Rightarrow> polling \<Rightarrow> polling" where
  "polling_close th on_strand h =
     (if p_external h \<and> \<not> on_strand then h\<lparr>p_posted := p_posted h @ [Post_close]\<rparr>
      else polling_shutdown th h)"

fun polling_run_posted :: "ppost \<Rightarrow> polling \<Rightarrow> polling" where
  "polling_run_posted Start_external h = request Handshake_get (url_target (p_url h)) [] h"
| "polling_run_posted (Post_send f) h =
     (if p_closing h \<or> p_state h \<noteq> T_open then h else start_next_external_write (accept_frame f h))"
| "polling_run_posted Post_close h = polling_shutdown Poll_thread h"

definition ok_status :: "nat \<Rightarrow> bool" where
  "ok_status st \<longleftrightarrow> st div 100 = 2"

text \<open>
  What a thread does with the result of its request. On a strand a result that arrives after
  closing is dropped at once; with own threads, the handshake's result is still looked at.
\<close>

definition on_handshake :: "http_result \<Rightarrow> polling \<Rightarrow> polling" where
  "on_handshake r h =
     (if p_external h \<and> p_closing h then h
      else
        (case r of
           Failed e \<Rightarrow> polling_fail Poll_thread (''polling transport: '' @ e) h
         | Response st body \<Rightarrow>
             (if \<not> ok_status st
              then polling_fail Poll_thread (''polling handshake returned HTTP '' @ to_string_nat st) h
              else push Poll_thread [P_open, Handshake_done body] (h\<lparr>p_state := T_open\<rparr>))))"

definition on_poll :: "http_result \<Rightarrow> polling \<Rightarrow> polling" where
  "on_poll r h =
     (if p_closing h then h
      else
        (case r of
           Failed e \<Rightarrow> polling_fail Poll_thread (''polling transport: '' @ e) h
         | Response st body \<Rightarrow>
             (if \<not> ok_status st
              then polling_fail Poll_thread (''polling request returned HTTP '' @ to_string_nat st) h
              else push Poll_thread [Deliver (polling_split_payload body), Poll_next] h)))"

definition write_failure :: "http_result \<Rightarrow> string option" where
  "write_failure r =
     (case r of
        Failed e \<Rightarrow> Some (''polling write: '' @ e)
      | Response st body \<Rightarrow>
          if ok_status st then None else Some (''polling write returned HTTP '' @ to_string_nat st))"

definition on_write :: "http_result \<Rightarrow> polling \<Rightarrow> polling" where
  "on_write r h =
     (if p_external h
      then
        let h1 = h\<lparr>p_writing := False\<rparr>
        in if p_closing h1 then h1
           else (case write_failure r of
               Some msg \<Rightarrow> polling_fail Poll_thread msg h1
             | None \<Rightarrow> start_next_external_write h1)
      else
        (case write_failure r of
           Some msg \<Rightarrow> polling_fail Write_thread msg (push Write_thread [Write_loop] h)
         | None \<Rightarrow> push Write_thread [Write_loop] h))"

fun on_response :: "purpose \<Rightarrow> http_result \<Rightarrow> polling \<Rightarrow> polling" where
  "on_response Handshake_get r h = on_handshake r h"
| "on_response Poll_get r h = on_poll r h"
| "on_response (Write_post f) r h = on_write r h"
| "on_response Close_post r h = h"

fun thread_of :: "purpose \<Rightarrow> pthread" where
  "thread_of (Write_post f) = Write_thread"
| "thread_of Close_post = Close_thread"
| "thread_of why = Poll_thread"

text \<open>
  One packet of a delivered body: an open packet is looked into for the session id, whose type may
  be wrong; a packet that starts with \<^verbatim>\<open>b\<close> is decoded, and dropped if that fails. The exception of a
  wrong type is caught in the polling thread (its text is the library's and abstracted here), but
  leaves the handler on a strand.
\<close>

definition packet_sid :: "json_lib \<Rightarrow> string \<Rightarrow> string \<Rightarrow> cpp_exn + string" where
  "packet_sid lib sid pkt =
     (if hd pkt = CHR ''0''
      then (case lib_parse lib (tl pkt) of None \<Rightarrow> Inr sid | Some j \<Rightarrow> value_string j ''sid'' [])
      else Inr sid)"

definition packet_message :: "string \<Rightarrow> (string \<times> bool) option" where
  "packet_message pkt =
     (if hd pkt = CHR ''b'' then map_option (\<lambda>d. (d, True)) (polling_decode_binary pkt)
      else Some (pkt, False))"

definition deliver_packet :: "json_lib \<Rightarrow> string \<Rightarrow> string list \<Rightarrow> polling \<Rightarrow> polling" where
  "deliver_packet lib pkt rest h =
     (case packet_sid lib (p_sid h) pkt of
        Inl e \<Rightarrow>
          (let h1 = set_tasks Poll_thread [] h
           in if p_external h1 then record_obs (Escaped e) h1
              else polling_fail Poll_thread ''polling transport: type error'' h1)
      | Inr sid \<Rightarrow>
          (let h1 = h\<lparr>p_sid := sid\<rparr>
           in (case packet_message pkt of
                 None \<Rightarrow> push Poll_thread [Deliver rest] h1
               | Some (pl, bin) \<Rightarrow> push Poll_thread [P_message pl bin, Deliver rest] h1)))"

fun run_task :: "json_lib \<Rightarrow> pthread \<Rightarrow> ptask \<Rightarrow> polling \<Rightarrow> polling" where
  "run_task lib th P_open h = record_obs Was_opened (push th [P_returned] h)"
| "run_task lib th (P_message pl bin) h = record_obs (Was_message pl bin) (push th [P_returned] h)"
| "run_task lib th (P_error msg) h = record_obs (Was_error msg) (push th [P_returned] h)"
| "run_task lib th (P_close msg) h = record_obs (Was_closed msg) (push th [P_returned] h)"
| "run_task lib th P_returned h = h"
| "run_task lib th (Handshake_done body) h =
     (if p_closing h then h else push th [Deliver (polling_split_payload body), Poll_next] h)"
| "run_task lib th (Deliver []) h = h"
| "run_task lib th (Deliver (pkt # rest)) h = (if p_closing h then h else deliver_packet lib pkt rest h)"
| "run_task lib th Poll_next h = (if p_closing h then h else request Poll_get (poll_target h) [] h)"
| "run_task lib th Write_loop h = post_write h"

definition ready :: "ptask \<Rightarrow> polling \<Rightarrow> bool" where
  "ready t h \<longleftrightarrow> (t = Write_loop \<longrightarrow> p_closing h \<or> p_queue h \<noteq> [])"

section \<open>The transport in use\<close>

datatype p_event =
    P_connect string
  | P_send frame
  | P_close_call pthread bool
  | P_posted
  | P_respond nat http_result
  | P_run pthread

inductive polling_init :: "polling \<Rightarrow> bool" where
  "polling_init (polling_new external proxy)"

text \<open>
  \<^verbatim>\<open>connect\<close> is called at most once per transport. Inside a callback, \<^verbatim>\<open>close\<close> runs on the thread of
  the callback, otherwise on a thread of the caller.
\<close>

inductive polling_step :: "json_lib \<Rightarrow> polling \<Rightarrow> p_event \<Rightarrow> polling \<Rightarrow> bool" for lib where
  p_connect: "\<not> p_connected_once h \<Longrightarrow> polling_connect url h = Inr h' \<Longrightarrow> polling_step lib h (P_connect url) h'"
| p_send: "polling_step lib h (P_send f) (polling_send f h)"
| p_close: "(if on_strand then p_external h \<and> (\<exists>ts. poll_tasks h = P_returned # ts)
      else p_external h \<or> th = Caller_thread \<or> (\<exists>ts. tasks_of th h = P_returned # ts)) \<Longrightarrow>
     polling_step lib h (P_close_call th on_strand) (polling_close th on_strand h)"
| p_posted: "poll_tasks h = [] \<Longrightarrow> p_posted h = p # ps \<Longrightarrow>
     polling_step lib h P_posted (polling_run_posted p (h\<lparr>p_posted := ps\<rparr>))"
| p_respond: "i < length (p_requests h) \<Longrightarrow> why = rq_purpose (p_requests h ! i) \<Longrightarrow> tasks_of (thread_of why) h = [] \<Longrightarrow>
     polling_step lib h (P_respond i r)
       (on_response why r (h\<lparr>p_requests := take i (p_requests h) @ drop (Suc i) (p_requests h)\<rparr>))"
| p_run: "tasks_of th h = t # ts \<Longrightarrow> ready t h \<Longrightarrow>
     polling_step lib h (P_run th) (run_task lib th t (set_tasks th ts h))"

section \<open>Counting tasks\<close>

definition all_tasks :: "polling \<Rightarrow> ptask list" where
  "all_tasks h = poll_tasks h @ write_tasks h @ close_tasks h @ caller_tasks h"

definition cnt :: "(ptask \<Rightarrow> bool) \<Rightarrow> polling \<Rightarrow> nat" where
  "cnt P h = length (filter P (all_tasks h))"

lemma set_tasks_frame [simp]:
  "p_external (set_tasks th ts h) = p_external h" "p_state (set_tasks th ts h) = p_state h"
  "p_closing (set_tasks th ts h) = p_closing h" "p_queue (set_tasks th ts h) = p_queue h"
  "p_writing (set_tasks th ts h) = p_writing h" "p_shutdown_once (set_tasks th ts h) = p_shutdown_once h"
  "p_connected_once (set_tasks th ts h) = p_connected_once h" "p_posted (set_tasks th ts h) = p_posted h"
  "p_requests (set_tasks th ts h) = p_requests h" "p_sid (set_tasks th ts h) = p_sid h"
  "p_log (set_tasks th ts h) = p_log h" "p_url (set_tasks th ts h) = p_url h"
  by (cases th; simp)+

lemma push_frame [simp]:
  "p_external (push th ts h) = p_external h" "p_state (push th ts h) = p_state h"
  "p_closing (push th ts h) = p_closing h" "p_queue (push th ts h) = p_queue h"
  "p_writing (push th ts h) = p_writing h" "p_shutdown_once (push th ts h) = p_shutdown_once h"
  "p_connected_once (push th ts h) = p_connected_once h" "p_posted (push th ts h) = p_posted h"
  "p_requests (push th ts h) = p_requests h" "p_sid (push th ts h) = p_sid h"
  "p_log (push th ts h) = p_log h" "p_url (push th ts h) = p_url h"
  by (simp_all add: push_def del: set_tasks.simps)

lemma cnt_frame [simp]:
  "cnt P (h\<lparr>p_state := x_p_state\<rparr>) = cnt P h"
  "cnt P (h\<lparr>p_closing := x_p_closing\<rparr>) = cnt P h"
  "cnt P (h\<lparr>p_queue := x_p_queue\<rparr>) = cnt P h"
  "cnt P (h\<lparr>p_writing := x_p_writing\<rparr>) = cnt P h"
  "cnt P (h\<lparr>p_shutdown_once := x_p_shutdown_once\<rparr>) = cnt P h"
  "cnt P (h\<lparr>p_connected_once := x_p_connected_once\<rparr>) = cnt P h"
  "cnt P (h\<lparr>p_posted := x_p_posted\<rparr>) = cnt P h"
  "cnt P (h\<lparr>p_requests := x_p_requests\<rparr>) = cnt P h"
  "cnt P (h\<lparr>p_sid := x_p_sid\<rparr>) = cnt P h"
  "cnt P (h\<lparr>p_log := x_p_log\<rparr>) = cnt P h"
  "cnt P (h\<lparr>p_url := x_p_url\<rparr>) = cnt P h"
  by (simp_all add: cnt_def all_tasks_def)

lemma cnt_set_tasks: "cnt P (set_tasks th ts h) + length (filter P (tasks_of th h)) = length (filter P ts) + cnt P h"
  by (cases th) (auto simp: cnt_def all_tasks_def)

lemma cnt_push [simp]: "cnt P (push th ts h) = length (filter P ts) + cnt P h"
  using cnt_set_tasks [of P th "ts @ tasks_of th h" h] by (simp add: push_def del: set_tasks.simps tasks_of.simps)

lemma cnt_pop:
  "tasks_of th h = t # ts \<Longrightarrow> cnt P h = (if P t then 1 else 0) + cnt P (set_tasks th ts h)"
  using cnt_set_tasks [of P th ts h] by (auto simp del: set_tasks.simps tasks_of.simps)

lemma cnt_clear: "cnt P (set_tasks th [] h) \<le> cnt P h"
  using cnt_set_tasks [of P th "[]" h] by (simp del: set_tasks.simps tasks_of.simps)

declare set_tasks.simps [simp del] tasks_of.simps [simp del]

section \<open>Invariants, operation by operation\<close>

definition respond :: "nat \<Rightarrow> http_result \<Rightarrow> polling \<Rightarrow> polling" where
  "respond i r h =
     on_response (rq_purpose (p_requests h ! i)) r
       (h\<lparr>p_requests := take i (p_requests h) @ drop (Suc i) (p_requests h)\<rparr>)"

locale polling_invariant =
  fixes I :: "polling \<Rightarrow> bool"
  assumes P_new: "I (polling_new external proxy)"
    and P_connect: "I h \<Longrightarrow> \<not> p_connected_once h \<Longrightarrow> polling_connect url h = Inr h' \<Longrightarrow> I h'"
    and P_send: "I h \<Longrightarrow> I (polling_send f h)"
    and P_close: "I h \<Longrightarrow> I (polling_close th on_strand h)"
    and P_posted: "I h \<Longrightarrow> p_posted h = p # ps \<Longrightarrow> I (polling_run_posted p (h\<lparr>p_posted := ps\<rparr>))"
    and P_respond: "I h \<Longrightarrow> i < length (p_requests h) \<Longrightarrow> I (respond i r h)"
    and P_task: "I h \<Longrightarrow> tasks_of th h = t # ts \<Longrightarrow> ready t h \<Longrightarrow> I (run_task lib th t (set_tasks th ts h))"
begin

lemma P_step: "I h \<Longrightarrow> polling_step lib h e h' \<Longrightarrow> I h'"
  by (erule polling_step.cases)
    (auto simp: respond_def [symmetric] intro: P_connect P_send P_close P_posted P_respond P_task)

end

sublocale polling_invariant \<subseteq> sys: invariant polling_init "polling_step lib" I for lib
  by unfold_locales (auto simp: polling_init.simps P_new intro: P_step)

section \<open>The close handler is called once\<close>

fun is_closer :: "ptask \<Rightarrow> bool" where
  "is_closer (P_close msg) = True"
| "is_closer t = False"

fun is_closed :: "pobs \<Rightarrow> bool" where
  "is_closed (Was_closed msg) = True"
| "is_closed ob = False"

definition close_inv :: "polling \<Rightarrow> bool" where
  "close_inv h \<longleftrightarrow> cnt is_closer h + length (filter is_closed (p_log h)) \<le> (if p_closing h then 1 else 0)"

lemmas polling_ops = polling_fail_def polling_connect_def post_write_def start_next_external_write_def
  accept_frame_def polling_send_def polling_shutdown_def polling_close_def on_handshake_def on_poll_def
  on_write_def request_def record_obs_def Let_def

lemmas polling_splits = if_splits option.splits list.splits http_result.splits sum.splits prod.splits

lemma close_inv_response: "close_inv h \<Longrightarrow> close_inv (on_response why r h)"
  by (cases why) (auto simp: close_inv_def polling_ops split: polling_splits)

lemma close_inv_posted: "close_inv h \<Longrightarrow> close_inv (polling_run_posted p h)"
  by (cases p) (auto simp: close_inv_def polling_ops split: polling_splits)

lemma close_inv_task:
  assumes I: "close_inv h" and t: "tasks_of th h = t # ts"
  shows "close_inv (run_task lib th t (set_tasks th ts h))"
proof -
  have c: "cnt is_closer h = (if is_closer t then 1 else 0) + cnt is_closer (set_tasks th ts h)"
    by (rule cnt_pop [OF t])
  have d: "cnt is_closer (set_tasks Poll_thread [] (set_tasks th ts h)) \<le> cnt is_closer (set_tasks th ts h)"
    by (rule cnt_clear)
  show ?thesis
    using I c d
    by (cases "(lib, th, t, h)" rule: run_task.cases)
      (auto simp: close_inv_def polling_ops deliver_packet_def split: polling_splits)
qed
lemma cnt_new [simp]: "cnt P (polling_new external proxy) = 0"
  by (simp add: cnt_def all_tasks_def polling_new_def)

interpretation closes: polling_invariant close_inv
proof unfold_locales
  show "close_inv (polling_new external proxy)" for external proxy
    by (simp add: close_inv_def) (simp add: polling_new_def)
  show "close_inv h'" if "close_inv h" "polling_connect url h = Inr h'" for h url h'
    using that by (auto simp: close_inv_def polling_ops split: polling_splits)
  show "close_inv (polling_send f h)" if "close_inv h" for f h
    using that by (auto simp: close_inv_def polling_ops)
  show "close_inv (polling_close th on_strand h)" if "close_inv h" for th on_strand h
    using that by (auto simp: close_inv_def polling_ops)
  show "close_inv (respond i r h)" if "close_inv h" for i r h
    unfolding respond_def by (rule close_inv_response) (use that in \<open>simp add: close_inv_def\<close>)
  show "close_inv (polling_run_posted p (h\<lparr>p_posted := ps\<rparr>))" if "close_inv h" for p ps h
    by (rule close_inv_posted) (use that in \<open>simp add: close_inv_def\<close>)
qed (rule close_inv_task)

section \<open>Frames are posted in order\<close>

fun accepted_of :: "pobs \<Rightarrow> frame list" where
  "accepted_of (Accepted f) = [f]"
| "accepted_of ob = []"

fun posting_of :: "pobs \<Rightarrow> frame list" where
  "posting_of (Posting f) = [f]"
| "posting_of ob = []"

definition accepted :: "polling \<Rightarrow> frame list" where
  "accepted h = concat (map accepted_of (p_log h))"

definition posting :: "polling \<Rightarrow> frame list" where
  "posting h = concat (map posting_of (p_log h))"

definition queue_inv :: "polling \<Rightarrow> bool" where
  "queue_inv h \<longleftrightarrow> prefix (posting h @ p_queue h) (accepted h) \<and>
     (\<not> p_closing h \<longrightarrow> accepted h = posting h @ p_queue h)"

lemmas queue_defs = queue_inv_def accepted_def posting_def

lemma queue_inv_frame:
  assumes "queue_inv h" and "p_log h' = p_log h" and "p_queue h' = p_queue h" and "p_closing h \<longrightarrow> p_closing h'"
  shows "queue_inv h'"
  using assms by (auto simp: queue_defs)

lemma queue_inv_stop:
  assumes "queue_inv h" and "p_log h' = p_log h" and "p_queue h' = []" and "p_closing h'"
  shows "queue_inv h'"
  using assms by (auto simp: queue_defs intro: append_prefixD)

lemma queue_inv_obs:
  assumes "queue_inv h" and "accepted_of ob = []" and "posting_of ob = []"
  shows "queue_inv (record_obs ob h)"
  using assms by (simp add: queue_defs record_obs_def)

lemma queue_inv_fail: "queue_inv h \<Longrightarrow> queue_inv (polling_fail th msg h)"
  by (auto simp: polling_fail_def intro: queue_inv_stop)

lemma queue_inv_push: "queue_inv h \<Longrightarrow> queue_inv (push th ts h)"
  by (erule queue_inv_frame) auto

lemma queue_inv_post_write: "queue_inv h \<Longrightarrow> queue_inv (post_write h)"
  by (auto simp: queue_defs post_write_def record_obs_def request_def split: list.split)

lemma queue_inv_accept: "queue_inv h \<Longrightarrow> \<not> p_closing h \<Longrightarrow> queue_inv (accept_frame f h)"
  by (simp add: queue_defs accept_frame_def record_obs_def)

lemma queue_inv_next: "queue_inv h \<Longrightarrow> queue_inv (start_next_external_write h)"
  by (auto simp: start_next_external_write_def intro!: queue_inv_post_write elim: queue_inv_frame)

lemma queue_inv_request: "queue_inv h \<Longrightarrow> queue_inv (request why target body h)"
  by (erule queue_inv_frame) (auto simp: request_def)

lemma queue_inv_shutdown: "queue_inv h \<Longrightarrow> queue_inv (polling_shutdown th h)"
  by (auto simp: polling_shutdown_def Let_def intro!: queue_inv_push queue_inv_request
      elim: queue_inv_frame queue_inv_stop)

lemmas queue_intros = queue_inv_fail queue_inv_push queue_inv_post_write queue_inv_accept queue_inv_next
  queue_inv_request queue_inv_shutdown queue_inv_obs

lemma queue_inv_response: "queue_inv h \<Longrightarrow> queue_inv (on_response why r h)"
  by (cases why)
    (auto simp: on_handshake_def on_poll_def on_write_def Let_def intro!: queue_intros elim: queue_inv_frame
      split: option.split http_result.split)

lemma queue_inv_task: "queue_inv h \<Longrightarrow> queue_inv (run_task lib th t h)"
  by (cases "(lib, th, t, h)" rule: run_task.cases)
    (auto simp: deliver_packet_def Let_def intro!: queue_intros elim: queue_inv_frame
      split: sum.split option.split prod.split)

interpretation queue: polling_invariant queue_inv
proof unfold_locales
  show "queue_inv (polling_new external proxy)" for external proxy
    by (simp add: queue_defs polling_new_def)
  show "queue_inv h'" if "queue_inv h" "polling_connect url h = Inr h'" for h url h'
    using that by (auto simp: polling_connect_def Let_def intro!: queue_intros elim: queue_inv_frame
        split: if_splits sum.splits)
  show "queue_inv (polling_send f h)" if "queue_inv h" for f h
    using that by (auto simp: polling_send_def intro!: queue_intros elim: queue_inv_frame)
  show "queue_inv (polling_close th on_strand h)" if "queue_inv h" for th on_strand h
    using that by (auto simp: polling_close_def intro!: queue_intros elim: queue_inv_frame)
  show "queue_inv (respond i r h)" if "queue_inv h" for i r h
    unfolding respond_def by (rule queue_inv_response) (rule queue_inv_frame [OF that]; simp)
  show "queue_inv (polling_run_posted p (h\<lparr>p_posted := ps\<rparr>))" if "queue_inv h" for p ps h
  proof -
    have "queue_inv (h\<lparr>p_posted := ps\<rparr>)" by (rule queue_inv_frame [OF that]) simp_all
    then show ?thesis by (cases p) (auto intro!: queue_intros)
  qed
  show "queue_inv (run_task lib th t (set_tasks th ts h))" if "queue_inv h" for lib th t ts h
    by (rule queue_inv_task) (rule queue_inv_frame [OF that]; simp)
qed
section \<open>One poll and one write at a time\<close>

fun is_get :: "purpose \<Rightarrow> bool" where
  "is_get Handshake_get = True"
| "is_get Poll_get = True"
| "is_get why = False"

fun is_write :: "purpose \<Rightarrow> bool" where
  "is_write (Write_post f) = True"
| "is_write why = False"

fun is_getting :: "ptask \<Rightarrow> bool" where
  "is_getting Poll_next = True"
| "is_getting (Handshake_done body) = True"
| "is_getting t = False"

fun is_write_loop :: "ptask \<Rightarrow> bool" where
  "is_write_loop Write_loop = True"
| "is_write_loop t = False"

fun is_starter :: "ppost \<Rightarrow> bool" where
  "is_starter Start_external = True"
| "is_starter p = False"

definition gets :: "polling \<Rightarrow> nat" where
  "gets h = length (filter (\<lambda>q. is_get (rq_purpose q)) (p_requests h))"

definition writes :: "polling \<Rightarrow> nat" where
  "writes h = length (filter (\<lambda>q. is_write (rq_purpose q)) (p_requests h))"

definition single_inv :: "polling \<Rightarrow> bool" where
  "single_inv h \<longleftrightarrow>
     gets h + cnt is_getting h + length (filter is_starter (p_posted h)) \<le> (if p_connected_once h then 1 else 0) \<and>
     (if p_external h then cnt is_write_loop h = 0 \<and> writes h \<le> (if p_writing h then 1 else 0)
      else p_posted h = [] \<and> writes h + cnt is_write_loop h \<le> (if p_connected_once h then 1 else 0))"

lemma request_counts [simp]:
  "gets (request why target body h) = (if is_get why then 1 else 0) + gets h"
  "writes (request why target body h) = (if is_write why then 1 else 0) + writes h"
  "cnt P (request why target body h) = cnt P h" "p_posted (request why target body h) = p_posted h"
  "p_connected_once (request why target body h) = p_connected_once h"
  "p_external (request why target body h) = p_external h" "p_writing (request why target body h) = p_writing h"
  "p_closing (request why target body h) = p_closing h" "p_queue (request why target body h) = p_queue h"
  by (auto simp: gets_def writes_def request_def make_request_def Let_def)

lemma counts_frame [simp]:
  "gets (h\<lparr>p_posted := a\<rparr>) = gets h" "writes (h\<lparr>p_posted := a\<rparr>) = writes h"
  "gets (h\<lparr>p_queue := b\<rparr>) = gets h" "writes (h\<lparr>p_queue := b\<rparr>) = writes h"
  "gets (h\<lparr>p_log := c\<rparr>) = gets h" "writes (h\<lparr>p_log := c\<rparr>) = writes h"
  "gets (h\<lparr>p_writing := d\<rparr>) = gets h" "writes (h\<lparr>p_writing := d\<rparr>) = writes h"
  "gets (h\<lparr>p_state := e\<rparr>) = gets h" "writes (h\<lparr>p_state := e\<rparr>) = writes h"
  "gets (h\<lparr>p_closing := g\<rparr>) = gets h" "writes (h\<lparr>p_closing := g\<rparr>) = writes h"
  "gets (h\<lparr>p_sid := i\<rparr>) = gets h" "writes (h\<lparr>p_sid := i\<rparr>) = writes h"
  "gets (h\<lparr>p_url := u\<rparr>) = gets h" "writes (h\<lparr>p_url := u\<rparr>) = writes h"
  "gets (h\<lparr>p_shutdown_once := j\<rparr>) = gets h" "writes (h\<lparr>p_shutdown_once := j\<rparr>) = writes h"
  "gets (h\<lparr>p_connected_once := j\<rparr>) = gets h" "writes (h\<lparr>p_connected_once := j\<rparr>) = writes h"
  "gets (push th ts h) = gets h" "writes (push th ts h) = writes h"
  "gets (set_tasks th ts h) = gets h" "writes (set_tasks th ts h) = writes h"
  by (simp_all add: gets_def writes_def)

lemmas single_ops = polling_fail_def polling_connect_def post_write_def start_next_external_write_def
  accept_frame_def polling_send_def polling_shutdown_def polling_close_def on_handshake_def on_poll_def
  on_write_def record_obs_def Let_def

lemma counts_remove:
  assumes "i < length (p_requests h)" and "why = rq_purpose (p_requests h ! i)"
    and "h' = h\<lparr>p_requests := take i (p_requests h) @ drop (Suc i) (p_requests h)\<rparr>"
  shows "gets h = (if is_get why then 1 else 0) + gets h'" "writes h = (if is_write why then 1 else 0) + writes h'"
  using filter_remove [OF assms(1), of "\<lambda>q. is_get (rq_purpose q)"]
    filter_remove [OF assms(1), of "\<lambda>q. is_write (rq_purpose q)"] assms(2,3)
  by (simp_all add: gets_def writes_def)

lemma single_inv_response:
  assumes "single_inv h" and "gets h = (if is_get why then 1 else 0) + gets h'"
    and "writes h = (if is_write why then 1 else 0) + writes h'"
    and "cnt is_getting h' = cnt is_getting h" "cnt is_write_loop h' = cnt is_write_loop h"
    and "p_posted h' = p_posted h" "p_connected_once h' = p_connected_once h" "p_external h' = p_external h"
    and "p_writing h' = p_writing h"
  shows "single_inv (on_response why r h')"
proof (cases why)
  case (Write_post f)
  then show ?thesis
    using assms by (cases "write_failure r"; cases "p_queue h'"; cases "p_closing h'")
      (auto simp: single_inv_def single_ops split: if_splits)
next
  case Handshake_get
  have "on_handshake r h' = h' \<or> (\<exists>msg. on_handshake r h' = polling_fail Poll_thread msg h') \<or>
      (\<exists>body. on_handshake r h' = push Poll_thread [P_open, Handshake_done body] (h'\<lparr>p_state := T_open\<rparr>))"
    by (auto simp: on_handshake_def split: http_result.split)
  moreover have "single_inv h'" "single_inv (polling_fail Poll_thread msg h')"
    "single_inv (push Poll_thread [P_open, Handshake_done body] (h'\<lparr>p_state := T_open\<rparr>))" for msg body
    using assms Handshake_get by (auto simp: single_inv_def polling_fail_def)
  ultimately show ?thesis using Handshake_get by (elim disjE exE) simp_all
next
  case Poll_get
  have "on_poll r h' = h' \<or> (\<exists>msg. on_poll r h' = polling_fail Poll_thread msg h') \<or>
      (\<exists>ps. on_poll r h' = push Poll_thread [Deliver ps, Poll_next] h')"
    by (auto simp: on_poll_def split: http_result.split)
  moreover have "single_inv h'" "single_inv (polling_fail Poll_thread msg h')"
    "single_inv (push Poll_thread [Deliver ps, Poll_next] h')" for msg ps
    using assms Poll_get by (auto simp: single_inv_def polling_fail_def)
  ultimately show ?thesis using Poll_get by (elim disjE exE) simp_all
next
  case Close_post
  then show ?thesis using assms by (auto simp: single_inv_def)
qed

lemma single_inv_respond:
  assumes I: "single_inv h" and i: "i < length (p_requests h)"
  shows "single_inv (respond i r h)"
  unfolding respond_def by (rule single_inv_response [OF I counts_remove [OF i refl refl]]) simp_all

lemma single_inv_task:
  assumes I: "single_inv h" and t: "tasks_of th h = t # ts"
  shows "single_inv (run_task lib th t (set_tasks th ts h))"
proof -
  note c = cnt_pop [OF t, of is_getting] cnt_pop [OF t, of is_write_loop]
    cnt_clear [of is_getting Poll_thread "set_tasks th ts h"] cnt_clear [of is_write_loop Poll_thread "set_tasks th ts h"]
  show ?thesis
    using I c
    by (cases "(lib, th, t, h)" rule: run_task.cases)
      (auto simp: single_inv_def single_ops deliver_packet_def split: polling_splits)
qed

interpretation single: polling_invariant single_inv
proof unfold_locales
  show "single_inv (polling_new external proxy)" for external proxy
    by (simp add: single_inv_def) (simp add: polling_new_def gets_def writes_def)
  show "single_inv h'" if "single_inv h" "\<not> p_connected_once h" "polling_connect url h = Inr h'" for h url h'
    using that by (auto simp: single_inv_def single_ops split: polling_splits)
  show "single_inv (polling_send f h)" if "single_inv h" for f h
    using that by (auto simp: single_inv_def single_ops)
  show "single_inv (polling_close th on_strand h)" if "single_inv h" for th on_strand h
    using that by (auto simp: single_inv_def single_ops)
  show "single_inv (polling_run_posted p (h\<lparr>p_posted := ps\<rparr>))" if "single_inv h" "p_posted h = p # ps" for p ps h
    using that by (cases p) (auto simp: single_inv_def single_ops split: polling_splits)
qed (auto intro: single_inv_respond single_inv_task)
section \<open>Nothing is delivered after closing\<close>

fun is_message_task :: "ptask \<Rightarrow> bool" where
  "is_message_task (P_message pl bin) = True"
| "is_message_task t = False"

fun is_message :: "pobs \<Rightarrow> bool" where
  "is_message (Was_message pl bin) = True"
| "is_message ob = False"

definition drained :: "pobs list \<Rightarrow> polling \<Rightarrow> bool" where
  "drained L h \<longleftrightarrow> p_closing h \<and> cnt is_message_task h = 0 \<and> filter is_message (p_log h) = L"

lemma drained_respond: "drained L h \<Longrightarrow> drained L (respond i r h)"
  unfolding respond_def
  by (cases "rq_purpose (p_requests h ! i)") (auto simp: drained_def polling_ops split: polling_splits)

lemma drained_task:
  assumes "drained L h" and t: "tasks_of th h = t # ts"
  shows "drained L (run_task lib th t (set_tasks th ts h))"
  using assms(1) cnt_pop [OF t, of is_message_task]
  by (cases "(lib, th, t, h)" rule: run_task.cases)
    (auto simp: drained_def polling_ops split: polling_splits)

lemma drained_step:
  assumes "drained L h" and "polling_step lib h e h'"
  shows "drained L h'"
  using assms(2)
proof (cases rule: polling_step.cases)
  case (p_posted p ps)
  then show ?thesis using assms(1) by (cases p) (auto simp: drained_def polling_ops)
next
  case (p_respond i why r)
  then show ?thesis using drained_respond [OF assms(1), of i r] by (simp add: respond_def)
next
  case (p_run th t ts)
  then show ?thesis using drained_task [OF assms(1)] by simp
qed (use assms(1) in \<open>auto simp: drained_def polling_ops\<close>)

section \<open>Bodies of requests\<close>

lemma set_base64_encode: "set (base64_encode s) \<subseteq> insert CHR ''='' (set base64)"
proof -
  have "sextet_char v k \<in> set base64" for v k
    using nth_mem [of "unat (drop_bit k v AND 63 :: 32 word)" base64] sextet_less by (simp add: sextet_char_def)
  then show ?thesis
    by (induction s rule: base64_encode.induct) (auto simp: Let_def)
qed

lemma encode_binary_packet:
  "polling_encode_binary s \<noteq> []" "hd (polling_encode_binary s) = CHR ''b''"
  "record_separator \<notin> set (polling_encode_binary s)"
proof -
  have "record_separator \<notin> insert CHR ''='' (set base64)" "record_separator \<noteq> CHR ''b''"
    by (simp_all add: record_separator_def base64_def char_of_eq_iff)
  then show "record_separator \<notin> set (polling_encode_binary s)"
    using set_base64_encode [of s] by (auto simp: polling_encode_binary_def)
qed (simp_all add: polling_encode_binary_def)

definition postable :: "frame \<Rightarrow> bool" where
  "postable f \<longleftrightarrow> snd f \<or> (fst f \<noteq> [] \<and> hd (fst f) \<noteq> CHR ''b'' \<and> record_separator \<notin> set (fst f))"

lemma packet_message_body: "postable f \<Longrightarrow> packet_message (frame_body f) = Some f"
  using encode_binary_packet(2) [of "fst f"]
  by (cases f)
    (auto simp: packet_message_def frame_body_def postable_def polling_decode_binary_def
      polling_encode_binary_def base64_roundtrip)

lemma postable_body: "postable f \<Longrightarrow> frame_body f \<noteq> [] \<and> record_separator \<notin> set (frame_body f)"
  using encode_binary_packet [of "fst f"] by (auto simp: frame_body_def postable_def)

section \<open>Executing scenarios\<close>

fun p_perform :: "json_lib \<Rightarrow> polling \<Rightarrow> p_event \<Rightarrow> polling option" where
  "p_perform lib h (P_connect url) =
     (if p_connected_once h then None else case polling_connect url h of Inl e \<Rightarrow> None | Inr h' \<Rightarrow> Some h')"
| "p_perform lib h (P_send f) = Some (polling_send f h)"
| "p_perform lib h (P_close_call th b) =
     (if (if b then p_external h \<and> (case poll_tasks h of P_returned # ts \<Rightarrow> True | _ \<Rightarrow> False)
          else p_external h \<or> th = Caller_thread \<or> (case tasks_of th h of P_returned # ts \<Rightarrow> True | _ \<Rightarrow> False))
      then Some (polling_close th b h) else None)"
| "p_perform lib h P_posted =
     (case p_posted h of
        [] \<Rightarrow> None
      | p # ps \<Rightarrow> if poll_tasks h = [] then Some (polling_run_posted p (h\<lparr>p_posted := ps\<rparr>)) else None)"
| "p_perform lib h (P_respond i r) =
     (if i < length (p_requests h) \<and> tasks_of (thread_of (rq_purpose (p_requests h ! i))) h = []
      then Some (respond i r h) else None)"
| "p_perform lib h (P_run th) =
     (case tasks_of th h of
        [] \<Rightarrow> None
      | t # ts \<Rightarrow> if ready t h then Some (run_task lib th t (set_tasks th ts h)) else None)"

fun p_perform_all :: "json_lib \<Rightarrow> polling \<Rightarrow> p_event list \<Rightarrow> polling option" where
  "p_perform_all lib h [] = Some h"
| "p_perform_all lib h (e # es) = (case p_perform lib h e of None \<Rightarrow> None | Some h' \<Rightarrow> p_perform_all lib h' es)"

lemma p_perform_step: "p_perform lib h e = Some h' \<Longrightarrow> polling_step lib h e h'"
  by (cases e)
    (auto simp: respond_def split: if_splits list.splits sum.splits ptask.splits intro: polling_step.intros)

lemma p_perform_reach:
  "p_perform_all lib h es = Some h' \<Longrightarrow> reach polling_init (polling_step lib) h \<Longrightarrow>
     reach polling_init (polling_step lib) h'"
  by (induction es arbitrary: h) (auto split: option.splits intro: reach_step p_perform_step)

text \<open>
  A session with own threads: the handshake is answered, two frames are sent and posted, and the
  transport is closed by its owner.
\<close>

definition p_scenario :: "p_event list" where
  "p_scenario =
     [P_connect ''http://h/x?a=1'', P_respond 0 (Response 200 ''0{}''), P_run Poll_thread, P_run Poll_thread,
      P_run Poll_thread, P_run Poll_thread, P_run Poll_thread, P_run Poll_thread, P_run Poll_thread, P_run Poll_thread,
      P_send (''4a'', False), P_send (''xy'', True), P_run Write_thread, P_respond 1 (Response 200 ''ok''),
      P_run Write_thread, P_close_call Caller_thread False, P_run Caller_thread]"

definition p_scenario_end :: polling where
  "p_scenario_end = the (p_perform_all sample_lib (polling_new False None) p_scenario)"

lemma p_scenario_reach: "reach polling_init (polling_step sample_lib) p_scenario_end"
proof -
  have "p_perform_all sample_lib (polling_new False None) p_scenario \<noteq> None" by code_simp
  moreover have "reach polling_init (polling_step sample_lib) (polling_new False None)"
    by (intro reach_init polling_init.intros)
  ultimately show ?thesis by (auto simp: p_scenario_end_def intro: p_perform_reach)
qed

section \<open>Properties\<close>

text \<open>
  C30. The application is told at most once that a polling connection is closed, whether the owner
  closes it, a poll or a write fails, or several of these happen at the same time on different
  threads; and it is told only if the transport has begun closing.
\<close>

theorem polling_close_reported_once:
  assumes "reach polling_init (polling_step lib) h"
  shows "cnt is_closer h + length (filter is_closed (p_log h)) \<le> (if p_closing h then 1 else 0)"
  using closes.sys.reachable_inv [OF assms] by (simp add: close_inv_def)

theorem polling_close_reported_once_witness:
  "cnt is_closer p_scenario_end + length (filter is_closed (p_log p_scenario_end)) \<le> (if p_closing p_scenario_end then 1 else 0) \<and>
   Was_closed ''closed'' \<in> set (p_log p_scenario_end)"
  by (intro conjI polling_close_reported_once [OF p_scenario_reach]) code_simp

text \<open>
  C31. Writes are serialised and ordered: the frames for which a POST request was started are, in
  order, an initial part of the frames accepted by \<^verbatim>\<open>send\<close>, and at most one of these requests is
  unanswered at any time, in both modes of the transport.
\<close>

theorem polling_posts_in_order:
  assumes "reach polling_init (polling_step lib) h"
  shows "prefix (posting h) (accepted h) \<and> writes h \<le> 1"
proof -
  have "prefix (posting h @ p_queue h) (accepted h)"
    using queue.sys.reachable_inv [OF assms] by (simp add: queue_inv_def)
  then have "prefix (posting h) (accepted h)" by (rule append_prefixD)
  moreover have "writes h \<le> 1"
    using single.sys.reachable_inv [OF assms] by (auto simp: single_inv_def split: if_splits)
  ultimately show ?thesis by simp
qed

theorem polling_posts_in_order_witness:
  "prefix (posting p_scenario_end) (accepted p_scenario_end) \<and>
   posting p_scenario_end = [(''4a'', False), (''xy'', True)]"
  using polling_posts_in_order [OF p_scenario_reach] by (intro conjI) (blast, code_simp)

text \<open>
  There is never more than one poll: at most one GET request is unanswered at any time, as the
  Engine.IO protocol demands of a polling session.
\<close>

theorem polling_single_poll:
  assumes "reach polling_init (polling_step lib) h"
  shows "gets h + cnt is_getting h \<le> 1"
  using single.sys.reachable_inv [OF assms] by (auto simp: single_inv_def split: if_splits)

theorem polling_single_poll_witness:
  "gets p_scenario_end + cnt is_getting p_scenario_end \<le> 1 \<and> gets p_scenario_end = 1"
  using polling_single_poll [OF p_scenario_reach] by (intro conjI) (blast, code_simp)

text \<open>
  Once the transport is closing and the message callbacks that had been started have run, no
  message is delivered any more, whatever responses still arrive.
\<close>

theorem polling_silent_after_close:
  assumes "p_closing h" and "cnt is_message_task h = 0" and "reach (\<lambda>v. v = h) (polling_step lib) h'"
  shows "filter is_message (p_log h') = filter is_message (p_log h)"
proof -
  from assms(3) have "drained (filter is_message (p_log h)) h'"
  proof (induction rule: reach.induct)
    case (reach_init s)
    then show ?case using assms(1,2) by (simp add: drained_def)
  next
    case (reach_step s e t)
    then show ?case by (rule_tac drained_step)
  qed
  then show ?thesis by (simp add: drained_def)
qed

theorem polling_silent_after_close_witness:
  "filter is_message (p_log (respond 0 (Response 200 ''4x'') p_scenario_end)) =
   filter is_message (p_log p_scenario_end)"
proof -
  have "p_closing p_scenario_end" "cnt is_message_task p_scenario_end = 0" by code_simp+
  moreover have "p_perform sample_lib p_scenario_end (P_respond 0 (Response 200 ''4x'')) \<noteq> None" by code_simp
  then have "p_perform sample_lib p_scenario_end (P_respond 0 (Response 200 ''4x'')) =
      Some (respond 0 (Response 200 ''4x'') p_scenario_end)" by (simp split: if_splits)
  from p_perform_step [OF this]
  have "reach (\<lambda>v. v = p_scenario_end) (polling_step sample_lib) (respond 0 (Response 200 ''4x'') p_scenario_end)"
    by (rule reach_step [OF reach_init, rotated]) simp
  ultimately show ?thesis by (rule polling_silent_after_close)
qed

text \<open>
  What is posted is what is delivered: if a response body consists of the bodies under which a
  sequence of frames is posted, joined by the separator, then the packets it is split into give
  exactly these frames, binary ones as binary and text ones as text.
\<close>

theorem polling_frames_roundtrip:
  assumes "\<forall>f \<in> set fs. postable f"
  shows "map packet_message (polling_split_payload (polling_join (map frame_body fs))) = map Some fs"
proof -
  have "polling_split_payload (polling_join (map frame_body fs)) = map frame_body fs"
    using assms postable_body by (intro split_join) auto
  then show ?thesis using assms packet_message_body by simp
qed

theorem polling_frames_roundtrip_witness:
  "map packet_message (polling_split_payload (polling_join (map frame_body [(''42[]'', False), (''b\<newline>'', True)]))) =
   map Some [(''42[]'', False), (''b\<newline>'', True)]"
  by (rule polling_frames_roundtrip) (simp add: postable_def record_separator_def char_of_eq_iff)
end
