(* ===== verification/Delivery.thy ===== *)
theory Delivery
  imports Client_System Http_Polling_Transport
begin

text \<open>
  The way of a packet through all components. Outwards: a socket hands the packet to the client,
  which encodes it with its parser and sends the frames through the Engine.IO connection to the
  transport, whose queue passes them to the network. Inwards: the connection takes the frames
  out of its messages, the parser assembles packets, and the client routes them to the sockets.
\<close>

section \<open>The parser of a client\<close>

text \<open>
  The two built-in parsers keep the interface \<open>parser_base\<close> when they are used through the client's
  \<^verbatim>\<open>parser_\<close>, so one set of laws serves both.
\<close>

fun initial_parser :: "parser_kind \<Rightarrow> parser" where
  "initial_parser Parser_json = Json_parser json_parser_new"
| "initial_parser Parser_msgpack = Msgpack_parser"

fun parser_ok :: "parser_kind \<Rightarrow> parser \<Rightarrow> bool" where
  "parser_ok Parser_json (Json_parser st) \<longleftrightarrow> json_parser_inv st"
| "parser_ok Parser_msgpack Msgpack_parser \<longleftrightarrow> True"
| "parser_ok kind ps \<longleftrightarrow> False"

fun wire_ok :: "parser_kind \<Rightarrow> json_lib \<Rightarrow> packet \<Rightarrow> bool" where
  "wire_ok Parser_json lib p \<longleftrightarrow> json_wire_ok lib p"
| "wire_ok Parser_msgpack lib p \<longleftrightarrow> msgpack_wire_ok lib p"

fun arrives_as :: "parser_kind \<Rightarrow> packet \<Rightarrow> packet" where
  "arrives_as Parser_json p = json_canon p"
| "arrives_as Parser_msgpack p = object_canon p"

lemma parser_encode_kind:
  "parser_ok kind ps \<Longrightarrow> parser_encode lib ps p = parser_encode lib (initial_parser kind) p"
  by (cases "(kind, ps)" rule: parser_ok.cases) (simp_all add: parser_encode_def)

lemma decode_all_json:
  "decode_all (parser_decode lib) (Json_parser st) fs =
     map_option (\<lambda>(st', out). (Json_parser st', out)) (decode_all (json_parser_decode lib) st fs)"
proof (induction fs arbitrary: st)
  case (Cons f fs)
  then show ?case
    by (cases f) (auto simp: parser_decode_def split: option.splits)
qed simp

lemma decode_all_msgpack:
  "decode_all (parser_decode lib) Msgpack_parser fs =
     map_option (\<lambda>(st', out). (Msgpack_parser, out)) (decode_all (msgpack_parser_decode lib) () fs)"
proof (induction fs)
  case (Cons f fs)
  then show ?case
    by (cases f) (auto simp: parser_decode_def split: option.splits)
qed simp

interpretation built_in: parser_base "parser_encode lib (initial_parser kind)" "parser_decode lib" "initial_parser kind"
  "parser_ok kind" "wire_ok kind lib" "arrives_as kind" for lib kind
proof (cases kind)
  case Parser_json
  show "parser_base (parser_encode lib (initial_parser kind)) (parser_decode lib) (initial_parser kind)
      (parser_ok kind) (wire_ok kind lib) (arrives_as kind)"
    unfolding Parser_json
  proof unfold_locales
    show "parser_ok Parser_json (initial_parser Parser_json)" by (simp add: json.fresh_inv)
    show "\<exists>st' out. parser_decode lib st pl b = Some (st', out) \<and> parser_ok Parser_json st'"
      if ok: "parser_ok Parser_json st" for st pl b
    proof -
      obtain q where q: "st = Json_parser q" "json_parser_inv q" using ok by (cases st) auto
      from json.decode_safe [OF q(2), of lib pl b] obtain q' out where
        "json_parser_decode lib q pl b = Some (q', out)" "json_parser_inv q'" by blast
      with q(1) show ?thesis by (simp add: parser_decode_def)
    qed
    show "\<exists>fs. parser_encode lib (initial_parser Parser_json) p = Inr fs" if "wire_ok Parser_json lib p" for p
      using that json.encode_ok [of lib p] by (simp add: parser_encode_def)
    show "decode_all (parser_decode lib) st fs = Some (initial_parser Parser_json, [arrives_as Parser_json p])"
      if "wire_ok Parser_json lib p" "parser_encode lib (initial_parser Parser_json) p = Inr fs" "parser_ok Parser_json st"
      for p fs st
      using that json.roundtrip [of lib p fs] by (cases st) (auto simp: parser_encode_def decode_all_json)
  qed
next
  case Parser_msgpack
  show "parser_base (parser_encode lib (initial_parser kind)) (parser_decode lib) (initial_parser kind)
      (parser_ok kind) (wire_ok kind lib) (arrives_as kind)"
    unfolding Parser_msgpack
  proof unfold_locales
    show "\<exists>st' out. parser_decode lib st pl b = Some (st', out) \<and> parser_ok Parser_msgpack st'"
      if "parser_ok Parser_msgpack st" for st pl b
      using that msgpack.decode_safe [of lib "()" pl b] by (cases st) (auto simp: parser_decode_def)
    show "\<exists>fs. parser_encode lib (initial_parser Parser_msgpack) p = Inr fs" if "wire_ok Parser_msgpack lib p" for p
      using that msgpack.encode_ok [of lib p] by (simp add: parser_encode_def)
    show "decode_all (parser_decode lib) st fs = Some (initial_parser Parser_msgpack, [arrives_as Parser_msgpack p])"
      if "wire_ok Parser_msgpack lib p" "parser_encode lib (initial_parser Parser_msgpack) p = Inr fs" "parser_ok Parser_msgpack st"
      for p fs st
      using that msgpack.roundtrip [of lib p fs "()"] by (cases st) (auto simp: parser_encode_def decode_all_msgpack)
  qed simp
qed

text \<open>A decoder has delivered an initial part of the packets when it has seen an initial part of the frames.\<close>

lemma decode_all_prefix:
  assumes "prefix fs gs" and "decode_all dec st gs = Some (st', ps)"
  obtains st1 qs where "decode_all dec st fs = Some (st1, qs)" "prefix qs ps"
proof -
  from assms(1) obtain hs where "gs = fs @ hs" by (auto simp: prefix_def)
  with assms(2) obtain st1 qs rs where "decode_all dec st fs = Some (st1, qs)" "ps = qs @ rs"
    by (auto simp: decode_all_append split: option.splits)
  then show thesis using that by auto
qed

section \<open>Outwards\<close>

text \<open>
  What is read off the log: the packets the sockets handed over, the frames handed to the transport
  of a connection, and of these the payloads of messages, which is what a receiver passes on to its
  parser. A packet that was handed over but not yet sent is a pending task.
\<close>

fun handed_of :: "cobs \<Rightarrow> packet list" where
  "handed_of (Socket_obs ns (Sent p)) = [p]"
| "handed_of (Socket_obs ns (Sent_buffered p)) = [p]"
| "handed_of (Socket_obs ns (Sent_reply n p)) = [p]"
| "handed_of ob = []"

fun transport_frames :: "nat \<Rightarrow> cobs \<Rightarrow> frame list" where
  "transport_frames n (Engine_obs m (Transport_send w k)) = (if m = n then [(w, k)] else [])"
| "transport_frames n ob = []"

definition payload_of :: "frame \<Rightarrow> frame list" where
  "payload_of f =
     (case f of
        (w, True) \<Rightarrow> [(w, True)]
      | (w, False) \<Rightarrow> (case w of [] \<Rightarrow> [] | c # rest \<Rightarrow> if c = CHR ''4'' then [(rest, False)] else []))"

fun packets_of :: "ctask \<Rightarrow> packet list" where
  "packets_of (Send_packet p) = [p]"
| "packets_of k = []"

definition handed :: "cobs list \<Rightarrow> packet list" where
  "handed obs = concat (map handed_of obs)"

definition sent_frames :: "nat \<Rightarrow> cobs list \<Rightarrow> frame list" where
  "sent_frames n obs = concat (map (transport_frames n) obs)"

definition payloads :: "frame list \<Rightarrow> frame list" where
  "payloads fs = concat (map payload_of fs)"

definition task_packets :: "ctask list \<Rightarrow> packet list" where
  "task_packets ks = concat (map packets_of ks)"

lemma history_append [simp]:
  "handed (xs @ ys) = handed xs @ handed ys" "handed [] = []"
  "sent_frames n (xs @ ys) = sent_frames n xs @ sent_frames n ys" "sent_frames n [] = []"
  "payloads (fs @ gs) = payloads fs @ payloads gs" "payloads [] = []"
  "task_packets (ks @ ls) = task_packets ks @ task_packets ls" "task_packets [] = []"
  "task_packets (k # ks) = packets_of k @ task_packets ks"
  "handed (ob # obs) = handed_of ob @ handed obs"
  "sent_frames n (ob # obs) = transport_frames n ob @ sent_frames n obs"
  by (simp_all add: handed_def sent_frames_def payloads_def task_packets_def)

text \<open>What a connection does besides sending and passing on messages.\<close>

fun control :: "eio_out \<Rightarrow> bool" where
  "control (Frame_out pl bin) = False"
| "control (Transport_send w k) = False"
| "control ob = True"

lemma control_call_if [simp]: "list_all control (call_if b ob) \<longleftrightarrow> (b \<longrightarrow> control ob)"
  by (simp add: call_if_def)

lemma control_turn: "list_all control (snd (hb_turn t s))"
  by (simp add: hb_turn_def split: hb_state.split)

lemma control_stop: "list_all control (snd (stop_heartbeat_timer h s))"
  using control_turn by (simp add: stop_heartbeat_timer_def Let_def)

lemma control_close: "list_all control (snd (eio_close s))"
  by (simp add: eio_close_def Let_def)

lemma control_sync: "list_all control (snd (eio_sync_close h s))"
  using control_stop [of h "fst (eio_close s)"] control_close [of s]
  by (simp add: eio_sync_close_def split_def)

lemma control_url: "list_all control (fst (snd (eio_open_url url s)))"
  by (simp add: eio_open_url_def Let_def)

lemma control_open: "list_all control (fst (snd (handle_open_packet lib t rest s)))"
proof -
  obtain s1 o1 where st: "stop_heartbeat_timer False s = (s1, o1)" by (cases "stop_heartbeat_timer False s")
  have "list_all control o1" using control_stop [of False s] st by simp
  moreover have "list_all control (snd (start_heartbeat_timer x))" for x by (simp add: start_heartbeat_timer_def)
  ultimately show ?thesis
    by (simp add: handle_open_packet_def st Let_def split_def split: option.split sum.split)
qed

lemma control_payload: "list_all control outs \<Longrightarrow> sent_frames n (engine_obs m outs) = []"
proof (induction outs)
  case (Cons ob outs)
  then show ?case by (cases ob) (simp_all add: engine_obs_def)
qed (simp add: engine_obs_def)

lemma control_frames: "list_all control outs \<Longrightarrow> List.map_filter (\<lambda>ob. case ob of Frame_out pl bin \<Rightarrow> Some (pl, bin) | _ \<Rightarrow> None) outs = []"
  by (induction outs) (auto simp: List.map_filter_def split: eio_out.splits)

text \<open>The frames a connection passes on when it receives a message are the payload of that message.\<close>

definition passed_on :: "eio_out list \<Rightarrow> frame list" where
  "passed_on outs = List.map_filter (\<lambda>ob. case ob of Frame_out pl bin \<Rightarrow> Some (pl, bin) | _ \<Rightarrow> None) outs"

lemma message_payload:
  assumes "has_on_frame s"
  shows "passed_on (fst (snd (handle_transport_message lib t w k s))) = payload_of (w, k)"
proof -
  have stop: "passed_on (snd (stop_heartbeat_timer False x)) = []" for x
    using control_frames [OF control_stop] by (simp add: passed_on_def)
  have op: "passed_on (fst (snd (handle_open_packet lib t rest x))) = []" for rest x
    using control_frames [OF control_open] by (simp add: passed_on_def)
  have app: "passed_on (xs @ ys) = passed_on xs @ passed_on ys" for xs ys
    by (simp add: passed_on_def map_filter_def)
  have one: "passed_on (call_if b ob) = (if b then case ob of Frame_out pl bin \<Rightarrow> [(pl, bin)] | _ \<Rightarrow> [] else [])" for b ob
    by (cases ob) (simp_all add: passed_on_def call_if_def map_filter_def)
  show ?thesis
    using assms
    by (cases k; cases w)
      (auto simp: handle_transport_message_def payload_of_def op app one stop split_def, auto simp: passed_on_def)
qed

text \<open>What the transport is sent besides the packets of the client are answers to pings, which carry no payload.\<close>

lemma event_payload:
  assumes "eio_step lib t e s = (s', outs)" and "transport_event e"
  shows "payloads (sent_frames n (engine_obs m outs)) = []"
proof -
  have ping: "payloads (sent_frames n (engine_obs m (call_if b (Transport_send ''3'' False)))) = []" for b
    by (simp add: engine_obs_def call_if_def payloads_def payload_of_def)
  have frame: "sent_frames n (engine_obs m (call_if b (Frame_out pl bin))) = []" for b pl bin
    by (simp add: engine_obs_def call_if_def)
  have app: "sent_frames n (engine_obs m (xs @ ys)) = sent_frames n (engine_obs m xs) @ sent_frames n (engine_obs m ys)" for xs ys
    by (simp add: engine_obs_def)
  note quiet = control_payload [OF control_stop] control_payload [OF control_turn]
    control_payload [OF control_open] control_payload [of "call_if _ _"]
  show ?thesis
  proof (cases e)
    case (E_message pl bin)
    then have o: "outs = fst (snd (handle_transport_message lib t pl bin s))"
      using assms(1) by (auto split: prod.splits)
    show ?thesis
      unfolding o
      by (cases bin; cases pl)
        (simp_all add: handle_transport_message_def split_def quiet ping frame app, simp_all add: engine_obs_def)
  next
    case (E_transport_close h reason)
    then have o: "outs = snd (handle_transport_close (h \<and> hb s = Hb_exit) reason s)" using assms(1) by simp
    show ?thesis unfolding o by (simp add: handle_transport_close_def split_def quiet app)
  next
    case (E_transport_error msg)
    then have o: "outs = handle_transport_error msg s" using assms(1) by auto
    show ?thesis unfolding o by (simp add: handle_transport_error_def quiet)
  next
    case E_heartbeat
    then have o: "outs = snd (hb_turn t s)" using assms(1) by simp
    show ?thesis unfolding o by (simp add: quiet)
  qed (use assms in simp_all)
qed

lemma task_packets_empty: "task_packets ks = [] \<longleftrightarrow> (\<forall>k \<in> set ks. packets_of k = [])"
  by (simp add: task_packets_def)

lemma incoming_packets: "incoming k \<Longrightarrow> packets_of k = []"
  by (cases k) auto

lemma after_packets [simp]: "task_packets (after_install n why) = []" "task_packets (after_refusal why) = []"
  by (cases why; simp)+

lemma bound_packets [simp]: "task_packets (bind_engineio_callbacks n outs) = []"
  using bound_callback_incoming(1) incoming_packets by (auto simp: task_packets_empty)

lemma socket_packets [simp]:
  "task_packets (map (On_socket ns) ks) = []" "task_packets (map (\<lambda>(ns, s). On_socket ns t) m) = []"
  "task_packets (concat (map (\<lambda>(ns, s). [On_socket ns t, Close_disconnect ns]) m)) = []"
  by (auto simp: task_packets_empty)

lemma obs_packets [simp]: "handed (map (Socket_obs ns) obs) = task_packets (concat (map obs_tasks obs))"
proof (induction obs)
  case (Cons ob obs)
  then show ?case by (cases ob) simp_all
qed simp

lemma handed_engine [simp]: "handed (engine_obs n outs) = []"
  by (induction outs) (simp_all add: engine_obs_def)

lemma sent_socket [simp]: "sent_frames n (map (Socket_obs ns) obs) = []"
  by (induction obs) simp_all

lemma connecting_failed_quiet:
  assumes "connecting_failed why e c = Some (c', new, ob, sp)"
  shows "handed ob = [] \<and> task_packets new = [] \<and> sent_frames n ob = []"
  using assms by (cases why) (auto simp: continue_with_def observed_def)

lemma open_engine_quiet:
  assumes "open_engine lib m why c = Some (c', new, ob, sp)"
  shows "handed ob = [] \<and> task_packets new = [] \<and> sent_frames n ob = []"
proof (cases "build_engineio_url (reason_uri why c) (engineio_path (options c)) (opt_query (options c)) (reason_transport why c)")
  case (Inl e)
  then show ?thesis using assms connecting_failed_quiet [of why e c c' new ob sp n] by (simp add: open_engine_def)
next
  case (Inr url)
  obtain e' outs ex where o: "eio_open_url url (engine (engines c ! m)) = (e', outs, ex)"
    by (cases "eio_open_url url (engine (engines c ! m))")
  then have "sent_frames n (engine_obs m outs) = []"
    using control_payload [OF control_url [of url "engine (engines c ! m)"]] by simp
  moreover have "ob = engine_obs m outs \<and> new = after_refusal why" if "ex = None"
    using assms Inr o that by (simp add: open_engine_def observed_def)
  moreover have "connecting_failed why e (set_engine m e' c) = Some (c', new, ob, sp)" if "ex = Some e" for e
    using assms Inr o that by (simp add: open_engine_def)
  ultimately show ?thesis using connecting_failed_quiet by (cases ex) auto
qed

text \<open>A section sends a packet, or sends no payload and leaves to its thread the packets it handed over.\<close>

lemma section_sends:
  assumes e: "cexec x k c = Some (c', new, ob, sp)"
  obtains (send) p n fs where "k = Send_packet p" "current c = Some n" "parser_encode (ctx_lib x) (parser_state c) p = Inr fs"
      "new = []" "c' = c" "sp = None"
      "ob = engine_obs n (concat (map (\<lambda>(pl, bin). eio_send pl bin (engine (engines c ! n))) fs))"
  | (quiet) "handed ob = task_packets new" "\<And>n. payloads (sent_frames n ob) = []"
proof (cases "\<exists>p n. k = Send_packet p \<and> current c = Some n")
  case True
  then obtain p n where k: "k = Send_packet p" and n: "current c = Some n" by blast
  then obtain fs where fs: "parser_encode (ctx_lib x) (parser_state c) p = Inr fs"
    using e by (cases "parser_encode (ctx_lib x) (parser_state c) p") (simp_all add: send_packet_def)
  from e k n fs show thesis by (intro send [OF k n fs]) (auto simp: send_packet_def observed_def)
next
  case False
  have "handed ob = task_packets new \<and> (\<forall>n. payloads (sent_frames n ob) = [])"
  proof (cases k)
    case (On_socket ns t)
    then show ?thesis using e
      by (auto elim!: on_socket_cases)
  next
    case (Open_engine n why)
    then show ?thesis using e open_engine_quiet [of "ctx_lib x" n why c c' new ob sp] by simp
  next
    case (Ensure_engineio why)
    then show ?thesis using e connecting_failed_quiet [of why _ c c' new ob sp]
      by (auto simp: ensure_engineio_def continue_with_def split: sum.splits)
  next
    case (Engine_close n)
    then show ?thesis using e control_payload [OF control_close]
      by (auto simp: engine_close_def observed_def split_def)
  next
    case (Engine_sync_close n)
    then show ?thesis using e control_payload [OF control_sync]
      by (auto simp: engine_sync_close_def observed_def split_def)
  next
    case (On_frame pl bin)
    then show ?thesis using e
      by (auto simp: on_engineio_frame_def continue_with_def split: if_splits option.splits)
  qed (use e False in \<open>auto simp: client_sections Let_def task_packets_empty after_packets split: client_splits\<close>)
  then show thesis using quiet by blast
qed

lemma section_parser:
  assumes e: "cexec x k c = Some (c', new, ob, sp)" and "parser_ok kind (parser_state c)"
  shows "parser_ok kind (parser_state c')"
proof (cases "\<exists>pl bin. k = On_frame pl bin")
  case True
  then obtain pl bin where k: "k = On_frame pl bin" by blast
  from built_in.decode_safe [OF assms(2), of "ctx_lib x" pl bin] obtain ps out where
    "parser_decode (ctx_lib x) (parser_state c) pl bin = Some (ps, out)" "parser_ok kind ps" by blast
  then show ?thesis
    using e k by (auto simp: on_engineio_frame_def continue_with_def split: if_splits option.splits)
next
  case False
  have "parser_state c' = parser_state c"
    using e
  proof (cases rule: section_cases)
    case plain
    then show ?thesis using e False by (cases k) (auto simp: client_sections Let_def split: client_splits)
  qed auto
  then show ?thesis using assms(2) by simp
qed

lemma sent_payloads:
  assumes "eio_open s" and "has_transport s"
  shows "payloads (sent_frames m (engine_obs n (concat (map (\<lambda>(pl, bin). eio_send pl bin s) fs)))) = (if m = n then fs else [])"
proof (induction fs)
  case (Cons f fs)
  obtain pl bin where "f = (pl, bin)" by (cases f)
  then show ?case
    using Cons assms by (cases bin) (auto simp: eio_send_def engine_obs_def payloads_def payload_of_def)
qed (simp add: engine_obs_def)

lemma unsent_payloads:
  assumes "\<not> (eio_open s \<and> has_transport s)"
  shows "sent_frames m (engine_obs n (concat (map (\<lambda>(pl, bin). eio_send pl bin s) fs))) = []"
proof -
  have none: "concat (map (\<lambda>(pl, bin). eio_send pl bin s) fs) = []" using assms by (auto simp: eio_send_def)
  show ?thesis unfolding none by (simp add: engine_obs_def)
qed

definition frames_of :: "client_options \<Rightarrow> json_lib \<Rightarrow> packet \<Rightarrow> frame list" where
  "frames_of opts lib p = projr (parser_encode lib (initial_parser (opt_parser opts)) p)"

definition delivery_inv :: "client_options \<Rightarrow> json_lib \<Rightarrow> csystem \<Rightarrow> bool" where
  "delivery_inv opts lib S \<longleftrightarrow> parser_ok (opt_parser opts) (parser_state (cl S)) \<and>
     (\<forall>n. \<exists>ps. payloads (sent_frames n (clog S)) = concat (map (frames_of opts lib) ps) \<and>
        mset ps + mset (task_packets (concat (threads S))) \<subseteq># mset (handed (clog S)))"

lemma delivery_frame:
  assumes "delivery_inv opts lib S" and "parser_state (cl S') = parser_state (cl S)"
    and "clog S' = clog S @ obs" and "handed obs = []" and "\<And>n. payloads (sent_frames n obs) = []"
    and "mset (task_packets (concat (threads S'))) = mset (task_packets (concat (threads S)))"
  shows "delivery_inv opts lib S'"
  using assms by (simp add: delivery_inv_def)

lemma mset_packets_update:
  assumes "i < length T"
  shows "mset (task_packets (concat (T[i := ks]))) + mset (task_packets (T ! i)) =
     mset (task_packets (concat T)) + mset (task_packets ks)"
proof -
  have "concat T = concat (take i T) @ T ! i @ concat (drop (Suc i) T)"
    using arg_cong [OF id_take_nth_drop [OF assms], of concat] by simp
  moreover have "concat (T[i := ks]) = concat (take i T) @ ks @ concat (drop (Suc i) T)"
    using assms by (simp add: upd_conv_take_nth_drop)
  ultimately show ?thesis by simp
qed

lemma push_packets:
  assumes "i < length T" and "task_packets ts = []"
  shows "mset (task_packets (concat (push_on i ts T))) = mset (task_packets (concat T))"
  using mset_packets_update [OF assms(1), of "ts @ T ! i"] assms(2) by (simp add: push_on_def)

text \<open>Sent and pending packets stay within those handed over.\<close>

lemma budget:
  fixes A :: "'a multiset"
  assumes "A + U \<subseteq># H" and "V + K = U + N"
  shows "A + V \<subseteq># H + N" and "N = {#} \<Longrightarrow> A + K + V \<subseteq># H"
proof -
  have "A + V + K = A + U + N" using assms(2) by (simp add: add.assoc)
  moreover have "A + U + N \<subseteq># H + N" using assms(1) by (rule subset_mset.add_right_mono)
  ultimately have all: "A + V + K \<subseteq># H + N" by (simp only:)
  then show "A + V \<subseteq># H + N" using mset_subset_eq_add_left subset_mset.order_trans by blast
  show "A + K + V \<subseteq># H" if "N = {#}" using all that by (simp add: ac_simps)
qed

lemma delivery_section:
  assumes I: "delivery_inv opts lib S" and i: "i < length (threads S)" "threads S ! i = k # ks"
    and x: "ctx_lib x = lib" and e: "cexec x k (cl S) = Some (c', new, ob, sp)"
  shows "delivery_inv opts lib (S\<lparr>cl := c', threads := (threads S)[i := new @ ks] @ spawned sp, clog := clog S @ ob\<rparr>)"
proof -
  let ?T = "(threads S)[i := new @ ks] @ spawned sp" and ?L = "clog S @ ob"
  have P: "parser_ok (opt_parser opts) (parser_state (cl S))" using I by (simp add: delivery_inv_def)
  have sp: "task_packets (concat (spawned sp)) = []"
    using section_spawns [OF e] by (cases sp) (auto simp: spawned_def)
  have T: "mset (task_packets (concat ?T)) + mset (packets_of k) =
      mset (task_packets (concat (threads S))) + mset (task_packets new)"
    using mset_packets_update [OF i(1), of "new @ ks"] i(2) sp by simp
  have "\<exists>ps. payloads (sent_frames n ?L) = concat (map (frames_of opts lib) ps) \<and>
      mset ps + mset (task_packets (concat ?T)) \<subseteq># mset (handed ?L)" for n
  proof -
    from I obtain ps where ps: "payloads (sent_frames n (clog S)) = concat (map (frames_of opts lib) ps)"
      "mset ps + mset (task_packets (concat (threads S))) \<subseteq># mset (handed (clog S))" by (auto simp: delivery_inv_def)
    note B = budget [OF ps(2) T]
    from e show ?thesis
    proof (cases rule: section_sends)
      case (send p m fs)
      have fs: "fs = frames_of opts lib p"
        using send(3) parser_encode_kind [OF P] by (simp add: frames_of_def x)
      let ?s = "engine (engines (cl S) ! m)"
      have H: "handed ?L = handed (clog S)" "task_packets new = []" "packets_of k = [p]" using send by simp_all
      show ?thesis
      proof (cases "eio_open ?s \<and> has_transport ?s \<and> n = m")
        case True
        then have "payloads (sent_frames n ?L) = concat (map (frames_of opts lib) (ps @ [p]))"
          using ps(1) send(7) fs sent_payloads [of ?s n m fs] by simp
        moreover have "mset (ps @ [p]) + mset (task_packets (concat ?T)) \<subseteq># mset (handed ?L)"
          using B(2) unfolding H by simp
        ultimately show ?thesis by blast
      next
        case False
        then have "payloads (sent_frames n ob) = []"
          using send(7) sent_payloads [of ?s n m fs] unsent_payloads [of ?s n m fs]
          by (cases "eio_open ?s \<and> has_transport ?s") simp_all
        then have "payloads (sent_frames n ?L) = concat (map (frames_of opts lib) ps)" using ps(1) by simp
        moreover have "mset ps + mset (task_packets (concat ?T)) \<subseteq># mset (handed ?L)"
          using B(1) unfolding H by simp
        ultimately show ?thesis by blast
      qed
    next
      case quiet
      have "mset (handed ?L) = mset (handed (clog S)) + mset (task_packets new)" by (simp add: quiet(1))
      then show ?thesis using B(1) ps(1) quiet(2) by (intro exI [of _ ps]) (simp only: history_append append_Nil2 simp_thms)
    qed
  qed
  then show ?thesis using section_parser [OF e P] by (simp add: delivery_inv_def)
qed

lemma delivery_step:
  assumes I: "delivery_inv opts lib S" and "client_step lib rnd S e S'"
  shows "delivery_inv opts lib S'"
  using assms(2)
proof cases
  case (c_section i k ks u c' new ob sp)
  then show ?thesis using delivery_section [OF I c_section(3,4) _ c_section(5)] by (simp add: context_for_def)
next
  case (c_call k i)
  then show ?thesis
    using push_packets [of i "threads S" "[k]"] incoming_packets [OF user_incoming]
    by (intro delivery_frame [OF I, where obs = "[]"]) simp_all
next
  case (c_transport i n e e' outs)
  then show ?thesis
    using push_packets [of i "threads S" "bind_engineio_callbacks n outs"] event_payload
    by (intro delivery_frame [OF I, where obs = "engine_obs n outs"]) simp_all
next
  case (c_turn i ns s sc sc')
  then show ?thesis
    using push_packets [of i "threads S" "map (On_socket ns) (claimed (worker sc'))"]
    by (intro delivery_frame [OF I, where obs = "[]"]) (simp_all add: set_scheduler_def)
next
  case (c_destroy n c' ob)
  have "ob = engine_obs n (snd (eio_sync_close False (engine (engines (cl S) ! n))))" "parser_state c' = parser_state (cl S)"
    using c_destroy by (auto simp: destroy_def split_def)
  then show ?thesis
    using c_destroy control_payload [OF control_sync]
    by (intro delivery_frame [OF I, where obs = ob]) simp_all
qed (auto intro!: delivery_frame [OF I, where obs = "[]"] simp: set_scheduler_def)

lemma delivery_init:
  assumes "client_init opts S" and "parser_factory opts = None"
  shows "delivery_inv opts lib S"
proof -
  obtain c where c: "client_new opts = Inr c" "cl S = c" "clog S = []" "threads S = []"
    using assms(1) by (auto simp: client_init.simps)
  then have "parser_state c = initial_parser (opt_parser opts)"
    using assms(2) by (cases "opt_parser opts") (auto simp: client_new_def)
  then show ?thesis using c built_in.fresh_inv by (simp add: delivery_inv_def)
qed

lemma reach_delivery:
  assumes "reach (client_init opts) (client_step lib rnd) S" and "parser_factory opts = None"
  shows "delivery_inv opts lib S"
  using assms(1) by (induction rule: reach.induct) (auto intro: delivery_init [OF _ assms(2)] delivery_step)

section \<open>Transports keep the order\<close>

text \<open>
  What the client relies on from a transport: the frames passed to the network are an initial part
  of the frames that were handed to it. Then a receiver's parser sees whole packets, in order.
\<close>

locale ordered_transport =
  fixes init :: "'s \<Rightarrow> bool" and step :: "'s \<Rightarrow> 'e \<Rightarrow> 's \<Rightarrow> bool" and taken passed :: "'s \<Rightarrow> frame list"
  assumes in_order: "reach init step s \<Longrightarrow> prefix (passed s) (taken s)"
begin

lemma packets_arrive:
  assumes s: "reach init step s" and S: "reach (client_init opts) (client_step lib rnd) S"
    and handed_over: "prefix (taken s) (sent_frames n (clog S))"
    and "parser_factory opts = None" and ok: "\<forall>p \<in> set (handed (clog S)). wire_ok (opt_parser opts) lib p"
  shows "\<exists>ps st. decode_all (parser_decode lib) (initial_parser (opt_parser opts)) (payloads (passed s)) =
     Some (st, map (arrives_as (opt_parser opts)) ps) \<and> mset ps \<subseteq># mset (handed (clog S))"
proof -
  let ?k = "opt_parser opts"
  from reach_delivery [OF S assms(4)] obtain ps where
    ps: "payloads (sent_frames n (clog S)) = concat (map (frames_of opts lib) ps)"
      "mset ps + mset (task_packets (concat (threads S))) \<subseteq># mset (handed (clog S))"
    by (auto simp: delivery_inv_def)
  have sub: "mset ps \<subseteq># mset (handed (clog S))"
    using ps(2) mset_subset_eq_add_left subset_mset.order_trans by blast
  then have oks: "\<forall>p \<in> set ps. wire_ok ?k lib p" using ok set_mset_mono by fastforce
  then have enc: "\<forall>p \<in> set ps. parser_encode lib (initial_parser ?k) p = Inr (frames_of opts lib p)"
    using built_in.encode_ok [of ?k lib] by (fastforce simp: frames_of_def)
  have all: "\<exists>st. decode_all (parser_decode lib) (initial_parser ?k) (concat (map (frames_of opts lib) ps)) =
      Some (st, map (arrives_as ?k) ps)"
    using built_in.decode_stream [OF oks enc built_in.fresh_inv] by (cases "ps = []") auto
  have "prefix (payloads (passed s)) (payloads (sent_frames n (clog S)))"
    using in_order [OF s] handed_over by (auto simp: prefix_def)
  then obtain st qs where "decode_all (parser_decode lib) (initial_parser ?k) (payloads (passed s)) = Some (st, qs)"
    "prefix qs (map (arrives_as ?k) ps)"
    using all ps(1) by (metis decode_all_prefix)
  moreover from this(2) have "qs = map (arrives_as ?k) (take (length qs) ps)"
    by (metis append_eq_conv_conj prefix_def take_map)
  moreover have "mset (take (length qs) ps) \<subseteq># mset (handed (clog S))"
    using sub by (metis append_take_drop_id mset_append mset_subset_eq_add_left subset_mset.order_trans)
  ultimately show ?thesis by (metis (no_types))
qed

end

interpretation websocket: ordered_transport ws_init ws_step submitted started
  by unfold_locales (use ws_write.reachable_inv prefix_order.trans in \<open>auto simp: write_inv_def\<close>)

interpretation polling: ordered_transport polling_init "polling_step lib" accepted posting for lib
proof unfold_locales
  show "prefix (posting h) (accepted h)" if "reach polling_init (polling_step lib) h" for h
    using queue.sys.reachable_inv [OF that] by (auto simp: queue_inv_def intro: append_prefixD)
qed

section \<open>Inwards\<close>

text \<open>Frames handed to the client one after the other, with the tasks they lead to.\<close>

fun receive :: "json_lib \<Rightarrow> frame list \<Rightarrow> client \<Rightarrow> (client \<times> ctask list) option" where
  "receive lib [] c = Some (c, [])"
| "receive lib ((pl, bin) # fs) c =
     (case on_engineio_frame lib pl bin c of
        None \<Rightarrow> None
      | Some (c', ts, ob, sp) \<Rightarrow> map_option (\<lambda>(c'', us). (c'', ts @ us)) (receive lib fs c'))"

definition routed :: "client \<Rightarrow> packet \<Rightarrow> ctask list" where
  "routed c p = (case map_of (sockets c) (pk_nsp p) of None \<Rightarrow> [] | Some s \<Rightarrow> map (On_socket (pk_nsp p)) (route p))"

lemma receive_decode:
  assumes "sockets_owner c = None" and "decode_all (parser_decode lib) (parser_state c) fs = Some (st, ps)"
  shows "receive lib fs c = Some (c\<lparr>parser_state := st\<rparr>, concat (map (routed c) ps))"
  using assms
proof (induction fs arbitrary: c ps)
  case (Cons f fs)
  obtain pl bin where f: "f = (pl, bin)" by (cases f)
  from Cons.prems(2) f obtain st1 out qs where
    d: "parser_decode lib (parser_state c) pl bin = Some (st1, out)"
    and rest: "decode_all (parser_decode lib) st1 fs = Some (st, qs)"
    and ps: "ps = (case out of None \<Rightarrow> qs | Some p \<Rightarrow> p # qs)" by (auto split: option.splits)
  let ?c = "c\<lparr>parser_state := st1\<rparr>"
  have o: "on_engineio_frame lib pl bin c = Some (?c, (case out of None \<Rightarrow> [] | Some p \<Rightarrow> routed c p), [], None)"
    using Cons.prems(1) d by (cases out) (auto simp: on_engineio_frame_def continue_with_def routed_def)
  have "receive lib fs ?c = Some (?c\<lparr>parser_state := st\<rparr>, concat (map (routed ?c) qs))"
    using Cons.IH [of ?c qs] Cons.prems(1) rest by simp
  moreover have "routed ?c = routed c" by (simp add: routed_def fun_eq_iff)
  ultimately show ?case using o f ps by (cases out) simp_all
qed simp

lemma event_arrival:
  assumes "ns \<noteq> []"
  shows "route (arrives_as kind ((event_packet ns event (JArray args))\<lparr>pk_id := i\<rparr>)) =
      [Dispatch_event event (JArray (map num_norm args)) (if 0 \<le> i then i else - 1)]"
    and "pk_nsp (arrives_as kind ((event_packet ns event (JArray args))\<lparr>pk_id := i\<rparr>)) = ns"
  using assms
  by (cases kind;
      simp add: route_def event_packet_def default_packet_def json_canon_def object_canon_def encoded_type_def
        packet_type_of_int_def)+

section \<open>Properties\<close>


definition ws_connected :: "ws_event list" where
  "ws_connected =
     [Connect_url ''ws://h:80'', Run_posted, Complete 0 Success, Complete 0 Success, Complete 0 Success,
      Continue, Continue, Continue, Send_frame (''40'', False), Run_posted]"

definition ws_sent :: websocket where
  "ws_sent = the (ws_perform_all (websocket_new None) ws_connected)"

lemma ws_sent_reach: "reach ws_init ws_step ws_sent"
proof -
  have "ws_perform_all (websocket_new None) ws_connected \<noteq> None" by code_simp
  moreover have "reach ws_init ws_step (websocket_new None)" by (intro reach_init ws_init.intros)
  ultimately show ?thesis by (auto simp: ws_sent_def intro: ws_perform_reach)
qed


text \<open>
  The same over HTTP polling: of the frames the transport accepted, whatever part has been posted
  is decoded by the receiver to complete packets, each as one of the sockets handed it over, whether
  the transport has its own threads or runs on a strand, and whatever the requests are answered with.
\<close>

theorem packets_reach_server_by_polling:
  assumes "reach (client_init opts) (client_step lib rnd) S" and "parser_factory opts = None"
    and "\<forall>p \<in> set (handed (clog S)). wire_ok (opt_parser opts) lib p"
    and "reach polling_init (polling_step lib) h" and "prefix (accepted h) (sent_frames n (clog S))"
  shows "\<exists>ps st. decode_all (parser_decode lib) (initial_parser (opt_parser opts)) (payloads (posting h)) =
     Some (st, map (arrives_as (opt_parser opts)) ps) \<and> mset ps \<subseteq># mset (handed (clog S))"
  by (rule polling.packets_arrive [OF assms(4,1,5,2,3)])

definition polling_connected :: "p_event list" where
  "polling_connected =
     [P_connect ''http://h:80'', P_respond 0 (Response 200 ''0{}''), P_run Poll_thread, P_run Poll_thread,
      P_send (''40'', False), P_run Write_thread]"

definition polling_sent :: polling where
  "polling_sent = the (p_perform_all sample_lib (polling_new False None) polling_connected)"

lemma polling_sent_reach: "reach polling_init (polling_step sample_lib) polling_sent"
proof -
  have "p_perform_all sample_lib (polling_new False None) polling_connected \<noteq> None" by code_simp
  moreover have "reach polling_init (polling_step sample_lib) (polling_new False None)"
    by (intro reach_init polling_init.intros)
  ultimately show ?thesis by (auto simp: polling_sent_def intro: p_perform_reach)
qed

theorem packets_reach_server_by_polling_witness:
  "(\<exists>ps st. decode_all (parser_decode sample_lib) (initial_parser Parser_json) (payloads (posting polling_sent)) =
      Some (st, map (arrives_as Parser_json) ps) \<and> mset ps \<subseteq># mset (handed (clog (after_events []))))
   \<and> posting polling_sent = [(''40'', False)]"
proof
  have "handed (clog (after_events [])) = [default_packet\<lparr>pk_type := Connect\<rparr>]" by code_simp
  then have "\<forall>p \<in> set (handed (clog (after_events []))). wire_ok (opt_parser retry_options) sample_lib p"
    by (simp add: retry_options_def default_options_def json_wire_ok_def default_packet_def wire_nsp_def int_max_def
        wire_attachments_def wire_data_def may_carry_attachments_def)
  moreover have "accepted polling_sent = sent_frames 0 (clog (after_events []))" by code_simp
  then have "prefix (accepted polling_sent) (sent_frames 0 (clog (after_events [])))" by simp
  moreover have "parser_factory retry_options = None" "opt_parser retry_options = Parser_json"
    by (simp_all add: retry_options_def default_options_def)
  ultimately show "\<exists>ps st. decode_all (parser_decode sample_lib) (initial_parser Parser_json) (payloads (posting polling_sent)) =
      Some (st, map (arrives_as Parser_json) ps) \<and> mset ps \<subseteq># mset (handed (clog (after_events [])))"
    using packets_reach_server_by_polling [OF open_reach(1) _ _ polling_sent_reach] by metis
  show "posting polling_sent = [(''40'', False)]" by code_simp
qed

text \<open>
  C7. An event arrives as it was emitted. Take the packet that \<^verbatim>\<open>emit\<close> builds for an event with any list
  of arguments, encoded by either parser into frames, sent by an open connection as messages, taken
  out of the messages by the receiving connection and handed to the receiving client, whatever its
  parser had buffered. The client dispatches exactly one event to the socket of the namespace, with
  the same name, the same arguments (integers as the library reads them) and the same
  acknowledgement id, and its parser is idle again.
\<close>

theorem emitted_event_is_dispatched:
  assumes "wire_ok kind lib ((event_packet ns event (JArray args))\<lparr>pk_id := i\<rparr>)" and "ns \<noteq> []"
    and "parser_encode lib (initial_parser kind) ((event_packet ns event (JArray args))\<lparr>pk_id := i\<rparr>) = Inr fs"
    and "eio_open sender" and "has_transport sender" and "has_on_frame receiver"
    and "concat (map (\<lambda>(pl, bin). eio_send pl bin sender) fs) = map (\<lambda>(w, k). Transport_send w k) ws"
    and "parser_ok kind (parser_state c)" and "sockets_owner c = None" and "map_of (sockets c) ns = Some s"
  shows "receive lib
      (concat (map (\<lambda>(w, k). passed_on (fst (snd (handle_transport_message lib t w k receiver)))) ws)) c =
     Some (c\<lparr>parser_state := initial_parser kind\<rparr>,
       [On_socket ns (Dispatch_event event (JArray (map num_norm args)) (if 0 \<le> i then i else - 1))])"
proof -
  let ?p = "(event_packet ns event (JArray args))\<lparr>pk_id := i\<rparr>"
  have "sent_frames 0 (engine_obs 0 (map (\<lambda>(w, k). Transport_send w k) ws)) = ws"
    by (induction ws) (auto simp: engine_obs_def)
  then have "payloads ws = fs"
    using sent_payloads [OF assms(4,5), of 0 0 fs] by (simp add: assms(7))
  then have "concat (map (\<lambda>(w, k). passed_on (fst (snd (handle_transport_message lib t w k receiver)))) ws) = fs"
    using message_payload [OF assms(6)] by (simp add: payloads_def split_def)
  moreover have "receive lib fs c = Some (c\<lparr>parser_state := initial_parser kind\<rparr>, concat (map (routed c) [arrives_as kind ?p]))"
    by (rule receive_decode [OF assms(9)]) (rule built_in.roundtrip [OF assms(1,3,8)])
  moreover have "routed c (arrives_as kind ?p) =
      [On_socket ns (Dispatch_event event (JArray (map num_norm args)) (if 0 \<le> i then i else - 1))]"
    using event_arrival [OF assms(2)] assms(10) by (simp add: routed_def)
  ultimately show ?thesis by simp
qed

definition chat_client :: client where
  "chat_client = (projr (client_new default_options))\<lparr>sockets := [(''/chat'', socket_new ''/chat'' JNull)]\<rparr>"

definition chat_engine :: engineio where
  "chat_engine = (set_handlers True True True True (set_transport engineio_new))\<lparr>eio_open := True\<rparr>"

definition chat_frames :: "frame list" where
  "chat_frames = projr (parser_encode witness_lib (initial_parser Parser_json) witness_packet)"

definition chat_wires :: "frame list" where
  "chat_wires = map (\<lambda>(pl, bin). if bin then (pl, True) else (CHR ''4'' # pl, False)) chat_frames"

theorem emitted_event_is_dispatched_witness:
  "receive witness_lib
     (concat (map (\<lambda>(w, k). passed_on (fst (snd (handle_transport_message witness_lib 5 w k chat_engine)))) chat_wires))
     chat_client =
   Some (chat_client\<lparr>parser_state := initial_parser Parser_json\<rparr>,
     [On_socket ''/chat'' (Dispatch_event ''m'' (JArray (map num_norm [JBinary [1, 255] None])) (if 0 \<le> (7::int) then 7 else - 1))])
   \<and> length chat_wires = 2"
proof
  have p: "(event_packet ''/chat'' ''m'' (JArray [JBinary [1, 255] None]))\<lparr>pk_id := 7\<rparr> = witness_packet"
    by (simp add: event_packet_def default_packet_def witness_packet_def)
  have ok: "wire_ok Parser_json witness_lib witness_packet"
    by (simp add: json_wire_ok_def witness_lib_def witness_packet_def wire_data_def wire_attachments_def
        may_carry_attachments_def wire_nsp_def int_max_def placeholder_def isdigit_def)
  then have enc: "parser_encode witness_lib (initial_parser Parser_json) witness_packet = Inr chat_frames"
    using built_in.encode_ok [of Parser_json witness_lib witness_packet] by (auto simp: chat_frames_def)
  have "concat (map (\<lambda>(pl, bin). eio_send pl bin chat_engine) fs) =
      map (\<lambda>(w, k). Transport_send w k) (map (\<lambda>(pl, bin). if bin then (pl, True) else (CHR ''4'' # pl, False)) fs)" for fs
    by (induction fs) (auto simp: eio_send_def chat_engine_def set_transport_def set_handlers_def)
  note sends = this [of chat_frames, folded chat_wires_def]
  have c: "parser_ok Parser_json (parser_state chat_client)" "sockets_owner chat_client = None"
    "map_of (sockets chat_client) ''/chat'' = Some (socket_new ''/chat'' JNull)"
    using json.fresh_inv by (simp_all add: chat_client_def client_new_def default_options_def)
  have e: "eio_open chat_engine" "has_transport chat_engine" "has_on_frame chat_engine"
    by (simp_all add: chat_engine_def set_transport_def set_handlers_def)
  from emitted_event_is_dispatched [OF ok [folded p] _ enc [folded p] e sends c]
  show "receive witness_lib
     (concat (map (\<lambda>(w, k). passed_on (fst (snd (handle_transport_message witness_lib 5 w k chat_engine)))) chat_wires))
     chat_client =
   Some (chat_client\<lparr>parser_state := initial_parser Parser_json\<rparr>,
     [On_socket ''/chat'' (Dispatch_event ''m'' (JArray (map num_norm [JBinary [1, 255] None])) (if 0 \<le> (7::int) then 7 else - 1))])"
    by blast
  show "length chat_wires = 2" unfolding chat_wires_def chat_frames_def by code_simp
qed

end
