(* ===== verification/Refinement.thy ===== *)
theory Refinement
  imports Sioxx_Prelude
begin

text \<open>
  What it means that a component implements a specification. Both are transition systems. The
  component's steps have names of their own; \<open>shows\<close> says which events of the specification, if any,
  a step is seen as from outside. A \<open>run\<close> is a reachable state with the events seen so far.
\<close>

inductive run :: "('s \<Rightarrow> bool) \<Rightarrow> ('s \<Rightarrow> 'e \<Rightarrow> 's \<Rightarrow> bool) \<Rightarrow> ('s \<Rightarrow> 'e \<Rightarrow> 's \<Rightarrow> 'f list) \<Rightarrow> 's \<Rightarrow> 'f list \<Rightarrow> bool"
  for init step shows_as where
  run_init: "init s \<Longrightarrow> run init step shows_as s []"
| run_step: "run init step shows_as s fs \<Longrightarrow> step s e t \<Longrightarrow> run init step shows_as t (fs @ shows_as s e t)"

text \<open>The runs of a specification, all of whose events are seen.\<close>

abbreviation spec_run :: "('a \<Rightarrow> bool) \<Rightarrow> ('a \<Rightarrow> 'f \<Rightarrow> 'a \<Rightarrow> bool) \<Rightarrow> 'a \<Rightarrow> 'f list \<Rightarrow> bool" where
  "spec_run init step \<equiv> run init step (\<lambda>s e t. [e])"

inductive path :: "('a \<Rightarrow> 'f \<Rightarrow> 'a \<Rightarrow> bool) \<Rightarrow> 'a \<Rightarrow> 'f list \<Rightarrow> 'a \<Rightarrow> bool" for step where
  path_Nil [intro!]: "path step a [] a"
| path_Cons: "step a f b \<Longrightarrow> path step b fs c \<Longrightarrow> path step a (f # fs) c"

inductive_simps path_simps [simp]: "path step a [] b" "path step a (f # fs) b"

lemma path_append [simp]: "path step a (fs @ gs) c \<longleftrightarrow> (\<exists>b. path step a fs b \<and> path step b gs c)"
  by (induction fs arbitrary: a) auto

lemma run_reach: "run init step shows_as s fs \<Longrightarrow> reach init step s"
  by (induction rule: run.induct) (auto intro: reach.intros)

lemma reach_run: "reach init step s \<Longrightarrow> \<exists>fs. run init step shows_as s fs"
  by (induction rule: reach.induct) (blast intro: run.intros)+

lemma spec_run_path: "path step a gs b \<Longrightarrow> spec_run init step a fs \<Longrightarrow> spec_run init step b (fs @ gs)"
proof (induction arbitrary: fs rule: path.induct)
  case (path_Cons a f b gs c)
  from path_Cons.prems path_Cons.hyps(1) have "spec_run init step b (fs @ [f])" by (rule run_step)
  from path_Cons.IH [OF this] show ?case by simp
qed simp

text \<open>
  The interface between a component and its specification: an invariant of the component, and a
  function from its states to those of the specification, such that the events of every step lead
  from the image of the old to the image of the new state.
\<close>

locale refinement = invariant init step inv
  for init :: "'s \<Rightarrow> bool" and step :: "'s \<Rightarrow> 'e \<Rightarrow> 's \<Rightarrow> bool" and inv :: "'s \<Rightarrow> bool" +
  fixes spec_init :: "'a \<Rightarrow> bool" and spec_step :: "'a \<Rightarrow> 'f \<Rightarrow> 'a \<Rightarrow> bool"
    and abs :: "'s \<Rightarrow> 'a" and shows_as :: "'s \<Rightarrow> 'e \<Rightarrow> 's \<Rightarrow> 'f list"
  assumes abs_init: "init s \<Longrightarrow> spec_init (abs s)"
    and abs_step: "inv s \<Longrightarrow> inv t \<Longrightarrow> step s e t \<Longrightarrow> path spec_step (abs s) (shows_as s e t) (abs t)"
begin

theorem implements: "run init step shows_as s fs \<Longrightarrow> spec_run spec_init spec_step (abs s) fs"
proof (induction rule: run.induct)
  case (run_init s)
  then show ?case by (intro run.run_init abs_init)
next
  case (run_step s fs e t)
  have "inv s" using reachable_inv [OF run_reach [OF run_step.hyps(1)]] .
  then have "path spec_step (abs s) (shows_as s e t) (abs t)"
    using abs_step inv_step run_step.hyps(2) by blast
  then show ?case using run_step.IH by (rule spec_run_path)
qed

end

end
