(* ===== verification/Ack_Timers.thy ===== *)
theory Ack_Timers
  imports Refinement Ack_Scheduler
begin

text \<open>
  What the deadline worker (theory \<open>Ack_Scheduler\<close>) promises to the socket, as a specification: a set
  of timers that can be set and cancelled, and that fire, earliest first, once their time has come.
  It has no thread, no mutex, no ordered set and no condition variable. The worker implements it.
\<close>

section \<open>Specification\<close>

record timers =
  clock :: time
  timer :: "int \<Rightarrow> time option"
  in_service :: bool

datatype timer_event =
    Advance time
  | Set_timer int time
  | Cancel_timer int bool
  | Cancel_all
  | Fire int
  | Shut

inductive timers_init :: "timers \<Rightarrow> bool" where
  "timers_init \<lparr>clock = t, timer = Map.empty, in_service = True\<rparr>"

text \<open>Cancelling a timer tells whether it was too late: the time has come, or the timer is gone.\<close>

inductive timers_step :: "timers \<Rightarrow> timer_event \<Rightarrow> timers \<Rightarrow> bool" where
  advance: "0 \<le> d \<Longrightarrow> timers_step a (Advance d) (a\<lparr>clock := clock a + d\<rparr>)"
| set_timer: "in_service a \<Longrightarrow> timer a i = None \<Longrightarrow>
     timers_step a (Set_timer i t) (a\<lparr>timer := (timer a)(i \<mapsto> t)\<rparr>)"
| cancel_timer: "in_service a \<Longrightarrow> late = (case timer a i of None \<Rightarrow> True | Some t \<Rightarrow> t \<le> clock a) \<Longrightarrow>
     timers_step a (Cancel_timer i late) (a\<lparr>timer := (timer a)(i := None)\<rparr>)"
| cancel_all: "in_service a \<Longrightarrow> timers_step a Cancel_all (a\<lparr>timer := Map.empty\<rparr>)"
| fire: "in_service a \<Longrightarrow> timer a i = Some t \<Longrightarrow> t \<le> clock a \<Longrightarrow> \<forall>j u. timer a j = Some u \<longrightarrow> t \<le> u \<Longrightarrow>
     timers_step a (Fire i) (a\<lparr>timer := (timer a)(i := None)\<rparr>)"
| shut: "in_service a \<Longrightarrow> timers_step a Shut (a\<lparr>in_service := False\<rparr>)"

section \<open>The worker as an implementation\<close>

definition timers_of :: "scheduler_system \<Rightarrow> timers" where
  "timers_of s = \<lparr>clock = now s, timer = map_of (deadlines (sched s)), in_service = (dtor s = Alive)\<rparr>"

text \<open>
  Additions that fail for lack of memory, wake-ups, notifications and the turns of the worker that
  end in waiting are not seen; a turn that claims an acknowledgement is seen as its timer firing.
\<close>

fun timer_events :: "scheduler_system \<Rightarrow> scheduler_event \<Rightarrow> scheduler_system \<Rightarrow> timer_event list" where
  "timer_events s (Tick d) s' = [Advance d]"
| "timer_events s (Add m1 m2 i t) s' = (if m1 \<and> m2 then [Set_timer i t] else [])"
| "timer_events s (Remove i) s' = [Cancel_timer i (fst (scheduler_remove i (now s) (sched s)))]"
| "timer_events s Clear s' = [Cancel_all]"
| "timer_events s Stop s' = [Shut]"
| "timer_events s Turn s' = (case worker (sched s') of Expiring i \<Rightarrow> [Fire i] | _ \<Rightarrow> [])"
| "timer_events s e s' = []"

lemma timers_of_simps [simp]:
  "clock (timers_of s) = now s" "timer (timers_of s) = map_of (deadlines (sched s))"
  "in_service (timers_of s) \<longleftrightarrow> dtor s = Alive"
  by (simp_all add: timers_of_def)

lemma timers_of_update [simp]:
  "timers_of (s\<lparr>now := t\<rparr>) = (timers_of s)\<lparr>clock := t\<rparr>"
  "timers_of (s\<lparr>sched := q\<rparr>) = (timers_of s)\<lparr>timer := map_of (deadlines q)\<rparr>"
  "timers_of (s\<lparr>dtor := d\<rparr>) = (timers_of s)\<lparr>in_service := (d = Alive)\<rparr>"
  "(timers_of s)\<lparr>timer := map_of (deadlines (sched s))\<rparr> = timers_of s"
  by (simp_all add: timers_of_def)

lemma scheduler_remove_deadlines:
  "map_of (deadlines (snd (scheduler_remove i t s))) = (map_of (deadlines s))(i := None)"
  "fst (scheduler_remove i t s) = (case map_of (deadlines s) i of None \<Rightarrow> True | Some d \<Rightarrow> d \<le> t)"
  by (auto simp: scheduler_remove_def alist_simps split: option.split)

lemma scheduler_add_deadlines:
  "map_of (deadlines s) i = None \<Longrightarrow>
     map_of (deadlines (snd (scheduler_add m1 m2 i t s))) =
       (if m1 \<and> m2 then (map_of (deadlines s))(i \<mapsto> t) else map_of (deadlines s))"
  by (simp add: scheduler_add_def emplace_fresh delete_fresh Let_def)

lemma turn_fires:
  assumes "scheduler_wf q" and "\<not> stopped q \<longrightarrow> in_service (timers_of s)" and "sched s = q" "worker_turn (now s) q = Inr q'"
  shows "path timers_step (timers_of s) (timer_events s Turn (s\<lparr>sched := q'\<rparr>)) (timers_of (s\<lparr>sched := q'\<rparr>))"
  using assms(1)
proof (cases rule: worker_turn_cases [where t = "now s"])
  case (claim d rest)
  have q': "worker q' = Expiring (ack d)" "map_of (deadlines q') = (map_of (deadlines q))(ack d := None)"
    using claim(4) assms(4) by (auto simp: alist_simps)
  have "timers_step (timers_of s) (Fire (ack d)) ((timers_of s)\<lparr>timer := (timer (timers_of s))(ack d := None)\<rparr>)"
    by (rule fire [where t = "due d"]) (use claim assms earliest [OF assms(1) claim(2)] in auto)
  then show ?thesis using q' assms(3) by simp
qed (use assms in \<open>auto simp: timers_of_def\<close>)

interpretation timed: refinement scheduler_init scheduler_step scheduler_inv timers_init timers_step timers_of timer_events
proof unfold_locales
  show "timers_init (timers_of s)" if "scheduler_init s" for s
    using that by (auto simp: scheduler_init.simps timers_of_def ack_scheduler_new_def timers_init.simps)
  fix s t e
  assume I: "scheduler_inv s" and "scheduler_step s e t"
  from this(2) show "path timers_step (timers_of s) (timer_events s e t) (timers_of t)"
  proof (cases rule: scheduler_step.cases)
    case (tick d)
    then show ?thesis using advance [of d "timers_of s"] by simp
  next
    case (add i m1 m2 d)
    then show ?thesis using set_timer [of "timers_of s" i d] by (auto simp: scheduler_add_deadlines)
  next
    case (remove i)
    then show ?thesis
      using cancel_timer [of "timers_of s" _ i, OF _ refl] by (simp add: scheduler_remove_deadlines cong: option.case_cong)
  next
    case clear
    then show ?thesis using cancel_all [of "timers_of s"] by (simp add: scheduler_clear_def)
  next
    case stop
    then show ?thesis using shut [of "timers_of s"] by (simp add: scheduler_stop_def)
  next
    case (turn q')
    then show ?thesis using turn_fires [of "sched s" s q'] I by (simp add: scheduler_inv_def)
  qed (auto simp: timers_of_def)
qed

text \<open>
  A timer whose time has come is not left lying: the worker is about to call \<^verbatim>\<open>expire\<close>, is awake and
  its next turn fires a timer, or waits for a time that has come.
\<close>

definition worker_attends :: "scheduler_system \<Rightarrow> bool" where
  "worker_attends s \<longleftrightarrow>
     (case worker (sched s) of
        Running \<Rightarrow>
          (case worker_turn (now s) (sched s) of Inl e \<Rightarrow> False | Inr q \<Rightarrow> (case worker q of Expiring i \<Rightarrow> True | _ \<Rightarrow> False))
      | Waiting w \<Rightarrow> (case w of None \<Rightarrow> False | Some t \<Rightarrow> t \<le> now s)
      | Expiring i \<Rightarrow> True
      | Exited \<Rightarrow> False)"


definition exit_inv :: "scheduler_system \<Rightarrow> bool" where
  "exit_inv s \<longleftrightarrow> scheduler_inv s \<and> (worker (sched s) = Exited \<longrightarrow> stopped (sched s))"

lemma notify_exited [simp]: "worker (notify_one q) = Exited \<longleftrightarrow> worker q = Exited"
  by (simp add: notify_one_def split: worker_state.split)

lemma exit_inv_step:
  assumes "exit_inv s" and "scheduler_step s e t"
  shows "exit_inv t"
proof -
  have t: "scheduler_inv t" using assms scheduler_inv_step by (auto simp: exit_inv_def)
  from assms(2) have "worker (sched t) = Exited \<longrightarrow> stopped (sched t)"
  proof (cases rule: scheduler_step.cases)
    case (turn q)
    then show ?thesis by (auto simp: worker_turn_def split: if_splits list.splits)
  qed (use assms(1) in \<open>auto simp: exit_inv_def scheduler_add_def scheduler_remove_def scheduler_clear_def
      scheduler_stop_def Let_def split: option.splits if_splits\<close>)
  with t show ?thesis by (simp add: exit_inv_def)
qed

interpretation exiting: invariant scheduler_init scheduler_step exit_inv
proof unfold_locales
  show "exit_inv s" if "scheduler_init s" for s
    using that scheduler_inv_init [OF that] by (auto simp: exit_inv_def scheduler_init.simps ack_scheduler_new_def)
qed (rule exit_inv_step)

lemma attends:
  assumes I: "exit_inv s" and alive: "dtor s = Alive" and d: "map_of (deadlines (sched s)) i = Some d" "d \<le> now s"
  shows "worker_attends s"
proof -
  let ?q = "sched s"
  have wf: "scheduler_wf ?q" and on: "\<not> stopped ?q" and rest: "sleeps_right ?q" "worker ?q = Exited \<longrightarrow> stopped ?q"
    using I alive by (auto simp: exit_inv_def scheduler_inv_def)
  obtain e ds where o: "ordered ?q = e # ds"
    using wf_empty [OF wf] d(1) by (cases "ordered ?q") auto
  have e: "due e \<le> now s" using earliest(2) [OF wf o d(1)] d(2) by simp
  have "deadlines ?q \<noteq> []" using d(1) by auto
  then show ?thesis
    using on rest o e
    by (auto simp: worker_attends_def worker_turn_def sleeps_right_def split: worker_state.splits option.splits)
qed

section \<open>Properties\<close>

text \<open>
  C6. The deadline worker implements a set of timers. Whatever threads add, remove and clear, however
  the worker is woken and interrupted, and whenever memory runs out, the calls and expiries seen
  from outside are a run of the specification: an acknowledgement expires only while its timer is
  set and its time has come, in the order of the deadlines, and \<^verbatim>\<open>remove\<close> answers whether it came too
  late. And the worker attends to them: as long as some timer is due, it is calling \<^verbatim>\<open>expire\<close>, about
  to claim one, or at the end of its wait.
\<close>

theorem scheduler_implements_timers:
  assumes "run scheduler_init scheduler_step timer_events s es"
  shows "spec_run timers_init timers_step (timers_of s) es \<and>
     (in_service (timers_of s) \<longrightarrow> (\<exists>i d. timer (timers_of s) i = Some d \<and> d \<le> clock (timers_of s)) \<longrightarrow> worker_attends s)"
proof (intro conjI impI)
  show "spec_run timers_init timers_step (timers_of s) es" by (rule timed.implements [OF assms])
  assume "in_service (timers_of s)" "\<exists>i d. timer (timers_of s) i = Some d \<and> d \<le> clock (timers_of s)"
  then show "worker_attends s" using attends exiting.reachable_inv [OF run_reach [OF assms]] by auto
qed

text \<open>A timer is set, the worker falls asleep, time passes, and the timer fires.\<close>

definition sched_asleep :: scheduler_system where
  "sched_asleep = \<lparr>now = 0, sched = \<lparr>deadlines = [(7, 10)], ordered = [Deadline 10 7], stopped = False,
     worker = Waiting (Some 10)\<rparr>, dtor = Alive\<rparr>"

definition sched_fired :: scheduler_system where
  "sched_fired = \<lparr>now = 12, sched = \<lparr>deadlines = [], ordered = [], stopped = False, worker = Expiring 7\<rparr>, dtor = Alive\<rparr>"

lemma sched_asleep_run: "run scheduler_init scheduler_step timer_events sched_asleep [Set_timer 7 10]"
proof -
  let ?s0 = "\<lparr>now = 0, sched = ack_scheduler_new, dtor = Alive\<rparr>"
  let ?s1 = "?s0\<lparr>sched := snd (scheduler_add True True 7 10 (sched ?s0))\<rparr>"
  have "run scheduler_init scheduler_step timer_events ?s0 []" by (intro run_init scheduler_init.intros)
  moreover have "scheduler_step ?s0 (Add True True 7 10) ?s1" by (rule add) (simp_all add: ack_scheduler_new_def)
  ultimately have "run scheduler_init scheduler_step timer_events ?s1 ([] @ timer_events ?s0 (Add True True 7 10) ?s1)"
    by (rule run_step)
  moreover have "scheduler_step ?s1 Turn (?s1\<lparr>sched := sched sched_asleep\<rparr>)" by (rule turn) code_simp+
  ultimately have "run scheduler_init scheduler_step timer_events (?s1\<lparr>sched := sched sched_asleep\<rparr>)
      (([] @ timer_events ?s0 (Add True True 7 10) ?s1) @ timer_events ?s1 Turn (?s1\<lparr>sched := sched sched_asleep\<rparr>))"
    by (rule run_step)
  then show ?thesis by (simp add: sched_asleep_def)
qed

lemma sched_fired_run: "run scheduler_init scheduler_step timer_events sched_fired [Set_timer 7 10, Advance 12, Fire 7]"
proof -
  let ?s0 = sched_asleep
  let ?s1 = "?s0\<lparr>now := now ?s0 + 12\<rparr>"
  let ?s2 = "?s1\<lparr>sched := worker_wake (sched ?s1)\<rparr>"
  note sched_asleep_run
  moreover have "scheduler_step ?s0 (Tick 12) ?s1" by (rule tick) simp
  ultimately have "run scheduler_init scheduler_step timer_events ?s1 ([Set_timer 7 10] @ timer_events ?s0 (Tick 12) ?s1)"
    by (rule run_step)
  moreover have "scheduler_step ?s1 Wake ?s2" by (rule wake [where w = "Some 10"]) (simp add: sched_asleep_def)
  ultimately have "run scheduler_init scheduler_step timer_events ?s2
      (([Set_timer 7 10] @ timer_events ?s0 (Tick 12) ?s1) @ timer_events ?s1 Wake ?s2)"
    by (rule run_step)
  moreover have "scheduler_step ?s2 Turn (?s2\<lparr>sched := sched sched_fired\<rparr>)" by (rule turn) code_simp+
  ultimately have "run scheduler_init scheduler_step timer_events (?s2\<lparr>sched := sched sched_fired\<rparr>)
      ((([Set_timer 7 10] @ timer_events ?s0 (Tick 12) ?s1) @ timer_events ?s1 Wake ?s2)
       @ timer_events ?s2 Turn (?s2\<lparr>sched := sched sched_fired\<rparr>))"
    by (rule run_step)
  then show ?thesis by (simp add: sched_asleep_def sched_fired_def)
qed

theorem scheduler_implements_timers_witness:
  "spec_run timers_init timers_step (timers_of sched_fired) [Set_timer 7 10, Advance 12, Fire 7]"
  using scheduler_implements_timers [OF sched_fired_run] by (rule conjunct1)

end
