(* ===== verification/Http_Exchange.thy ===== *)
theory Http_Exchange
  imports Http_Polling_Transport
begin

text \<open>
  One HTTP exchange of the polling transport (\<^verbatim>\<open>src/http_polling_transport.cpp\<close>), in both variants: the
  blocking function \<^verbatim>\<open>request\<close>, used by the transport's own threads, with \<^verbatim>\<open>establish_proxy_tunnel\<close> and
  \<^verbatim>\<open>read_http_response\<close>; and \<^verbatim>\<open>async_request_operation\<close>, whose completion handlers run on a strand.

  The theory \<open>Http_Polling_Transport\<close> takes a request as answered once, with a response or a failure.
  Here the stages that lead to the answer are followed. The network is a function that gives for
  every operation its result; an operation is performed at most once in an exchange.
\<close>

section \<open>The request\<close>

text \<open>\<^verbatim>\<open>fields.set\<close> replaces a field of the same name, whatever its case, and appends it otherwise.\<close>

definition lower :: "string \<Rightarrow> string" where
  "lower s = map (\<lambda>c. if CHR ''A'' \<le> c \<and> c \<le> CHR ''Z'' then char_of (of_char c + (32::nat)) else c) s"

type_synonym fields = "(string \<times> string) list"

definition set_field :: "string \<times> string \<Rightarrow> fields \<Rightarrow> fields" where
  "set_field kv fs = filter (\<lambda>f. lower (fst f) \<noteq> lower (fst kv)) fs @ [kv]"

definition get_field :: "string \<Rightarrow> fields \<Rightarrow> string option" where
  "get_field k fs = map_option snd (List.find (\<lambda>f. lower (fst f) = lower k) fs)"

definition request_fields :: "url_parts \<Rightarrow> proxy_config option \<Rightarrow> fields \<Rightarrow> fields" where
  "request_fields url proxy extra =
     fold set_field extra
       ((case proxy of
           None \<Rightarrow> id
         | Some p \<Rightarrow>
             if \<not> url_tls url \<and> authorization p \<noteq> [] then set_field (''Proxy-Authorization'', authorization p) else id)
        (set_field (''Content-Type'', ''text/plain; charset=UTF-8'')
          (set_field (''User-Agent'', ''sioxx-client'') (set_field (''Host'', authority url) []))))"

record exchange_request =
  xr_target :: string
  xr_fields :: fields
  xr_body :: string

definition exchange_request_for ::
  "url_parts \<Rightarrow> proxy_config option \<Rightarrow> fields \<Rightarrow> string \<Rightarrow> string \<Rightarrow> exchange_request" where
  "exchange_request_for url proxy extra target body =
     \<lparr>xr_target = (if proxy \<noteq> None \<and> \<not> url_tls url then absolute_http_target url target else target),
      xr_fields = request_fields url proxy extra, xr_body = body\<rparr>"

definition tunnel_request :: "url_parts \<Rightarrow> proxy_config \<Rightarrow> exchange_request" where
  "tunnel_request url proxy =
     \<lparr>xr_target = connect_authority url,
      xr_fields =
        (if authorization proxy \<noteq> [] then set_field (''Proxy-Authorization'', authorization proxy) else id)
          (set_field (''User-Agent'', ''sioxx-client'') (set_field (''Host'', connect_authority url) [])),
      xr_body = []\<rparr>"

section \<open>The network\<close>

datatype net_op =
    N_resolve string string
  | N_sni string
  | N_connect
  | N_proxy_write exchange_request
  | N_proxy_read
  | N_tls_handshake
  | N_write exchange_request
  | N_read
  | N_shutdown

datatype net_result =
    N_ok
  | N_error string
  | N_status nat
  | N_response nat string

text \<open>What the operations can result in.\<close>

fun result_fits :: "net_op \<Rightarrow> net_result \<Rightarrow> bool" where
  "result_fits k (N_error e) = True"
| "result_fits N_proxy_read r = (\<exists>st. r = N_status st)"
| "result_fits N_read r = (\<exists>st body. r = N_response st body)"
| "result_fits k r = (r = N_ok)"

section \<open>The blocking variant\<close>

text \<open>
  Reading a response: \<^verbatim>\<open>read_some\<close> reports how many bytes it consumed and whether the message is
  complete. The loop waits when no result is there yet, which is \<^const>\<open>None\<close>.
\<close>

datatype read_some = Consumed nat bool | Read_error string

datatype exchange_error = System_error string | Runtime_failure string

fun read_http_response :: "bool \<Rightarrow> read_some list \<Rightarrow> (exchange_error + unit) option" where
  "read_http_response True rs = Some (Inr ())"
| "read_http_response False [] = None"
| "read_http_response False (Read_error e # rs) = Some (Inl (System_error e))"
| "read_http_response False (Consumed n fin # rs) =
     (if n = 0 \<and> \<not> fin then Some (Inl (Runtime_failure ''HTTP response parser made no progress''))
      else read_http_response fin rs)"

definition attempt :: "exchange_error + 'a \<Rightarrow> ('a \<Rightarrow> exchange_error + 'b) \<Rightarrow> exchange_error + 'b" where
  "attempt r f = (case r of Inl e \<Rightarrow> Inl e | Inr x \<Rightarrow> f x)"

definition perform :: "(net_op \<Rightarrow> net_result) \<Rightarrow> net_op \<Rightarrow> exchange_error + net_result" where
  "perform net k = (case net k of N_error e \<Rightarrow> Inl (System_error e) | r \<Rightarrow> Inr r)"

definition establish_proxy_tunnel ::
  "(net_op \<Rightarrow> net_result) \<Rightarrow> url_parts \<Rightarrow> proxy_config \<Rightarrow> exchange_error + net_result" where
  "establish_proxy_tunnel net url proxy =
     attempt (perform net (N_proxy_write (tunnel_request url proxy))) (\<lambda>_.
     attempt (perform net N_proxy_read) (\<lambda>r.
       case r of
         N_status status \<Rightarrow>
           if status div 100 \<noteq> 2
           then Inl (Runtime_failure (''proxy CONNECT returned HTTP '' @ to_string_nat status)) else Inr N_ok
       | _ \<Rightarrow> Inr N_ok))"

definition set_server_name :: "(net_op \<Rightarrow> net_result) \<Rightarrow> url_parts \<Rightarrow> exchange_error + net_result" where
  "set_server_name net url =
     (case net (N_sni (url_host url)) of
        N_error e \<Rightarrow> Inl (Runtime_failure ''unable to set TLS server name'')
      | r \<Rightarrow> Inr r)"

text \<open>
  When the response has been read the stream is shut down. Some errors of that are ignored: on a plain
  socket that it is not connected any more, on TLS the end of the stream. \<open>tolerated\<close> says which.
\<close>

definition shut_down :: "(net_op \<Rightarrow> net_result) \<Rightarrow> (string \<Rightarrow> bool) \<Rightarrow> exchange_error + net_result" where
  "shut_down net tolerated =
     (case net N_shutdown of N_error e \<Rightarrow> if tolerated e then Inr N_ok else Inl (System_error e) | r \<Rightarrow> Inr r)"

definition exchange_endpoint :: "url_parts \<Rightarrow> proxy_config option \<Rightarrow> url_parts" where
  "exchange_endpoint url proxy = (case proxy of None \<Rightarrow> url | Some p \<Rightarrow> endpoint p)"

definition resolve_op :: "url_parts \<Rightarrow> proxy_config option \<Rightarrow> net_op" where
  "resolve_op url proxy =
     N_resolve (url_host (exchange_endpoint url proxy)) (url_port (exchange_endpoint url proxy))"

definition request_blocking ::
  "(net_op \<Rightarrow> net_result) \<Rightarrow> (string \<Rightarrow> bool) \<Rightarrow> url_parts \<Rightarrow> proxy_config option \<Rightarrow> exchange_request \<Rightarrow>
     exchange_error + net_result" where
  "request_blocking net tolerated url proxy req =
     attempt (perform net (resolve_op url proxy)) (\<lambda>_.
     attempt
       (if \<not> url_tls url then perform net N_connect
        else
          attempt (set_server_name net url) (\<lambda>_.
          attempt (perform net N_connect) (\<lambda>_.
          attempt (case proxy of None \<Rightarrow> Inr N_ok | Some p \<Rightarrow> establish_proxy_tunnel net url p) (\<lambda>_.
            perform net N_tls_handshake)))) (\<lambda>_.
     attempt (perform net (N_write req)) (\<lambda>_.
     attempt (perform net N_read) (\<lambda>response.
     attempt (shut_down net tolerated) (\<lambda>_. Inr response)))))"

section \<open>The variant on a strand\<close>

record exchange =
  x_url :: url_parts
  x_proxy :: "proxy_config option"
  x_request :: exchange_request
  x_plain :: bool
  x_tls :: bool
  x_op :: "net_op option"
  x_finished :: bool

datatype net_error = Operation_aborted | Net_error string

text \<open>
  What an exchange does to the transport: it reports a failure of the transport, and it takes itself
  off the list of requests and calls its completion handler with an error or with the response.
\<close>

datatype x_out =
    X_fail string
  | X_removed
  | X_error net_error
  | X_response nat string

definition async_request :: "url_parts \<Rightarrow> proxy_config option \<Rightarrow> exchange_request \<Rightarrow> exchange" where
  "async_request url proxy req =
     \<lparr>x_url = url, x_proxy = proxy, x_request = req, x_plain = False, x_tls = False,
      x_op = Some (resolve_op url proxy), x_finished = False\<rparr>"

definition x_finish :: "x_out \<Rightarrow> exchange \<Rightarrow> exchange \<times> x_out list" where
  "x_finish out x = (if x_finished x then (x, []) else (x\<lparr>x_finished := True\<rparr>, [X_removed, out]))"

definition await :: "net_op \<Rightarrow> exchange \<Rightarrow> exchange \<times> x_out list" where
  "await k x = (x\<lparr>x_op := Some k\<rparr>, [])"

definition x_connect :: "net_result \<Rightarrow> exchange \<Rightarrow> exchange \<times> x_out list" where
  "x_connect sni x =
     (if url_tls (x_url x)
      then
        let x1 = x\<lparr>x_tls := True\<rparr>
        in (case sni of N_error e \<Rightarrow> x_finish (X_error (Net_error e)) x1 | _ \<Rightarrow> await N_connect x1)
      else await N_connect (x\<lparr>x_plain := True\<rparr>))"

definition write_request :: "exchange \<Rightarrow> exchange \<times> x_out list" where
  "write_request x = await (N_write (x_request x)) x"

definition write_proxy_connect :: "proxy_config \<Rightarrow> exchange \<Rightarrow> exchange \<times> x_out list" where
  "write_proxy_connect proxy x = await (N_proxy_write (tunnel_request (x_url x) proxy)) x"

definition x_connected :: "exchange \<Rightarrow> exchange \<times> x_out list" where
  "x_connected x =
     (if x_tls x
      then (case x_proxy x of Some p \<Rightarrow> write_proxy_connect p x | None \<Rightarrow> await N_tls_handshake x)
      else write_request x)"

definition x_proxy_status :: "nat \<Rightarrow> exchange \<Rightarrow> exchange \<times> x_out list" where
  "x_proxy_status status x =
     (if status div 100 \<noteq> 2
      then apsnd ((#) (X_fail (''polling transport: proxy CONNECT returned HTTP '' @ to_string_nat status)))
        (x_finish (X_error Operation_aborted) x)
      else await N_tls_handshake x)"

definition complete_response :: "net_result \<Rightarrow> exchange \<Rightarrow> exchange \<times> x_out list" where
  "complete_response r x =
     (case r of
        N_response status body \<Rightarrow> x_finish (X_response status body) x
      | N_error e \<Rightarrow> x_finish (X_error (Net_error e)) x
      | _ \<Rightarrow> (x, []))"

text \<open>The outstanding operation completes; its handler finishes the exchange or starts the next one.\<close>

fun x_next :: "net_op \<Rightarrow> net_result \<Rightarrow> net_result \<Rightarrow> exchange \<Rightarrow> exchange \<times> x_out list" where
  "x_next (N_resolve h p) r sni x = x_connect sni x"
| "x_next N_connect r sni x = x_connected x"
| "x_next (N_proxy_write req) r sni x = await N_proxy_read x"
| "x_next N_proxy_read r sni x = (case r of N_status status \<Rightarrow> x_proxy_status status x | _ \<Rightarrow> (x, []))"
| "x_next N_tls_handshake r sni x = write_request x"
| "x_next (N_write req) r sni x = await N_read x"
| "x_next N_read r sni x = complete_response r x"
| "x_next k r sni x = (x, [])"

definition x_completed :: "net_op \<Rightarrow> net_result \<Rightarrow> net_result \<Rightarrow> exchange \<Rightarrow> exchange \<times> x_out list" where
  "x_completed k r sni x = (case r of N_error e \<Rightarrow> x_finish (X_error (Net_error e)) x | _ \<Rightarrow> x_next k r sni x)"

definition x_step :: "(net_op \<Rightarrow> net_result) \<Rightarrow> exchange \<Rightarrow> exchange \<times> x_out list" where
  "x_step net x =
     (case x_op x of
        None \<Rightarrow> (x, [])
      | Some k \<Rightarrow> x_completed k (net k) (net (N_sni (url_host (x_url x)))) (x\<lparr>x_op := None\<rparr>))"

text \<open>
  The exchange as it proceeds: the operations started, in order, and what it did to the transport. The
  fuel bounds the number of completions.
\<close>

fun x_run :: "nat \<Rightarrow> (net_op \<Rightarrow> net_result) \<Rightarrow> exchange \<Rightarrow> exchange \<times> net_op list \<times> x_out list" where
  "x_run 0 net x = (x, [], [])"
| "x_run (Suc n) net x =
     (case x_op x of
        None \<Rightarrow> (x, [], [])
      | Some k \<Rightarrow>
          (case x_step net x of (x1, outs) \<Rightarrow>
           case x_run n net x1 of (x2, ks, outs') \<Rightarrow> (x2, k # ks, outs @ outs')))"

section \<open>Lemmas\<close>

lemmas exchange_defs = x_step_def x_completed_def x_finish_def await_def x_connect_def write_request_def
  write_proxy_connect_def x_connected_def x_proxy_status_def complete_response_def async_request_def resolve_op_def Let_def

lemmas blocking_defs = request_blocking_def attempt_def perform_def establish_proxy_tunnel_def set_server_name_def
  shut_down_def resolve_op_def

lemma attempt_assoc: "attempt (attempt r f) g = attempt r (\<lambda>x. attempt (f x) g)"
  by (simp add: attempt_def split: sum.split)

lemma attempt_Inr [simp]: "attempt (Inr x) f = f x" "attempt (Inl e) f = Inl e"
  by (simp_all add: attempt_def)

definition net_ok :: "(net_op \<Rightarrow> net_result) \<Rightarrow> bool" where
  "net_ok net \<longleftrightarrow> (\<forall>k. result_fits k (net k))"

lemma net_plain:
  assumes "net_ok net" and "k \<noteq> N_proxy_read" and "k \<noteq> N_read"
  obtains "net k = N_ok" | e where "net k = N_error e"
proof -
  have "result_fits k (net k)" using assms(1) by (simp add: net_ok_def)
  then show thesis using that assms(2,3) by (cases k; cases "net k") auto
qed

lemma net_reads:
  assumes "net_ok net"
  shows "(\<exists>status. net N_proxy_read = N_status status) \<or> (\<exists>e. net N_proxy_read = N_error e)"
    and "(\<exists>status body. net N_read = N_response status body) \<or> (\<exists>e. net N_read = N_error e)"
proof -
  have "result_fits N_proxy_read (net N_proxy_read)" "result_fits N_read (net N_read)" using assms by (simp_all add: net_ok_def)
  then show "(\<exists>status. net N_proxy_read = N_status status) \<or> (\<exists>e. net N_proxy_read = N_error e)"
    and "(\<exists>status body. net N_read = N_response status body) \<or> (\<exists>e. net N_read = N_error e)"
    by (cases "net N_proxy_read", auto, cases "net N_read", auto)
qed

text \<open>
  The outcome of an exchange, stage by stage, for both variants at once: the operations performed, what
  the strand variant does to the transport, and what the blocking variant has before it shuts down.
\<close>

definition agrees :: "string \<Rightarrow> (net_op \<Rightarrow> net_result) \<Rightarrow> x_out list \<Rightarrow> exchange_error + net_result \<Rightarrow> bool" where
  "agrees host net outs r \<longleftrightarrow>
     (case r of
        Inr response \<Rightarrow> (\<exists>status body. response = N_response status body \<and> outs = [X_removed, X_response status body])
      | Inl (System_error e) \<Rightarrow> outs = [X_removed, X_error (Net_error e)]
      | Inl (Runtime_failure m) \<Rightarrow>
          (\<exists>e. net (N_sni host) = N_error e \<and> outs = [X_removed, X_error (Net_error e)]) \<or>
          outs = [X_fail (''polling transport: '' @ m), X_removed, X_error Operation_aborted])"

definition ends_well :: "string \<Rightarrow> (net_op \<Rightarrow> net_result) \<Rightarrow> net_op list \<Rightarrow> exchange_error + net_result \<Rightarrow>
  exchange \<times> net_op list \<times> x_out list \<Rightarrow> bool" where
  "ends_well host net all r result \<longleftrightarrow>
     (case result of (x, ks, outs) \<Rightarrow> x_op x = None \<and> x_finished x \<and> prefix ks all \<and> agrees host net outs r)"

lemma run_done [simp]: "x_op x = None \<Longrightarrow> x_run n net x = (x, [], [])"
  by (cases n) simp_all

lemma run_on:
  assumes "x_op x = Some k" and "x_step net x = (x1, [])" and "ends_well host net all r (x_run n net x1)"
  shows "ends_well host net (k # all) r (x_run (Suc n) net x)"
  using assms by (auto simp: ends_well_def split: prod.splits)

lemma run_stop:
  assumes "x_op x = Some k" and "\<not> x_finished x" and "net k = N_error e"
  shows "ends_well host net (k # all) (Inl (System_error e)) (x_run (Suc n) net x)"
  using assms by (auto simp: ends_well_def exchange_defs agrees_def)

lemma run_read:
  assumes "net_ok net" and "x_op x = Some N_read" and "\<not> x_finished x"
  shows "ends_well host net [N_read] (perform net N_read) (x_run (Suc n) net x)"
  using net_reads(2) [OF assms(1)]
proof
  assume "\<exists>e. net N_read = N_error e"
  then show ?thesis using run_stop [OF assms(2,3)] by (auto simp: perform_def)
qed (use assms in \<open>auto simp: ends_well_def exchange_defs perform_def agrees_def\<close>)

declare x_run.simps(2) [simp del]

text \<open>A stage that can only succeed or fail, and the rest of the exchange.\<close>

lemma run_stage:
  assumes "net_ok net" and "x_op x = Some k" and "\<not> x_finished x" and "k \<noteq> N_proxy_read" "k \<noteq> N_read"
    and "net k = N_ok \<Longrightarrow> \<exists>x1. x_step net x = (x1, []) \<and> ends_well host net all r (x_run n net x1)"
  shows "ends_well host net (k # all) (attempt (perform net k) (\<lambda>_. r)) (x_run (Suc n) net x)"
  using net_plain [OF assms(1,4,5)]
proof cases
  case 1
  then show ?thesis using assms(6) run_on [OF assms(2)] by (auto simp: attempt_def perform_def)
next
  case (2 e)
  then show ?thesis using run_stop [of x k net e] assms(2,3) by (simp add: attempt_def perform_def)
qed

lemma run_write:
  assumes "net_ok net" and "x_op x = Some (N_write req)" and "\<not> x_finished x"
  shows "ends_well host net [N_write req, N_read]
     (attempt (perform net (N_write req)) (\<lambda>_. perform net N_read)) (x_run (Suc (Suc n)) net x)"
  using assms run_read [OF assms(1)] by (intro run_stage) (auto simp: exchange_defs)

lemma run_handshake:
  assumes "net_ok net" and "x_op x = Some N_tls_handshake" and "\<not> x_finished x" and "x_request x = req"
  shows "ends_well host net [N_tls_handshake, N_write req, N_read]
     (attempt (perform net N_tls_handshake) (\<lambda>_. attempt (perform net (N_write req)) (\<lambda>_. perform net N_read)))
     (x_run (Suc (Suc (Suc n))) net x)"
  using assms run_write [OF assms(1)] by (intro run_stage) (auto simp: exchange_defs)

lemma run_proxy:
  assumes "net_ok net" and "x_op x = Some (N_proxy_write (tunnel_request url p))" and "\<not> x_finished x" and "x_request x = req"
  shows "ends_well host net (N_proxy_write (tunnel_request url p) # N_proxy_read # [N_tls_handshake, N_write req, N_read])
     (attempt (establish_proxy_tunnel net url p) (\<lambda>_.
        attempt (perform net N_tls_handshake) (\<lambda>_. attempt (perform net (N_write req)) (\<lambda>_. perform net N_read))))
     (x_run (Suc (Suc (Suc (Suc (Suc n))))) net x)"
proof -
  let ?rest = "attempt (perform net N_tls_handshake) (\<lambda>_. attempt (perform net (N_write req)) (\<lambda>_. perform net N_read))"
  let ?read = "attempt (perform net N_proxy_read) (\<lambda>r. attempt (case r of
      N_status status \<Rightarrow> if status div 100 \<noteq> 2
        then Inl (Runtime_failure (''proxy CONNECT returned HTTP '' @ to_string_nat status)) else Inr N_ok
    | _ \<Rightarrow> Inr N_ok) (\<lambda>_. ?rest))"
  have tunnel: "ends_well host net (N_proxy_read # [N_tls_handshake, N_write req, N_read]) ?read
      (x_run (Suc (Suc (Suc (Suc n)))) net y)"
    if y: "x_op y = Some N_proxy_read" "\<not> x_finished y" "x_request y = req" for y
    using net_reads(1) [OF assms(1)]
  proof
    assume "\<exists>e. net N_proxy_read = N_error e"
    then obtain e where "net N_proxy_read = N_error e" by blast
    then show ?thesis using run_stop [of y N_proxy_read net e] y(1,2) by (simp add: attempt_def perform_def)
  next
    assume "\<exists>status. net N_proxy_read = N_status status"
    then obtain status where st: "net N_proxy_read = N_status status" by blast
    show ?thesis
    proof (cases "status div 100 = 2")
      case True
      then have "ends_well host net (N_proxy_read # [N_tls_handshake, N_write req, N_read]) ?rest
          (x_run (Suc (Suc (Suc (Suc n)))) net y)"
        using y st run_handshake [OF assms(1)] by (intro run_on [OF y(1)]) (auto simp: exchange_defs)
      then show ?thesis using st True by (simp add: attempt_def perform_def)
    qed (use y st in \<open>auto simp: ends_well_def x_run.simps(2) exchange_defs attempt_def perform_def agrees_def\<close>)
  qed
  have "ends_well host net (N_proxy_write (tunnel_request url p) # N_proxy_read # [N_tls_handshake, N_write req, N_read])
     (attempt (perform net (N_proxy_write (tunnel_request url p))) (\<lambda>_. ?read)) (x_run (Suc (Suc (Suc (Suc (Suc n))))) net x)"
    using assms tunnel by (intro run_stage) (auto simp: exchange_defs)
  then show ?thesis by (simp add: establish_proxy_tunnel_def attempt_assoc)
qed

text \<open>The operations of an exchange, in order.\<close>

definition exchange_ops :: "url_parts \<Rightarrow> proxy_config option \<Rightarrow> exchange_request \<Rightarrow> net_op list" where
  "exchange_ops url proxy req =
     [resolve_op url proxy, N_connect]
     @ (if url_tls url
        then (case proxy of None \<Rightarrow> [] | Some p \<Rightarrow> [N_proxy_write (tunnel_request url p), N_proxy_read]) @ [N_tls_handshake]
        else [])
     @ [N_write req, N_read]"

text \<open>The blocking variant without the shutdown of its stream.\<close>

definition request_read :: "(net_op \<Rightarrow> net_result) \<Rightarrow> url_parts \<Rightarrow> proxy_config option \<Rightarrow> exchange_request \<Rightarrow>
     exchange_error + net_result" where
  "request_read net url proxy req =
     attempt (perform net (resolve_op url proxy)) (\<lambda>_.
     attempt
       (if \<not> url_tls url then perform net N_connect
        else
          attempt (set_server_name net url) (\<lambda>_.
          attempt (perform net N_connect) (\<lambda>_.
          attempt (case proxy of None \<Rightarrow> Inr N_ok | Some p \<Rightarrow> establish_proxy_tunnel net url p) (\<lambda>_.
            perform net N_tls_handshake)))) (\<lambda>_.
     attempt (perform net (N_write req)) (\<lambda>_. perform net N_read)))"

lemma request_blocking_read:
  "request_blocking net tolerated url proxy req =
     attempt (request_read net url proxy req) (\<lambda>response. attempt (shut_down net tolerated) (\<lambda>_. Inr response))"
  by (simp add: request_blocking_def request_read_def attempt_assoc)

lemma run_connect:
  assumes "net_ok net" and "x_op x = Some N_connect" and "\<not> x_finished x" and "x_tls x" and "x_url x = url"
    and "x_proxy x = proxy" and "x_request x = req"
  shows "ends_well host net
     (N_connect # (case proxy of None \<Rightarrow> [] | Some p \<Rightarrow> [N_proxy_write (tunnel_request url p), N_proxy_read])
        @ [N_tls_handshake, N_write req, N_read])
     (attempt (perform net N_connect) (\<lambda>_.
        attempt (case proxy of None \<Rightarrow> Inr N_ok | Some p \<Rightarrow> establish_proxy_tunnel net url p) (\<lambda>_.
        attempt (perform net N_tls_handshake) (\<lambda>_. attempt (perform net (N_write req)) (\<lambda>_. perform net N_read)))))
     (x_run (Suc (Suc (Suc (Suc (Suc (Suc n)))))) net x)"
proof (cases proxy)
  case None
  then show ?thesis
    using assms run_handshake [OF assms(1), of _ req host "Suc (Suc n)"] by (intro run_stage) (auto simp: exchange_defs)
next
  case (Some p)
  then show ?thesis
    using assms run_proxy [OF assms(1), of _ url p req host n] by (simp, intro run_stage) (auto simp: exchange_defs)
qed

lemma run_exchange:
  assumes "net_ok net"
  shows "ends_well (url_host url) net (exchange_ops url proxy req) (request_read net url proxy req)
     (x_run (7 + n) net (async_request url proxy req))"
proof (cases "url_tls url")
  case False
  have plain: "ends_well (url_host url) net [N_connect, N_write req, N_read]
      (attempt (perform net N_connect) (\<lambda>_. attempt (perform net (N_write req)) (\<lambda>_. perform net N_read)))
      (x_run (Suc (Suc (Suc m))) net y)"
    if "x_op y = Some N_connect" "\<not> x_finished y" "\<not> x_tls y" "x_request y = req" for y m
    using that assms run_write [OF assms] by (intro run_stage) (auto simp: exchange_defs)
  have "ends_well (url_host url) net (resolve_op url proxy # [N_connect, N_write req, N_read])
     (attempt (perform net (resolve_op url proxy)) (\<lambda>_. attempt (perform net N_connect) (\<lambda>_.
        attempt (perform net (N_write req)) (\<lambda>_. perform net N_read))))
     (x_run (Suc (Suc (Suc (Suc (Suc (Suc (Suc n))))))) net (async_request url proxy req))"
    using assms False plain by (intro run_stage) (auto simp: exchange_defs)
  then show ?thesis using False by (simp add: exchange_ops_def request_read_def eval_nat_numeral)
next
  case True
  let ?conn = "attempt (perform net N_connect) (\<lambda>_.
        attempt (case proxy of None \<Rightarrow> Inr N_ok | Some p \<Rightarrow> establish_proxy_tunnel net url p) (\<lambda>_.
        attempt (perform net N_tls_handshake) (\<lambda>_. attempt (perform net (N_write req)) (\<lambda>_. perform net N_read))))"
  let ?ks = "N_connect # (case proxy of None \<Rightarrow> [] | Some p \<Rightarrow> [N_proxy_write (tunnel_request url p), N_proxy_read])
        @ [N_tls_handshake, N_write req, N_read]"
  have "ends_well (url_host url) net (resolve_op url proxy # ?ks)
     (attempt (perform net (resolve_op url proxy)) (\<lambda>_. attempt (set_server_name net url) (\<lambda>_. ?conn)))
     (x_run (Suc (Suc (Suc (Suc (Suc (Suc (Suc n))))))) net (async_request url proxy req))"
  proof -
    consider (named) "net (N_sni (url_host url)) = N_ok" | (unnamed) e where "net (N_sni (url_host url)) = N_error e"
      using net_plain [OF assms, of "N_sni (url_host url)"] by blast
    then show ?thesis
    proof cases
      case named
      then show ?thesis
        using assms True run_connect [OF assms, of _ url proxy req "url_host url" n]
        by (intro run_stage) (auto simp: exchange_defs set_server_name_def)
    next
      case (unnamed e)
      consider (ok) "net (resolve_op url proxy) = N_ok" | (err) e' where "net (resolve_op url proxy) = N_error e'"
        using net_plain [OF assms, of "resolve_op url proxy"] by (auto simp: resolve_op_def)
      then show ?thesis
      proof cases
        case ok
        then show ?thesis using unnamed True
          by (simp add: ends_well_def x_run.simps(2) exchange_defs set_server_name_def perform_def agrees_def)
      next
        case (err e')
        have "x_op (async_request url proxy req) = Some (resolve_op url proxy)" "\<not> x_finished (async_request url proxy req)"
          by (simp_all add: async_request_def)
        then show ?thesis
          using err run_stop [of "async_request url proxy req" "resolve_op url proxy" net e'] by (simp add: perform_def)
      qed
    qed
  qed
  then show ?thesis
    using True by (simp add: exchange_ops_def request_read_def attempt_assoc eval_nat_numeral split: option.splits)
qed

text \<open>
  The reading loop does not spin: as long as it has not ended, every turn has consumed at least one
  byte, so it ends within one turn more than the bytes the parser accepts.
\<close>

fun consumed :: "read_some \<Rightarrow> nat" where
  "consumed (Consumed n fin) = n"
| "consumed (Read_error e) = 0"

lemma read_http_response_progress:
  "read_http_response fin rs = None \<Longrightarrow> length rs \<le> sum_list (map consumed rs)"
proof (induction fin rs rule: read_http_response.induct)
  case (4 n fin rs)
  then have "n \<noteq> 0 \<or> fin" "read_http_response fin rs = None" by (auto split: if_splits)
  then show ?case using 4(1) by (cases fin) auto
qed simp_all

section \<open>Header fields\<close>

lemma get_set_field:
  "get_field k (set_field kv fs) = (if lower (fst kv) = lower k then Some (snd kv) else get_field k fs)"
proof -
  have "List.find (\<lambda>f. lower (fst f) = lower k) (filter (\<lambda>f. lower (fst f) \<noteq> lower (fst kv)) fs @ [kv]) =
      (if lower (fst kv) = lower k then Some kv else List.find (\<lambda>f. lower (fst f) = lower k) fs)"
    by (induction fs) auto
  then show ?thesis by (simp add: get_field_def set_field_def)
qed

lemma get_fold_fields:
  "\<forall>kv \<in> set extra. lower (fst kv) \<noteq> lower k \<Longrightarrow> get_field k (fold set_field extra fs) = get_field k fs"
  by (induction extra arbitrary: fs) (auto simp: get_set_field)

lemma lower_names:
  "lower ''Proxy-Authorization'' = ''proxy-authorization''" "lower ''Host'' = ''host''"
  "lower ''User-Agent'' = ''user-agent''" "lower ''Content-Type'' = ''content-type''"
  by code_simp+

lemma request_authorization:
  assumes "\<forall>kv \<in> set extra. lower (fst kv) \<noteq> ''proxy-authorization''"
  shows "get_field ''Proxy-Authorization'' (xr_fields (exchange_request_for url proxy extra target body)) =
     (case proxy of None \<Rightarrow> None | Some p \<Rightarrow> if \<not> url_tls url \<and> authorization p \<noteq> [] then Some (authorization p) else None)"
  using assms
  by (simp add: exchange_request_for_def request_fields_def get_fold_fields get_set_field lower_names split: option.split)
    (simp add: get_field_def)

lemma tunnel_authorization:
  "get_field ''Proxy-Authorization'' (xr_fields (tunnel_request url p)) =
     (if authorization p \<noteq> [] then Some (authorization p) else None)"
  by (simp add: tunnel_request_def get_set_field lower_names) (simp add: get_field_def)

section \<open>Properties\<close>

fun is_completion :: "x_out \<Rightarrow> bool" where
  "is_completion (X_error e) = True"
| "is_completion (X_response status body) = True"
| "is_completion out = False"

text \<open>
  C10. An exchange on the strand ends, and ends once: whatever the network does, after at most seven
  completions no operation is outstanding, the exchange has taken itself off the list of requests
  once and then called its handler once, as the last thing it did; and the operations it started
  are an initial part of the planned sequence (through the proxy's tunnel on TLS), none repeated.
\<close>

theorem exchange_completes_once:
  assumes "net_ok net" and "x_run (7 + n) net (async_request url proxy req) = (x, ks, outs)"
  shows "x_op x = None \<and> x_finished x \<and> prefix ks (exchange_ops url proxy req) \<and>
     length (filter is_completion outs) = 1 \<and> outs \<noteq> [] \<and> is_completion (last outs) \<and>
     length (filter ((=) X_removed) outs) = 1"
proof -
  have e: "x_op x = None" "x_finished x" "prefix ks (exchange_ops url proxy req)"
    "agrees (url_host url) net outs (request_read net url proxy req)"
    using run_exchange [OF assms(1), of url proxy req n] assms(2) by (auto simp: ends_well_def)
  from e(4) consider (response) st body where "outs = [X_removed, X_response st body]"
    | (error) er where "outs = [X_removed, X_error er]" | (refused) m er where "outs = [X_fail m, X_removed, X_error er]"
    by (auto simp: agrees_def split: sum.splits exchange_error.splits)
  then show ?thesis using e(1-3) by cases simp_all
qed



text \<open>A request through a proxy's tunnel that is answered, one that the proxy refuses, and one whose stream breaks last.\<close>

definition secure_url :: url_parts where
  "secure_url = \<lparr>url_scheme = ''https'', url_host = ''h'', url_port = ''443'', url_target = ''/x'', url_tls = True\<rparr>"

definition sample_proxy :: proxy_config where
  "sample_proxy =
     \<lparr>endpoint = \<lparr>url_scheme = ''http'', url_host = ''p'', url_port = ''8080'', url_target = ''/'', url_tls = False\<rparr>,
      authorization = ''Basic YTpi''\<rparr>"

definition sample_request :: exchange_request where
  "sample_request = exchange_request_for secure_url (Some sample_proxy) [(''X-Id'', ''1'')] ''/x?sid=s'' ''42[]''"

fun sample_net :: "nat \<Rightarrow> net_result \<Rightarrow> net_op \<Rightarrow> net_result" where
  "sample_net status closing N_proxy_read = N_status status"
| "sample_net status closing N_read = N_response 200 ''ok''"
| "sample_net status closing N_shutdown = closing"
| "sample_net status closing k = N_ok"

lemma sample_net_ok: "net_ok (sample_net status N_ok)" "net_ok (sample_net status (N_error e))"
proof -
  show "net_ok (sample_net status N_ok)" unfolding net_ok_def
  proof
    fix k show "result_fits k (sample_net status N_ok k)" by (cases k) simp_all
  qed
  show "net_ok (sample_net status (N_error e))" unfolding net_ok_def
  proof
    fix k show "result_fits k (sample_net status (N_error e) k)" by (cases k) simp_all
  qed
qed

definition sample_run :: "nat \<Rightarrow> net_result \<Rightarrow> exchange \<times> net_op list \<times> x_out list" where
  "sample_run status closing =
     x_run (7 + 0) (sample_net status closing) (async_request secure_url (Some sample_proxy) sample_request)"

theorem exchange_completes_once_witness:
  "length (filter is_completion (snd (snd (sample_run 407 N_ok)))) = 1 \<and> length (fst (snd (sample_run 407 N_ok))) = 4"
proof -
  obtain x ks outs where r: "sample_run 407 N_ok = (x, ks, outs)" by (cases "sample_run 407 N_ok")
  have "length (filter is_completion outs) = 1"
    using exchange_completes_once [OF sample_net_ok(1) r [unfolded sample_run_def]] by blast
  then have "length (filter is_completion (snd (snd (sample_run 407 N_ok)))) = 1" by (simp add: r)
  moreover have "length (fst (snd (sample_run 407 N_ok))) = 4" by code_simp
  ultimately show ?thesis by (rule conjI)
qed



end
