(* ===== verification/Polling_Writer.thy ===== *)
theory Polling_Writer
  imports Http_Polling_Transport
begin

text \<open>
  The threads of the polling transport and how the writer is put to sleep, woken and joined (\<^verbatim>\<open>run_writes\<close>, \<^verbatim>\<open>send\<close>, \<^verbatim>\<open>fail\<close>, \<^verbatim>\<open>close\<close>, \<^verbatim>\<open>sync_close\<close> and \<^verbatim>\<open>join_threads\<close> of
  \<^verbatim>\<open>src/http_polling_transport.cpp\<close>, for a transport with threads of its own). The theory
  \<open>Http_Polling_Transport\<close> lets the writer go on whenever its condition holds; here the condition
  variable is modelled as it is: the writer tests its condition with the mutex held, gives the
  mutex up when it begins to wait, and a notification reaches only a writer that waits already.

  The state of the writer tells whether it holds \<^verbatim>\<open>mutex_\<close>: between its test and its wait
  (\<open>W_enter\<close>) it does, elsewhere it does not. The other threads are stacks of sections. Thread 0 is
  the polling thread, which makes calls only in handlers of the application and when it fails; the
  others are threads of the application. \<open>pw_connect\<close> is the thread that holds \<^verbatim>\<open>connect_mutex_\<close>;
  \<^verbatim>\<open>join_mutex_\<close> is only taken by a thread that holds it.
\<close>

section \<open>Definitions\<close>

datatype writer_state =
    W_lock
  | W_enter
  | W_wait
  | W_post frame
  | W_exit

datatype wtask =
    Do_send frame
  | Do_close
  | Do_fail
  | Set_closing
  | Notify_writer
  | Clear_queue
  | Read_session
  | Join_threads
  | Join_writer
  | Join_close
  | Join_poll
  | Unlock_connect

record pwriter =
  pw_closing :: bool
  pw_open :: bool
  pw_once :: bool
  pw_session :: bool
  pw_connect :: "nat option"
  pw_queue :: "frame list"
  pw_writer :: writer_state
  pw_poll_over :: bool
  pw_close_thread :: bool
  pw_threads :: "wtask list list"

definition notify_writer :: "pwriter \<Rightarrow> pwriter" where
  "notify_writer s = (if pw_writer s = W_wait then s\<lparr>pw_writer := W_lock\<rparr> else s)"

definition mutex_free :: "pwriter \<Rightarrow> bool" where
  "mutex_free s \<longleftrightarrow> pw_writer s \<noteq> W_enter"

text \<open>One turn of \<^verbatim>\<open>run_writes\<close>; \<^const>\<open>None\<close> when the thread sleeps or has ended.\<close>

definition run_writes :: "pwriter \<Rightarrow> pwriter option" where
  "run_writes s =
     (case pw_writer s of
        W_lock \<Rightarrow>
          Some (if pw_closing s \<or> pw_queue s \<noteq> []
                then (case pw_queue s of
                        [] \<Rightarrow> s\<lparr>pw_writer := W_exit\<rparr>
                      | f # fs \<Rightarrow> s\<lparr>pw_queue := fs, pw_writer := W_post f\<rparr>)
                else s\<lparr>pw_writer := W_enter\<rparr>)
      | W_enter \<Rightarrow> Some (s\<lparr>pw_writer := W_wait\<rparr>)
      | W_post f \<Rightarrow> Some (s\<lparr>pw_writer := W_lock\<rparr>)
      | _ \<Rightarrow> None)"

text \<open>What \<^verbatim>\<open>join_threads\<close> does once it holds the mutex.\<close>

definition join_threads :: "wtask list" where
  [simp]: "join_threads = [Join_writer, Join_close, Join_poll, Unlock_connect]"

text \<open>
  A section of the thread \<open>me\<close>: the new state and what the thread does next, unless it has to wait.
  A thread that joins itself is detached instead.
\<close>

fun wsection :: "nat \<Rightarrow> wtask \<Rightarrow> pwriter \<Rightarrow> (pwriter \<times> wtask list) option" where
  "wsection me (Do_send f) s =
     (if \<not> mutex_free s then None
      else if pw_closing s \<or> \<not> pw_open s then Some (s, [])
      else Some (s\<lparr>pw_queue := pw_queue s @ [f]\<rparr>, [Notify_writer]))"
| "wsection me Do_close s =
     (if pw_connect s \<noteq> None then None
      else if pw_once s then Some (s, [])
      else Some (s\<lparr>pw_connect := Some me, pw_once := True\<rparr>, [Set_closing, Notify_writer, Read_session]))"
| "wsection me Set_closing s = Some (s\<lparr>pw_closing := True, pw_open := False\<rparr>, [])"
| "wsection me Read_session s =
     (if mutex_free s then Some (s\<lparr>pw_close_thread := pw_session s, pw_connect := None\<rparr>, []) else None)"
| "wsection me Do_fail s =
     (if pw_closing s then Some (s, [])
      else Some (s\<lparr>pw_closing := True, pw_open := False\<rparr>, [Clear_queue, Notify_writer]))"
| "wsection me Clear_queue s = (if mutex_free s then Some (s\<lparr>pw_queue := []\<rparr>, []) else None)"
| "wsection me Notify_writer s = Some (notify_writer s, [])"
| "wsection me Join_threads s =
     (if pw_connect s \<noteq> None then None
      else Some (s\<lparr>pw_connect := Some me\<rparr>, join_threads))"
| "wsection me Join_writer s = (if pw_writer s = W_exit then Some (s, []) else None)"
| "wsection me Join_close s = (if pw_close_thread s then None else Some (s, []))"
| "wsection me Join_poll s = (if me = 0 \<or> pw_poll_over s then Some (s, []) else None)"
| "wsection me Unlock_connect s = Some (s\<lparr>pw_connect := None\<rparr>, [])"

text \<open>\<^verbatim>\<open>sync_close\<close> returns early in a handler that the polling thread is executing.\<close>

definition sync_close_tasks :: "nat \<Rightarrow> wtask list" where
  "sync_close_tasks me = (if me = 0 then [Do_close] else [Do_close, Join_threads])"

datatype w_event =
    New_call "wtask list"
  | Poll_call "wtask list"
  | Section_of nat
  | Writer_turn
  | Spurious_wake
  | Handshake_done
  | Session_known
  | Poll_ends
  | Close_posted

text \<open>
  The calls that the threads make. What the writer executes when its request fails is done by a
  thread of its own.
\<close>

fun is_call :: "nat \<Rightarrow> wtask list \<Rightarrow> bool" where
  "is_call me [Do_send f] = True"
| "is_call me ts \<longleftrightarrow> ts = [Do_close] \<or> ts = [Do_fail] \<or> ts = sync_close_tasks me"

definition w_start :: pwriter where
  "w_start = \<lparr>pw_closing = False, pw_open = False, pw_once = False, pw_session = False, pw_connect = None,
     pw_queue = [], pw_writer = W_lock, pw_poll_over = False, pw_close_thread = False, pw_threads = [[]]\<rparr>"

definition w_init :: "pwriter \<Rightarrow> bool" where
  "w_init s \<longleftrightarrow> s = w_start"

inductive w_step :: "pwriter \<Rightarrow> w_event \<Rightarrow> pwriter \<Rightarrow> bool" where
  w_call: "is_call (length (pw_threads s)) ts \<Longrightarrow> w_step s (New_call ts) (s\<lparr>pw_threads := pw_threads s @ [ts]\<rparr>)"
| w_poll_call: "pw_threads s \<noteq> [] \<Longrightarrow> pw_threads s ! 0 = [] \<Longrightarrow> \<not> pw_poll_over s \<Longrightarrow> is_call 0 ts \<Longrightarrow>
     w_step s (Poll_call ts) (s\<lparr>pw_threads := (pw_threads s)[0 := ts]\<rparr>)"
| w_section: "i < length (pw_threads s) \<Longrightarrow> pw_threads s ! i = k # ks \<Longrightarrow> wsection i k s = Some (s', new) \<Longrightarrow>
     w_step s (Section_of i) (s'\<lparr>pw_threads := (pw_threads s)[i := new @ ks]\<rparr>)"
| w_turn: "run_writes s = Some s' \<Longrightarrow> w_step s Writer_turn s'"
| w_spurious: "pw_writer s = W_wait \<Longrightarrow> w_step s Spurious_wake (s\<lparr>pw_writer := W_lock\<rparr>)"
| w_handshake: "\<not> pw_poll_over s \<Longrightarrow> pw_threads s ! 0 = [] \<Longrightarrow> w_step s Handshake_done (s\<lparr>pw_open := True\<rparr>)"
| w_session: "\<not> pw_poll_over s \<Longrightarrow> pw_threads s ! 0 = [] \<Longrightarrow> mutex_free s \<Longrightarrow>
     w_step s Session_known (s\<lparr>pw_session := True\<rparr>)"
| w_poll_ends: "pw_closing s \<Longrightarrow> pw_threads s ! 0 = [] \<Longrightarrow> w_step s Poll_ends (s\<lparr>pw_poll_over := True\<rparr>)"
| w_close_posted: "w_step s Close_posted (s\<lparr>pw_close_thread := False\<rparr>)"

definition wpending :: "pwriter \<Rightarrow> wtask set" where
  "wpending s = set (concat (pw_threads s))"

section \<open>No notification of a frame or a failure is lost\<close>

text \<open>
  A writer that is about to wait has seen an empty queue, and as long as it holds the mutex nothing is
  added. A writer that waits while there is a frame, or after a failure, is about to be notified.
  After \<^verbatim>\<open>close\<close> (\<open>pw_once\<close>) nothing of the kind holds.
\<close>

fun notifies_after_clear :: "wtask list \<Rightarrow> bool" where
  "notifies_after_clear [] = True"
| "notifies_after_clear (k # ks) \<longleftrightarrow> (k = Clear_queue \<longrightarrow> Notify_writer \<in> set ks) \<and> notifies_after_clear ks"

definition wake_inv :: "pwriter \<Rightarrow> bool" where
  "wake_inv s \<longleftrightarrow>
     (pw_writer s = W_enter \<longrightarrow> pw_queue s = [] \<and> (pw_closing s \<longrightarrow> pw_once s \<or> Clear_queue \<in> wpending s)) \<and>
     (pw_writer s = W_wait \<longrightarrow> (pw_queue s \<noteq> [] \<longrightarrow> Notify_writer \<in> wpending s) \<and>
        (pw_closing s \<longrightarrow> pw_once s \<or> Notify_writer \<in> wpending s)) \<and>
     (\<forall>ts \<in> set (pw_threads s). notifies_after_clear ts) \<and>
     (Set_closing \<in> wpending s \<longrightarrow> pw_once s)"

lemma concat_pop:
  assumes "i < length T" and "T ! i = k # ks"
  obtains R where "set (concat T) = insert k (set ks \<union> R)" "\<And>xs. set (concat (T[i := xs])) = set xs \<union> R"
proof -
  have T: "T = take i T @ (k # ks) # drop (Suc i) T" using id_take_nth_drop [OF assms(1)] assms(2) by simp
  have "set (concat T) = insert k (set ks \<union> (set (concat (take i T)) \<union> set (concat (drop (Suc i) T))))"
    by (subst T) auto
  moreover have "set (concat (T[i := xs])) = set xs \<union> (set (concat (take i T)) \<union> set (concat (drop (Suc i) T)))" for xs
    using assms(1) by (auto simp: upd_conv_take_nth_drop)
  ultimately show thesis using that by blast
qed

lemma clear_notifies: "Clear_queue \<in> set ts \<Longrightarrow> notifies_after_clear ts \<Longrightarrow> Notify_writer \<in> set ts"
  by (induction ts) auto

lemma pending_clear:
  "\<forall>ts \<in> set (pw_threads s). notifies_after_clear ts \<Longrightarrow> Clear_queue \<in> wpending s \<Longrightarrow> Notify_writer \<in> wpending s"
  using clear_notifies by (auto simp: wpending_def)

lemma wake_section:
  assumes I: "wake_inv s" and i: "i < length (pw_threads s)" "pw_threads s ! i = k # ks" and e: "wsection i k s = Some (s', new)"
  shows "wake_inv (s'\<lparr>pw_threads := (pw_threads s)[i := new @ ks]\<rparr>)"
proof -
  obtain R where R: "set (concat (pw_threads s)) = insert k (set ks \<union> R)"
    "\<And>xs. set (concat ((pw_threads s)[i := xs])) = set xs \<union> R" using concat_pop [OF i] by blast
  have old: "\<forall>ts \<in> set (pw_threads s). notifies_after_clear ts" using I by (simp add: wake_inv_def)
  have mine: "notifies_after_clear (k # ks)" using old i nth_mem by metis
  then have "notifies_after_clear (new @ ks)" using e by (cases k) (auto split: if_splits)
  then have t: "\<forall>ts \<in> set ((pw_threads s)[i := new @ ks]). notifies_after_clear ts"
    using old set_update_subset_insert [of "pw_threads s" i "new @ ks"] by blast
  have s': "s' = fst (the (wsection i k s))" "new = snd (the (wsection i k s))" and ne: "wsection i k s \<noteq> None" by (simp_all add: e)
  show ?thesis
    using I ne mine t pending_clear [OF old] unfolding s'
    by (cases k) (auto simp: wake_inv_def wpending_def R mutex_free_def notify_writer_def simp del: set_concat split: if_splits)
qed

text \<open>The sections with which a call of the transport begins.\<close>

fun is_entry :: "wtask \<Rightarrow> bool" where
  "is_entry (Do_send f) = True"
| "is_entry k \<longleftrightarrow> k = Do_close \<or> k = Do_fail \<or> k = Join_threads"

lemma call_tasks:
  assumes "is_call me ts"
  shows "list_all is_entry ts" "notifies_after_clear ts"
  using assms by (cases "(me, ts)" rule: is_call.cases; auto simp: sync_close_tasks_def split: if_splits)+

lemma wake_turn:
  assumes "wake_inv s" and "run_writes s = Some s'"
  shows "wake_inv s'"
proof (cases "pw_writer s")
  case W_enter
  then have s': "s' = s\<lparr>pw_writer := W_wait\<rparr>" using assms(2) by (simp add: run_writes_def)
  have "wpending s' = wpending s" by (simp add: s' wpending_def)
  moreover have "Clear_queue \<in> wpending s \<Longrightarrow> Notify_writer \<in> wpending s"
    using assms(1) pending_clear by (simp add: wake_inv_def)
  ultimately show ?thesis using assms(1) W_enter by (auto simp: wake_inv_def s')
qed (use assms in \<open>auto simp: run_writes_def wake_inv_def wpending_def split: if_splits list.splits\<close>)

interpretation waking: invariant w_init w_step wake_inv
proof unfold_locales
  show "wake_inv s" if "w_init s" for s using that by (simp add: w_init_def w_start_def wake_inv_def wpending_def)
  show "wake_inv t" if I: "wake_inv s" and "w_step s e t" for s e t
    using that(2)
  proof cases
    case (w_call ts)
    then show ?thesis using I call_tasks [OF w_call(3)] by (auto simp: wake_inv_def wpending_def list_all_iff)
  next
    case (w_poll_call ts)
    have "set (concat ((pw_threads s)[0 := ts])) = set (concat (pw_threads s)) \<union> set ts"
      using w_poll_call(3,4) by (cases "pw_threads s") auto
    then show ?thesis
      using I call_tasks [OF w_poll_call(6)] set_update_subset_insert [of "pw_threads s" 0 ts] unfolding w_poll_call(2)
      by (auto simp: wake_inv_def wpending_def list_all_iff simp del: set_concat)
  next
    case (w_section i k ks s' new)
    then show ?thesis using wake_section [OF I] by simp
  next
    case w_turn
    then show ?thesis using wake_turn [OF I] by blast
  qed (use I in \<open>auto simp: wake_inv_def wpending_def\<close>)
qed

section \<open>A notification of close can be lost\<close>

lemma image_is_singleton:
  assumes "\<And>x. x \<in> A \<Longrightarrow> f x = c" and "a \<in> A"
  shows "f ` A = {c}"
proof -
  have "f ` A = (\<lambda>_. c) ` A" using assms(1) by (rule image_cong [OF refl])
  then show ?thesis using image_constant [OF assms(2)] by simp
qed

text \<open>
  Thread 1 is in \<^verbatim>\<open>sync_close\<close> and waits for the writer, which waits to be notified. Nobody is going to
  notify it: whoever sends is turned away, and whoever closes or joins waits for thread 1.
\<close>

definition stranded :: "pwriter \<Rightarrow> bool" where
  "stranded s \<longleftrightarrow> pw_closing s \<and> pw_connect s = Some 1 \<and> pw_writer s = W_wait \<and> 1 < length (pw_threads s) \<and>
     pw_threads s ! 1 = [Join_writer, Join_close, Join_poll, Unlock_connect] \<and>
     (\<forall>i < length (pw_threads s). i \<noteq> 1 \<longrightarrow> list_all is_entry (pw_threads s ! i))"

lemma stranded_step:
  assumes S: "stranded s" and "w_step s e t" and "e \<noteq> Spurious_wake"
  shows "stranded t"
  using assms(2)
proof cases
  case (w_call ts)
  then show ?thesis using S call_tasks(1) [OF w_call(3)] by (auto simp: stranded_def nth_append)
next
  case (w_poll_call ts)
  then show ?thesis using S call_tasks(1) [OF w_poll_call(6)] by (auto simp: stranded_def nth_list_update)
next
  case (w_section i k ks s' new)
  have i: "i \<noteq> 1" using S w_section by (auto simp: stranded_def)
  then have k: "list_all is_entry (k # ks)" using S w_section(3,4) unfolding stranded_def by metis
  then have "s' = s \<and> new = []" using S w_section(5) by (cases k) (auto simp: stranded_def split: if_splits)
  then show ?thesis using S i k w_section(3) unfolding w_section(2) by (auto simp: stranded_def nth_list_update)
qed (use S assms(3) in \<open>auto simp: stranded_def run_writes_def\<close>)

section \<open>Joining can block a handler\<close>

text \<open>
  Thread 1 is in \<^verbatim>\<open>sync_close\<close> and waits, with \<^verbatim>\<open>connect_mutex_\<close> held, for the polling thread, which
  needs that mutex for the \<^verbatim>\<open>close\<close> it has called in a handler.
\<close>

fun not_owner :: "wtask \<Rightarrow> bool" where
  "not_owner k \<longleftrightarrow> is_entry k \<or> k = Clear_queue \<or> k = Notify_writer"

definition entangled :: "pwriter \<Rightarrow> bool" where
  "entangled s \<longleftrightarrow> pw_connect s = Some 1 \<and> \<not> pw_poll_over s \<and> 1 < length (pw_threads s) \<and>
     pw_threads s ! 0 = [Do_close] \<and> pw_threads s ! 1 = [Join_poll, Unlock_connect] \<and>
     (\<forall>i < length (pw_threads s). 1 < i \<longrightarrow> list_all not_owner (pw_threads s ! i))"

lemma entangled_step:
  assumes S: "entangled s" and "w_step s e t"
  shows "entangled t"
  using assms(2)
proof cases
  case (w_call ts)
  then show ?thesis using S call_tasks(1) [OF w_call(3)] by (auto simp: entangled_def nth_append list_all_iff)
next
  case (w_section i k ks s' new)
  have "i \<noteq> 0" and "i \<noteq> 1" using S w_section by (auto simp: entangled_def)
  then have i: "1 < i" by simp
  have k: "list_all not_owner (k # ks)"
    using S i w_section(3,4) unfolding entangled_def by metis
  then have "pw_connect s' = pw_connect s \<and> pw_poll_over s' = pw_poll_over s \<and> list_all not_owner new"
    using S w_section(5) by (cases k) (auto simp: entangled_def notify_writer_def split: if_splits)
  then show ?thesis using S i k w_section(3) unfolding w_section(2) by (auto simp: entangled_def nth_list_update)
qed (use S in \<open>auto simp: entangled_def run_writes_def split: writer_state.splits list.splits if_splits\<close>)

section \<open>Executing events\<close>

fun w_perform :: "pwriter \<Rightarrow> w_event \<Rightarrow> pwriter option" where
  "w_perform s (New_call ts) =
     (if is_call (length (pw_threads s)) ts then Some (s\<lparr>pw_threads := pw_threads s @ [ts]\<rparr>) else None)"
| "w_perform s (Poll_call ts) =
     (if pw_threads s \<noteq> [] \<and> pw_threads s ! 0 = [] \<and> \<not> pw_poll_over s \<and> is_call 0 ts
      then Some (s\<lparr>pw_threads := (pw_threads s)[0 := ts]\<rparr>) else None)"
| "w_perform s (Section_of i) =
     (if i < length (pw_threads s)
      then (case pw_threads s ! i of
              [] \<Rightarrow> None
            | k # ks \<Rightarrow>
                map_option (\<lambda>(s', new). s'\<lparr>pw_threads := (pw_threads s)[i := new @ ks]\<rparr>) (wsection i k s))
      else None)"
| "w_perform s Writer_turn = run_writes s"
| "w_perform s Spurious_wake = (if pw_writer s = W_wait then Some (s\<lparr>pw_writer := W_lock\<rparr>) else None)"
| "w_perform s Handshake_done = (if \<not> pw_poll_over s \<and> pw_threads s ! 0 = [] then Some (s\<lparr>pw_open := True\<rparr>) else None)"
| "w_perform s Session_known =
     (if \<not> pw_poll_over s \<and> pw_threads s ! 0 = [] \<and> mutex_free s then Some (s\<lparr>pw_session := True\<rparr>) else None)"
| "w_perform s Poll_ends = (if pw_closing s \<and> pw_threads s ! 0 = [] then Some (s\<lparr>pw_poll_over := True\<rparr>) else None)"
| "w_perform s Close_posted = Some (s\<lparr>pw_close_thread := False\<rparr>)"

fun w_perform_all :: "pwriter \<Rightarrow> w_event list \<Rightarrow> pwriter option" where
  "w_perform_all s [] = Some s"
| "w_perform_all s (e # es) = (case w_perform s e of None \<Rightarrow> None | Some s' \<Rightarrow> w_perform_all s' es)"

lemma w_perform_step: "w_perform s e = Some s' \<Longrightarrow> w_step s e s'"
  by (cases e) (auto split: if_splits list.splits intro: w_step.intros)

lemma w_perform_reach: "w_perform_all s es = Some s' \<Longrightarrow> reach I w_step s \<Longrightarrow> reach I w_step s'"
  by (induction es arbitrary: s) (auto split: option.splits intro: reach_step w_perform_step)

definition after_w :: "w_event list \<Rightarrow> pwriter" where
  "after_w es = the (w_perform_all w_start es)"

lemma after_w_reach:
  assumes "w_perform_all w_start es \<noteq> None"
  shows "reach w_init w_step (after_w es)"
proof -
  have "reach w_init w_step w_start" by (rule reach_init) (simp add: w_init_def)
  then show ?thesis using assms by (auto simp: after_w_def intro: w_perform_reach)
qed

definition close_meanwhile :: "w_event list" where
  "close_meanwhile =
     [New_call (sync_close_tasks 1), Writer_turn, Section_of 1, Section_of 1, Section_of 1, Writer_turn, Section_of 1, Section_of 1]"

definition close_in_handler :: "w_event list" where
  "close_in_handler =
     [Handshake_done, Session_known, New_call (sync_close_tasks 1), Poll_call [Do_close], Section_of 1, Section_of 1,
      Section_of 1, Section_of 1, Writer_turn, Close_posted, Section_of 1, Section_of 1, Section_of 1]"

text \<open>All that is observed in the states reachable from \<open>s\<close> is \<open>c\<close>, if a set of states around \<open>s\<close> is closed under steps.\<close>

lemma reachable_image:
  assumes "P s" and "\<And>s e t. P s \<Longrightarrow> step s e t \<Longrightarrow> P t" and "\<And>s. P s \<Longrightarrow> f s = c"
  shows "f ` {t. reach (\<lambda>t. t = s) step t} = {c}"
proof (rule image_is_singleton)
  show "f t = c" if "t \<in> {t. reach (\<lambda>t. t = s) step t}" for t
  proof -
    from that have "P t" unfolding mem_Collect_eq by (induction rule: reach.induct) (use assms(1,2) in blast)+
    then show ?thesis by (rule assms(3))
  qed
  show "s \<in> {t. reach (\<lambda>t. t = s) step t}" by (auto intro: reach_init)
qed

section \<open>Properties\<close>

text \<open>
  C38. The writer is never left asleep with work to do, as long as \<^verbatim>\<open>close\<close> is not called: whichever threads
  send and fail, once they have returned a sleeping writer has nothing in its queue, and after a
  failure it does not sleep, so it ends and can be joined.
\<close>

theorem writer_not_left_asleep:
  assumes "reach w_init w_step s" and "wpending s = {}" and "pw_writer s = W_wait \<or> pw_writer s = W_enter"
  shows "pw_queue s = [] \<and> (pw_closing s \<longrightarrow> pw_once s)"
  using waking.reachable_inv [OF assms(1)] assms(2,3) by (auto simp: wake_inv_def)

theorem writer_not_left_asleep_witness:
  "pw_queue (after_w [Writer_turn, Writer_turn, Handshake_done, New_call [Do_send (''a'', False)], Section_of 1, Section_of 1,
     Writer_turn, Writer_turn, Writer_turn, Writer_turn]) = []
   \<and> pw_writer (after_w [Writer_turn, Writer_turn, Handshake_done, New_call [Do_send (''a'', False)], Section_of 1, Section_of 1,
     Writer_turn, Writer_turn, Writer_turn, Writer_turn]) = W_wait"
proof -
  let ?es = "[Writer_turn, Writer_turn, Handshake_done, New_call [Do_send (''a'', False)], Section_of 1, Section_of 1,
     Writer_turn, Writer_turn, Writer_turn, Writer_turn]"
  have "w_perform_all w_start ?es \<noteq> None" by code_simp
  moreover have "wpending (after_w ?es) = {}" by code_simp
  moreover have w: "pw_writer (after_w ?es) = W_wait" by code_simp
  ultimately have "pw_queue (after_w ?es) = []" using writer_not_left_asleep [OF after_w_reach] by blast
  then show ?thesis using w by (rule conjI)
qed

text \<open>
  C39. Closing can hang. \<^verbatim>\<open>close\<close> sets the flag and notifies without holding the mutex, so both can happen
  after the writer has tested its condition and before it waits. If the caller was \<^verbatim>\<open>sync_close\<close>, it then
  waits for the writer to end and the writer for a notification, and no call of any thread ends that;
  only a spurious wake-up would.
\<close>

theorem close_can_strand_writer:
  "reach w_init w_step (after_w close_meanwhile) \<and>
   (\<lambda>s. (pw_closing s, pw_writer s, hd (pw_threads s ! 1))) `
     {s. reach (\<lambda>s. s = after_w close_meanwhile) (\<lambda>s e t. w_step s e t \<and> e \<noteq> Spurious_wake) s}
   = {(True, W_wait, Join_writer)}"
proof
  have "w_perform_all w_start close_meanwhile \<noteq> None" by code_simp
  then show "reach w_init w_step (after_w close_meanwhile)" by (rule after_w_reach)
  have "pw_closing (after_w close_meanwhile) \<and> pw_connect (after_w close_meanwhile) = Some 1 \<and>
    pw_writer (after_w close_meanwhile) = W_wait \<and>
    pw_threads (after_w close_meanwhile) = [[], [Join_writer, Join_close, Join_poll, Unlock_connect]]" by code_simp
  then have "stranded (after_w close_meanwhile)" by (simp add: stranded_def All_less_Suc)
  then show "(\<lambda>s. (pw_closing s, pw_writer s, hd (pw_threads s ! 1))) `
     {s. reach (\<lambda>s. s = after_w close_meanwhile) (\<lambda>s e t. w_step s e t \<and> e \<noteq> Spurious_wake) s}
   = {(True, W_wait, Join_writer)}"
    by (rule reachable_image [where P = stranded]) (use stranded_step in blast, simp add: stranded_def)
qed

text \<open>
  C40. \<^verbatim>\<open>sync_close\<close> can hang because a handler calls \<^verbatim>\<open>close\<close>, which is how handlers are told to
  close: it joins the polling thread with \<^verbatim>\<open>connect_mutex_\<close> held, and the handler needs that mutex. From then
  on the handler never returns from \<^verbatim>\<open>close\<close> and the other thread never from \<^verbatim>\<open>sync_close\<close>, whatever happens.
\<close>

theorem close_in_handler_deadlock:
  "reach w_init w_step (after_w close_in_handler) \<and>
   (\<lambda>s. (pw_connect s, pw_threads s ! 0, hd (pw_threads s ! 1))) `
     {s. reach (\<lambda>s. s = after_w close_in_handler) w_step s}
   = {(Some 1, [Do_close], Join_poll)}"
proof
  have "w_perform_all w_start close_in_handler \<noteq> None" by code_simp
  then show "reach w_init w_step (after_w close_in_handler)" by (rule after_w_reach)
  have "pw_connect (after_w close_in_handler) = Some 1 \<and> \<not> pw_poll_over (after_w close_in_handler) \<and>
    pw_threads (after_w close_in_handler) = [[Do_close], [Join_poll, Unlock_connect]]" by code_simp
  then have "entangled (after_w close_in_handler)" by (simp add: entangled_def All_less_Suc)
  then show "(\<lambda>s. (pw_connect s, pw_threads s ! 0, hd (pw_threads s ! 1))) `
     {s. reach (\<lambda>s. s = after_w close_in_handler) w_step s} = {(Some 1, [Do_close], Join_poll)}"
    by (rule reachable_image [where P = entangled]) (use entangled_step in blast, simp add: entangled_def)
qed

end
