(* ===== verification/Websocket_Join.thy ===== *)
theory Websocket_Join
  imports Websocket_Transport
begin

text \<open>
  Waiting for the end of the WebSocket transport (\<^verbatim>\<open>sync_close\<close>, \<^verbatim>\<open>join_io_thread\<close> and the destructor of
  \<^verbatim>\<open>src/websocket_transport.cpp\<close>), for a transport that owns its \<^verbatim>\<open>io_context\<close>. \<^verbatim>\<open>shutdown_on_io_thread\<close>
  stops the context, so the I/O thread ends when the handler it is in has returned; what was posted or
  outstanding is kept and is run by the thread that joins it.
\<close>

section \<open>Definitions\<close>

text \<open>The I/O thread has ended: the context was stopped, and no handler is running.\<close>

definition io_ended :: "websocket \<Rightarrow> bool" where
  "io_ended w \<longleftrightarrow> shutdown_once w \<and> Shutdown \<notin> set (posted w) \<and> strand w = []"

definition run_all_posted :: "websocket \<Rightarrow> websocket" where
  "run_all_posted w = fold run_posted (posted w) (w\<lparr>posted := []\<rparr>)"

definition complete_all :: "websocket \<Rightarrow> websocket" where
  "complete_all w = fold (\<lambda>k v. complete k (Failure ''operation canceled'') v) (asyncs w) (w\<lparr>asyncs := []\<rparr>)"

definition join_io_thread :: "websocket \<Rightarrow> websocket option" where
  "join_io_thread w =
     (if \<not> connect_called w then Some w
      else if \<not> io_ended w then None
      else Some ((complete_all (run_all_posted w))\<lparr>ws_stream := False\<rparr>))"

text \<open>
  \<^verbatim>\<open>sync_close\<close>: what is done at once, and whether the caller then goes on to join. A callback, and the
  user of an external context, do not join.
\<close>

definition ws_sync_close :: "bool \<Rightarrow> bool \<Rightarrow> websocket \<Rightarrow> websocket \<times> bool" where
  "ws_sync_close owned on_strand w = (ws_close on_strand w, \<not> on_strand \<and> owned)"

text \<open>The destructor, which no longer runs handlers: the streams go with the object.\<close>

definition ws_destroy :: "websocket \<Rightarrow> websocket" where
  "ws_destroy w = w\<lparr>ws_closing := True, ws_state := T_closed, asyncs := [], posted := [], ws_stream := False\<rparr>"

section \<open>The first function posted\<close>

text \<open>
  As long as connecting has not started, nothing else goes on, and a shutdown that is posted comes
  after it.
\<close>

definition start_inv :: "websocket \<Rightarrow> bool" where
  "start_inv w \<longleftrightarrow>
     (\<not> connect_called w \<or> Start \<in> set (posted w) \<longrightarrow> strand w = [] \<and> asyncs w = [] \<and> \<not> ws_stream w) \<and>
     (Start \<in> set (posted w) \<longrightarrow> connect_called w \<and> Shutdown \<notin> set (takeWhile ((\<noteq>) Start) (posted w)) \<and>
        (shutdown_once w \<longrightarrow> Shutdown \<in> set (posted w))) \<and>
     (shutdown_once w \<longleftrightarrow> ws_closing w) \<and> (Shutdown \<in> set (posted w) \<longrightarrow> shutdown_once w) \<and>
     length (filter is_start (posted w)) \<le> 1"

lemma start_run:
  assumes I: "start_inv w" and "strand w = []" and p: "posted w = p # ps"
  shows "start_inv (run_posted p (w\<lparr>posted := ps\<rparr>))"
proof (cases p)
  case Start
  then have "Start \<notin> set ps" using I p by (auto simp: start_inv_def is_start_def filter_empty_conv)
  then show ?thesis
    using I p Start by (auto simp: start_inv_def ws_start_def initiate_def is_start_def filter_empty_conv)
next
  case (Queue_write f)
  then show ?thesis
    using I p
    by (auto simp: start_inv_def queue_write_def pump_write_queue_def observe_def initiate_def is_start_def Let_def
        split: list.splits)
next
  case Shutdown
  then show ?thesis
    using I p by (auto simp: start_inv_def shutdown_on_io_thread_def is_start_def)
qed

lemma complete_keeps:
  "posted (complete k r w) = posted w" "connect_called (complete k r w) = connect_called w"
  "shutdown_once (complete k r w) = shutdown_once w" "ws_closing (complete k r w) = ws_closing w"
  by (cases k; auto simp: ws_defs on_written_def pump_write_queue_def Let_def split: completion.split option.split list.split)+

lemma continue_keeps:
  "posted (continue t w) = posted w" "connect_called (continue t w) = connect_called w"
  "shutdown_once (continue t w) = shutdown_once w" "ws_closing (continue t w) = ws_closing w"
  by (cases t; auto simp: ws_defs)+

interpretation starting: invariant ws_init ws_step start_inv
proof unfold_locales
  show "start_inv w" if "ws_init w" for w using that by (auto simp: ws_init.simps start_inv_def websocket_new_def)
  show "start_inv w'" if I: "start_inv w" and "ws_step w e w'" for w e w'
    using that(2)
  proof cases
    case (connect url)
    then show ?thesis
      using I by (auto simp: start_inv_def ws_connect_def is_start_def filter_empty_conv split: if_splits sum.splits
          dest!: set_takeWhileD)
  next
    case (send f)
    then show ?thesis using I by (auto simp: start_inv_def ws_send_def observe_def is_start_def)
  next
    case (close on_strand)
    then show ?thesis
      using I by (auto simp: start_inv_def ws_close_def shutdown_on_io_thread_def is_start_def Let_def)
  next
    case (run p ps)
    then show ?thesis using start_run [OF I] by simp
  next
    case (complete i r)
    then show ?thesis using I by (auto simp: start_inv_def complete_keeps)
  next
    case (continue t ts)
    then show ?thesis using I by (auto simp: start_inv_def continue_keeps)
  qed
qed

section \<open>Joining\<close>

text \<open>In a closing transport every handler returns at once.\<close>

lemma complete_closing: "ws_closing w \<Longrightarrow> complete k r w = w"
  by (cases k) (auto simp: ws_defs on_written_def)

lemma complete_all_closing:
  "ws_closing w \<Longrightarrow> fold (\<lambda>k v. complete k r v) ks w = w"
  by (induction ks) (simp_all add: complete_closing)

lemma run_posted_closing:
  assumes "ws_closing w" and "Start \<notin> set ps" and "Shutdown \<notin> set ps"
  shows "fold run_posted ps w = w"
  using assms(2,3)
proof (induction ps)
  case (Cons p ps)
  then show ?case using assms(1) by (cases p) (auto simp: queue_write_def)
qed simp

lemma join_result:
  assumes "start_inv w" and "io_ended w" and "connect_called w"
  shows "join_io_thread w = Some (w\<lparr>posted := [], asyncs := [], ws_stream := False\<rparr>)"
proof -
  have c: "ws_closing w" "Start \<notin> set (posted w)" "Shutdown \<notin> set (posted w)"
    using assms(1,2) by (auto simp: start_inv_def io_ended_def)
  then have "run_all_posted w = w\<lparr>posted := []\<rparr>" using run_posted_closing [of "w\<lparr>posted := []\<rparr>"] by (simp add: run_all_posted_def)
  then show ?thesis
    using assms(2,3) c(1) complete_all_closing [of "w\<lparr>posted := [], asyncs := []\<rparr>"] by (simp add: join_io_thread_def complete_all_def)
qed

text \<open>The I/O thread ends: what it still has to do becomes less with every step.\<close>

fun task_work :: "ws_task \<Rightarrow> nat" where
  "task_work Returned = 1"
| "task_work Resume_read = 1"
| "task_work Write_failed = 1"
| "task_work t = 2"

definition io_work :: "websocket \<Rightarrow> nat" where
  "io_work w = sum_list (map task_work (strand w)) + length (posted w)"

lemma io_progress:
  assumes "ws_closing w" and "shutdown_once w" and "\<not> io_ended w"
  shows "\<exists>e w'. (e = Continue \<or> e = Run_posted) \<and> ws_step w e w' \<and> io_work w' < io_work w \<and> ws_closing w' \<and> shutdown_once w'"
proof (cases "strand w")
  case (Cons t ts)
  have "ws_step w Continue (continue t (w\<lparr>strand := ts\<rparr>))" by (rule ws_step.continue [OF Cons])
  moreover have "io_work (continue t (w\<lparr>strand := ts\<rparr>)) < io_work w"
    using Cons assms(1) by (cases t) (auto simp: io_work_def ws_defs)
  moreover have "ws_closing (continue t (w\<lparr>strand := ts\<rparr>))" "shutdown_once (continue t (w\<lparr>strand := ts\<rparr>))"
    using assms(1,2) by (simp_all add: continue_keeps)
  ultimately show ?thesis by blast
next
  case Nil
  then obtain p ps where p: "posted w = p # ps" using assms(2,3) by (cases "posted w") (auto simp: io_ended_def)
  have "ws_step w Run_posted (run_posted p (w\<lparr>posted := ps\<rparr>))" by (rule ws_step.run [OF Nil p])
  moreover have "io_work (run_posted p (w\<lparr>posted := ps\<rparr>)) < io_work w" "ws_closing (run_posted p (w\<lparr>posted := ps\<rparr>))"
    "shutdown_once (run_posted p (w\<lparr>posted := ps\<rparr>))"
    using Nil p assms(1,2)
    by (cases p; auto simp: io_work_def ws_start_def initiate_def queue_write_def shutdown_on_io_thread_def)+
  ultimately show ?thesis by blast
qed

lemma io_thread_ends:
  assumes "ws_closing w" and "shutdown_once w" and "reach I ws_step w"
  shows "\<exists>w'. reach I ws_step w' \<and> reach (\<lambda>v. v = w) (\<lambda>s e t. (e = Continue \<or> e = Run_posted) \<and> ws_step s e t) w' \<and> io_ended w'"
  using assms
proof (induction "io_work w" arbitrary: w rule: less_induct)
  case less
  let ?own = "\<lambda>s e t. (e = Continue \<or> e = Run_posted) \<and> ws_step s e t"
  show ?case
  proof (cases "io_ended w")
    case True
    then show ?thesis using less.prems(3) reach_init [of "\<lambda>v. v = w" w ?own] by blast
  next
    case False
    from io_progress [OF less.prems(1,2) False] obtain e v where
      v: "?own w e v" "io_work v < io_work w" "ws_closing v" "shutdown_once v" by blast
    have "reach I ws_step v" using less.prems(3) v(1) by (blast intro: reach_step)
    from less.hyps [OF v(2,3,4) this] obtain w' where
      w': "reach I ws_step w'" "reach (\<lambda>u. u = v) ?own w'" "io_ended w'" by blast
    have "reach (\<lambda>u. u = w) ?own v" by (rule reach_step [where step = ?own, OF reach_init v(1)]) (rule refl)
    then have "reach (\<lambda>u. u = w) ?own w'" using w'(2) by (induction rule: reach.induct [OF w'(2)]) (auto intro: reach_step)
    then show ?thesis using w' by blast
  qed
qed

section \<open>Properties\<close>



end
